(* ===== verification/Prelude.thy ===== *)
theory Prelude
  imports Complex_Main "HOL-Library.Multiset" "HOL-Library.Product_Lexorder"
begin

section \<open>Prelude: shared types, string functions and list lemmas\<close>

text \<open>
  What every component of the development shares: the text type (a Go string seen as its
  list of runes), the functions of Go's package strings that the code calls, and the generic
  facts on lists and finite sums that the component proofs rest on.

  Times in seconds (Go float64) are reals here and durations or instants counted in
  nanoseconds are integers; rounding of binary floating point is not modelled.
\<close>

named_theorems step_inv \<open>an operation preserves its component's invariant\<close>

type_synonym rune = nat
type_synonym runes = "rune list"

text \<open>A string literal of the source, all ASCII, as runes.\<close>

definition lit :: "string \<Rightarrow> runes" where
  "lit s = map of_char s"

lemma lit_Nil [simp]: "lit [] = []"
  by (simp add: lit_def)

lemma lit_Cons [simp]: "lit (c # cs) = of_char c # lit cs"
  by (simp add: lit_def)

subsection \<open>White space and trimming (unicode.IsSpace, strings.TrimSpace)\<close>

definition is_space :: "rune \<Rightarrow> bool" where
  "is_space r \<longleftrightarrow> (9 \<le> r \<and> r \<le> 13) \<or> r = 32 \<or> r = 133 \<or> r = 160 \<or> r = 5760
     \<or> (8192 \<le> r \<and> r \<le> 8202) \<or> r = 8232 \<or> r = 8233 \<or> r = 8239 \<or> r = 8287 \<or> r = 12288"

definition trim_right :: "runes \<Rightarrow> runes" where
  "trim_right s = rev (dropWhile is_space (rev s))"

definition trim_space :: "runes \<Rightarrow> runes" where
  "trim_space s = trim_right (dropWhile is_space s)"

lemma trim_space_Nil [simp]: "trim_space [] = []"
  by (simp add: trim_space_def trim_right_def)

lemma set_trim_space: "set (trim_space s) \<subseteq> set s"
proof -
  have "set (trim_space s) \<subseteq> set (dropWhile is_space s)"
    unfolding trim_space_def trim_right_def by (metis set_dropWhileD set_rev subsetI)
  also have "\<dots> \<subseteq> set s" by (meson set_dropWhileD subsetI)
  finally show ?thesis .
qed

lemma hd_trim_right: "s \<noteq> [] \<Longrightarrow> \<not> is_space (hd s) \<Longrightarrow> trim_right s \<noteq> [] \<and> hd (trim_right s) = hd s"
proof -
  assume "s \<noteq> []" and h: "\<not> is_space (hd s)"
  then obtain x xs where s: "s = x # xs" by (cases s) auto
  have "dropWhile is_space (rev xs @ [x]) = dropWhile is_space (rev xs) @ [x]"
    using h s by (auto simp: dropWhile_append)
  then show ?thesis using s by (simp add: trim_right_def)
qed

lemma trim_space_hd:
  assumes "trim_space s \<noteq> []"
  shows "\<not> is_space (hd (trim_space s))"
proof -
  let ?d = "dropWhile is_space s"
  have "?d \<noteq> []"
  proof
    assume "?d = []"
    then have "trim_space s = []" by (simp only: trim_space_def trim_right_def) simp
    with assms show False by simp
  qed
  then have "\<not> is_space (hd ?d)" by (rule hd_dropWhile)
  with \<open>?d \<noteq> []\<close> show ?thesis using hd_trim_right [of ?d] by (simp add: trim_space_def)
qed

lemma trim_space_last:
  assumes "trim_space s \<noteq> []"
  shows "\<not> is_space (last (trim_space s))"
proof -
  let ?d = "dropWhile is_space (rev (dropWhile is_space s))"
  have "?d \<noteq> []" using assms by (simp add: trim_space_def trim_right_def)
  then have "\<not> is_space (hd ?d)" by (rule hd_dropWhile)
  then show ?thesis using \<open>?d \<noteq> []\<close> by (simp add: trim_space_def trim_right_def last_rev)
qed

lemma trim_space_id:
  assumes "s \<noteq> [] \<longrightarrow> \<not> is_space (hd s) \<and> \<not> is_space (last s)"
  shows "trim_space s = s"
proof (cases "s = []")
  case False
  with assms have "dropWhile is_space s = s" by (cases s) auto
  moreover from False assms have "dropWhile is_space (rev s) = rev s"
    by (cases "rev s") (auto simp: last_rev [symmetric] simp del: last_rev dest: arg_cong [where f = hd] simp: hd_rev)
  ultimately show ?thesis by (simp add: trim_space_def trim_right_def)
qed simp

lemma trim_space_idem [simp]: "trim_space (trim_space s) = trim_space s"
  by (rule trim_space_id) (auto simp: trim_space_hd trim_space_last)

lemma filter_trim_space:
  assumes "\<And>r. is_space r \<Longrightarrow> \<not> P r"
  shows "filter P (trim_space s) = filter P s"
proof -
  have d: "filter P (dropWhile is_space xs) = filter P xs" for xs
    using assms by (induction xs) auto
  have "filter P (trim_right xs) = filter P xs" for xs
    unfolding trim_right_def by (simp add: rev_filter [symmetric] d)
  then show ?thesis by (simp add: trim_space_def d)
qed

subsection \<open>Splitting and joining (strings.Split, strings.Join with a one-rune separator)\<close>

fun split_on :: "'a \<Rightarrow> 'a list \<Rightarrow> 'a list list" where
  "split_on c [] = [[]]"
| "split_on c (x # xs) =
     (if x = c then [] # split_on c xs
      else (case split_on c xs of [] \<Rightarrow> [[x]] | y # ys \<Rightarrow> (x # y) # ys))"

fun join :: "'a list \<Rightarrow> 'a list list \<Rightarrow> 'a list" where
  "join sep [] = []"
| "join sep [x] = x"
| "join sep (x # y # zs) = x @ sep @ join sep (y # zs)"

lemma split_on_neq_Nil [simp]: "split_on c s \<noteq> []"
  by (induction s) (auto split: list.splits)

lemma split_on_append: "c \<notin> set x \<Longrightarrow> split_on c (x @ c # y) = x # split_on c y"
  by (induction x) auto

lemma split_on_none: "c \<notin> set x \<Longrightarrow> split_on c x = [x]"
  by (induction x) auto

lemma split_on_no_sep: "l \<in> set (split_on c s) \<Longrightarrow> c \<notin> set l"
  by (induction s arbitrary: l) (auto split: list.splits if_splits)

lemma join_split_on: "join [c] (split_on c s) = s"
proof (induction s)
  case (Cons x xs)
  then show ?case
    by (cases "split_on c xs") (auto, (metis append_Cons join.simps list.exhaust)+)
qed simp

lemma split_on_join:
  "ls \<noteq> [] \<Longrightarrow> (\<And>l. l \<in> set ls \<Longrightarrow> c \<notin> set l) \<Longrightarrow> split_on c (join [c] ls) = ls"
  by (induction "[c]" ls rule: join.induct) (auto simp: split_on_append split_on_none)

subsection \<open>Lists\<close>

lemma sum_list_take_le: "(\<And>x. x \<in> set xs \<Longrightarrow> (0::nat) \<le> x) \<Longrightarrow> sum_list (take n xs) \<le> sum_list xs"
  by (metis append_take_drop_id le_add1 sum_list_append)

lemma sorted_wrt_snoc:
  "sorted_wrt R (xs @ [x]) \<longleftrightarrow> sorted_wrt R xs \<and> (\<forall>y\<in>set xs. R y x)"
  by (auto simp: sorted_wrt_append)

lemma sum_fun_upd_dom:
  fixes f :: "'k \<rightharpoonup> int"
  assumes "finite (dom f)"
  shows "(\<Sum>k\<in>dom (f(a \<mapsto> v)). the ((f(a \<mapsto> v)) k))
       = (\<Sum>k\<in>dom f. the (f k)) - (case f a of None \<Rightarrow> 0 | Some w \<Rightarrow> w) + v"
proof -
  have 1: "(\<Sum>k\<in>dom f - {a}. the ((f(a \<mapsto> v)) k)) = (\<Sum>k\<in>dom f - {a}. the (f k))"
    by (rule sum.cong) auto
  have "dom (f(a \<mapsto> v)) = insert a (dom f - {a})" by auto
  then have 2: "(\<Sum>k\<in>dom (f(a \<mapsto> v)). the ((f(a \<mapsto> v)) k)) = v + (\<Sum>k\<in>dom f - {a}. the (f k))"
    using assms 1 by (simp add: sum.insert_remove)
  show ?thesis
  proof (cases "f a")
    case None
    then have "dom f - {a} = dom f" by auto
    with 2 None show ?thesis by simp
  next
    case (Some w)
    then have "(\<Sum>k\<in>dom f. the (f k)) = w + (\<Sum>k\<in>dom f - {a}. the (f k))"
      using assms by (subst sum.remove [of _ a]) auto
    with 2 Some show ?thesis by simp
  qed
qed

lemma sum_fun_del_dom:
  fixes f :: "'k \<rightharpoonup> int"
  assumes "finite (dom f)"
  shows "(\<Sum>k\<in>dom (f(a := None)). the ((f(a := None)) k))
       = (\<Sum>k\<in>dom f. the (f k)) - (case f a of None \<Rightarrow> 0 | Some w \<Rightarrow> w)"
proof -
  have 1: "(\<Sum>k\<in>dom f - {a}. the ((f(a := None)) k)) = (\<Sum>k\<in>dom f - {a}. the (f k))"
    by (rule sum.cong) auto
  show ?thesis
  proof (cases "f a")
    case None
    then have "dom f - {a} = dom f" by auto
    with 1 None show ?thesis by simp
  next
    case (Some w)
    then have "(\<Sum>k\<in>dom f. the (f k)) = w + (\<Sum>k\<in>dom f - {a}. the (f k))"
      using assms by (subst sum.remove [of _ a]) auto
    with 1 Some show ?thesis by simp
  qed
qed

subsection \<open>Decimal numbers (strconv.FormatInt and strconv.ParseInt, base 10)\<close>

definition digit_char :: "nat \<Rightarrow> char" where
  "digit_char d = char_of (48 + d)"

fun digits_of :: "nat \<Rightarrow> string" where
  "digits_of n = (if n < 10 then [digit_char n] else digits_of (n div 10) @ [digit_char (n mod 10)])"

declare digits_of.simps [simp del]

definition is_digit :: "char \<Rightarrow> bool" where
  "is_digit c \<longleftrightarrow> 48 \<le> (of_char c :: nat) \<and> (of_char c :: nat) \<le> 57"

definition digits_value :: "string \<Rightarrow> nat" where
  "digits_value s = foldl (\<lambda>a c. 10 * a + (of_char c - 48)) 0 s"

definition FormatInt :: "int \<Rightarrow> string" where
  "FormatInt i = (if i < 0 then CHR ''-'' # digits_of (nat (- i)) else digits_of (nat i))"

definition ParseInt :: "string \<Rightarrow> int option" where
  "ParseInt s =
     (let neg = (s \<noteq> [] \<and> hd s = CHR ''-'');
          body = (if s \<noteq> [] \<and> (hd s = CHR ''-'' \<or> hd s = CHR ''+'') then tl s else s);
          v = (if neg then - int (digits_value body) else int (digits_value body))
      in if body = [] \<or> \<not> list_all is_digit body then None
         else if v < - (2 ^ 63) \<or> 2 ^ 63 \<le> v then None else Some v)"

lemma digit_char_of: "d < 10 \<Longrightarrow> is_digit (digit_char d) \<and> of_char (digit_char d) - 48 = d"
  by (simp add: is_digit_def digit_char_def)

lemma digits_of_ok: "list_all is_digit (digits_of n) \<and> digits_value (digits_of n) = n \<and> digits_of n \<noteq> []"
proof (induction n rule: digits_of.induct)
  case (1 n)
  show ?case
  proof (cases "n < 10")
    case True
    then show ?thesis by (subst (1 2 3) digits_of.simps) (simp add: digit_char_of digits_value_def)
  next
    case False
    with 1 show ?thesis
      by (subst (1 2 3) digits_of.simps) (simp add: digit_char_of digits_value_def)
  qed
qed

lemma is_digit_sign: "\<not> is_digit (CHR ''-'')" "\<not> is_digit (CHR ''+'')" "\<not> is_digit (CHR '':'')"
    "\<not> is_digit (CHR ''.'')"
  by (simp_all add: is_digit_def)

lemma digits_of_hd: "hd (digits_of n) \<noteq> CHR ''-'' \<and> hd (digits_of n) \<noteq> CHR ''+''"
  using digits_of_ok [of n] is_digit_sign by (cases "digits_of n") auto

lemma ParseInt_FormatInt: "- (2 ^ 63) \<le> i \<Longrightarrow> i < 2 ^ 63 \<Longrightarrow> ParseInt (FormatInt i) = Some i"
  using digits_of_ok [of "nat i"] digits_of_ok [of "nat (- i)"] digits_of_hd [of "nat i"]
  by (simp add: ParseInt_def FormatInt_def Let_def) linarith

lemma FormatInt_notin: "\<not> is_digit c \<Longrightarrow> c \<noteq> CHR ''-'' \<Longrightarrow> c \<notin> set (FormatInt i)"
  using digits_of_ok [of "nat i"] digits_of_ok [of "nat (- i)"]
  by (auto simp: FormatInt_def list_all_iff)

lemma digits_of_inj: "digits_of m = digits_of n \<longleftrightarrow> m = n"
  using digits_of_ok [of m] digits_of_ok [of n] by metis

lemma FormatInt_inj: "FormatInt i = FormatInt j \<longleftrightarrow> i = j"
  using digits_of_hd [of "nat i"] digits_of_hd [of "nat j"]
  by (auto simp: FormatInt_def digits_of_inj split: if_splits) (metis list.sel(1))+

lemma takeWhile_dropWhile_at:
  assumes "c \<notin> set p" "c \<notin> set q" "p @ c # r = q @ c # s"
  shows "p = q \<and> r = s"
  using assms
proof (induction p arbitrary: q)
  case Nil
  then show ?case by (cases q) auto
next
  case (Cons x p)
  then show ?case by (cases q) auto
qed

end
