(* ===== verification/Governor.thy ===== *)
theory Governor
  imports Prelude
begin

section \<open>The CPU governor (internal/pool/governor.go)\<close>

text \<open>
  A weighted semaphore over inference threads. A call of \<open>Acquire\<close> clamps its request,
  then tests the guard of its wait loop under the lock: it takes the slots, gives up because
  its context is done, or goes back to waiting. The concurrent use of the governor is the step
  relation \<open>gov_step\<close> over the governor and the multiset of amounts now held.
\<close>

record governor =
  g_capacity :: int
  g_used :: int

definition NewGovernor :: "int \<Rightarrow> governor" where
  "NewGovernor capacity = \<lparr>g_capacity = (if capacity < 1 then 1 else capacity), g_used = 0\<rparr>"

text \<open>The clamp both \<open>Acquire\<close> and \<open>Release\<close> apply first.\<close>

definition clamp_slots :: "governor \<Rightarrow> int \<Rightarrow> int" where
  "clamp_slots g n =
     (let n = (if n < 1 then 1 else n) in if n > g_capacity g then g_capacity g else n)"

datatype acquire_result = Granted governor | ContextDone | Waits

definition gov_Acquire :: "governor \<Rightarrow> bool \<Rightarrow> int \<Rightarrow> acquire_result" where
  "gov_Acquire g ctx_done n =
     (let n = clamp_slots g n in
      if g_used g + n > g_capacity g then (if ctx_done then ContextDone else Waits)
      else Granted (g\<lparr>g_used := g_used g + n\<rparr>))"

definition gov_Release :: "governor \<Rightarrow> int \<Rightarrow> governor" where
  "gov_Release g n =
     (let n = clamp_slots g n; used = g_used g - n
      in g\<lparr>g_used := (if used < 0 then 0 else used)\<rparr>)"

definition gov_Stats :: "governor \<Rightarrow> int \<times> int" where
  "gov_Stats g = (g_used g, g_capacity g)"

text \<open>
  Every holder releases with the amount it acquired with; the multiset holds those amounts
  as the callers passed them.
\<close>

inductive gov_step :: "governor \<times> int multiset \<Rightarrow> governor \<times> int multiset \<Rightarrow> bool" where
  acquire: "gov_Acquire g ctx_done n = Granted g' \<Longrightarrow> gov_step (g, held) (g', add_mset n held)"
| release: "n \<in># held \<Longrightarrow> gov_step (g, held) (gov_Release g n, held - {#n#})"

inductive gov_reach :: "int \<Rightarrow> governor \<times> int multiset \<Rightarrow> bool" for cap :: int where
  init: "gov_reach cap (NewGovernor cap, {#})"
| step: "gov_reach cap s \<Longrightarrow> gov_step s t \<Longrightarrow> gov_reach cap t"

inductive_cases gov_stepE: "gov_step (g, held) t"

lemma clamp_slots_bounds:
  "1 \<le> g_capacity g \<Longrightarrow> 1 \<le> clamp_slots g n \<and> clamp_slots g n \<le> g_capacity g"
  by (simp add: clamp_slots_def Let_def)

lemma clamp_slots_frame [simp]: "clamp_slots (g\<lparr>g_used := u\<rparr>) = clamp_slots g"
  by (simp add: fun_eq_iff clamp_slots_def)

definition gov_inv :: "governor \<times> int multiset \<Rightarrow> bool" where
  "gov_inv = (\<lambda>(g, held). 1 \<le> g_capacity g \<and> g_used g \<le> g_capacity g
      \<and> g_used g = (\<Sum>n\<in>#held. clamp_slots g n))"

lemma sum_clamp_nonneg: "1 \<le> g_capacity g \<Longrightarrow> 0 \<le> (\<Sum>n\<in>#held. clamp_slots g n)"
proof (induction held)
  case (add n held)
  then show ?case using clamp_slots_bounds [of g n] by simp
qed simp

lemma gov_step_inv: "gov_step s t \<Longrightarrow> gov_inv s \<Longrightarrow> gov_inv t"
proof (induction rule: gov_step.induct)
  case (acquire g ctx_done n g' held)
  then have g': "g' = g\<lparr>g_used := g_used g + clamp_slots g n\<rparr>"
    and "g_used g + clamp_slots g n \<le> g_capacity g"
    by (auto simp: gov_Acquire_def Let_def split: if_splits)
  with acquire.prems show ?case by (simp add: gov_inv_def)
next
  case (release n held g)
  then have "(\<Sum>m\<in>#held. clamp_slots g m) = clamp_slots g n + (\<Sum>m\<in>#held - {#n#}. clamp_slots g m)"
    by (metis image_mset_add_mset insert_DiffM sum_mset.add_mset)
  moreover have "0 \<le> (\<Sum>m\<in>#held - {#n#}. clamp_slots g m)"
    using release.prems by (intro sum_clamp_nonneg) (simp add: gov_inv_def)
  ultimately show ?case
    using release.prems clamp_slots_bounds [of g n] by (simp add: gov_inv_def gov_Release_def Let_def)
qed

lemma gov_reach_inv: "gov_reach cap s \<Longrightarrow> gov_inv s"
proof (induction rule: gov_reach.induct)
  case init
  show ?case by (simp add: gov_inv_def NewGovernor_def)
next
  case (step s t)
  then show ?case by (blast intro: gov_step_inv)
qed

text \<open>C1: at every moment the slots in use are exactly those of the outstanding acquisitions
  (each counted as clamped), and never more than the capacity: parallel requests cannot
  oversubscribe the processor.\<close>

theorem governor_never_oversubscribed:
  assumes "gov_reach cap (g, held)"
  shows "g_used g = (\<Sum>n\<in>#held. clamp_slots g n) \<and> 0 \<le> g_used g \<and> g_used g \<le> g_capacity g"
  using gov_reach_inv [OF assms] sum_clamp_nonneg [of g held] by (simp add: gov_inv_def)

lemma gov_reach_one:
  "gov_reach 4 (\<lparr>g_capacity = 4, g_used = 4\<rparr>, {#9#})"
proof (rule gov_reach.step [OF gov_reach.init])
  have "gov_Acquire (NewGovernor 4) False 9 = Granted \<lparr>g_capacity = 4, g_used = 4\<rparr>"
    by (simp add: gov_Acquire_def NewGovernor_def clamp_slots_def Let_def)
  then show "gov_step (NewGovernor 4, {#}) (\<lparr>g_capacity = 4, g_used = 4\<rparr>, {#9#})"
    by (rule gov_step.acquire)
qed

theorem governor_never_oversubscribed_witness:
  "g_used \<lparr>g_capacity = 4, g_used = (4::int)\<rparr> \<le> g_capacity \<lparr>g_capacity = 4, g_used = (4::int)\<rparr>"
  using governor_never_oversubscribed [OF gov_reach_one] by blast

text \<open>When nothing is held, every request is granted, however large: the clamp makes an
  oversized request run slowly rather than never.\<close>

lemma governor_idle_grants:
  assumes "gov_reach cap (g, {#})"
  shows "gov_Acquire g ctx_done n = Granted (g\<lparr>g_used := clamp_slots g n\<rparr>)"
proof -
  have "gov_inv (g, {#})" using assms by (rule gov_reach_inv)
  then show ?thesis using clamp_slots_bounds [of g n] by (simp add: gov_inv_def gov_Acquire_def Let_def)
qed

text \<open>Releasing what was acquired gives the governor back as it was.\<close>

lemma acquire_release:
  assumes "gov_reach cap (g, held)" "gov_Acquire g ctx_done n = Granted g'"
  shows "gov_Release g' n = g"
proof -
  have "0 \<le> g_used g" using gov_reach_inv [OF assms(1)] sum_clamp_nonneg [of g held] by (simp add: gov_inv_def)
  with assms(2) show ?thesis
    by (auto simp: gov_Acquire_def gov_Release_def Let_def split: if_splits)
qed

end
