(* ===== verification/Core.thy ===== *)
theory Core
  imports Prelude
begin

section \<open>The domain model (internal/core)\<close>

text \<open>
  The error codes and their HTTP statuses (errors.go), the locale resolution shared by the
  file pipeline and the realtime dialect (language.go), and the data every stage passes on
  (types.go): words, segments and the job lifecycle. The human-readable message of an error
  is left out; its code and the offending parameter are kept.
\<close>

subsection \<open>Errors\<close>

datatype code =
    CodeInvalidRequest | CodeUnauthorized | CodeModelForbidden | CodeModelNotFound
  | CodeJobNotFound | CodeIsolationNotFound | CodeIsolationBusy | CodeDictionaryNotFound
  | CodeModelInUse | CodeDictionaryExists | CodeFileTooLarge | CodeDurationExceeded
  | CodeUnsupportedMediaType | CodeCapabilityUnavailable | CodeQueueFull | CodeRateLimited
  | CodeProcessingTimeout | CodeModelUnavailable | CodeDraining | CodeInternal
  | CodeNotImplemented | CodeOther string

text \<open>
  An error value of the code: a domain error (its code and parameter), the two context
  errors, or any other error, which carries no code.
\<close>

datatype gerr = Domain code string | Canceled | DeadlineExceeded | OtherError string

fun HTTPStatus :: "code \<Rightarrow> nat" where
  "HTTPStatus CodeInvalidRequest = 400"
| "HTTPStatus CodeUnauthorized = 401"
| "HTTPStatus CodeModelForbidden = 403"
| "HTTPStatus CodeModelNotFound = 404"
| "HTTPStatus CodeJobNotFound = 404"
| "HTTPStatus CodeDictionaryNotFound = 404"
| "HTTPStatus CodeIsolationNotFound = 404"
| "HTTPStatus CodeDictionaryExists = 409"
| "HTTPStatus CodeIsolationBusy = 409"
| "HTTPStatus CodeModelInUse = 409"
| "HTTPStatus CodeFileTooLarge = 413"
| "HTTPStatus CodeDurationExceeded = 413"
| "HTTPStatus CodeUnsupportedMediaType = 415"
| "HTTPStatus CodeCapabilityUnavailable = 422"
| "HTTPStatus CodeQueueFull = 429"
| "HTTPStatus CodeRateLimited = 429"
| "HTTPStatus CodeProcessingTimeout = 504"
| "HTTPStatus CodeModelUnavailable = 503"
| "HTTPStatus CodeDraining = 503"
| "HTTPStatus CodeNotImplemented = 501"
| "HTTPStatus _ = 500"

definition AsError :: "gerr option \<Rightarrow> (code \<times> string) option" where
  "AsError err = (case err of
       None \<Rightarrow> None
     | Some (Domain c p) \<Rightarrow> Some (c, p)
     | Some _ \<Rightarrow> Some (CodeInternal, []))"

subsection \<open>Locales\<close>

text \<open>
  The parameter \<open>lower\<close> stands for unicode.ToLower, which strings.ToLower applies to
  every rune.
\<close>

definition AutoLanguage :: runes where
  "AutoLanguage = lit ''auto''"

definition canon_tag :: "(rune \<Rightarrow> rune) \<Rightarrow> runes \<Rightarrow> runes" where
  "canon_tag lower s = map (\<lambda>r. lower (if r = 95 then 45 else r)) (trim_space s)"

definition BaseTag :: "(rune \<Rightarrow> rune) \<Rightarrow> runes \<Rightarrow> runes" where
  "BaseTag lower tag =
     (let t = canon_tag lower tag; base = takeWhile (\<lambda>r. r \<noteq> 45) t
      in if base \<noteq> [] \<and> 45 \<in> set t then base else t)"

definition ResolveLocale :: "(rune \<Rightarrow> rune) \<Rightarrow> runes list \<Rightarrow> runes \<Rightarrow> runes option" where
  "ResolveLocale lower locales req =
     (let want = canon_tag lower req in
      if want = [] \<or> want = AutoLanguage then Some AutoLanguage
      else
        let want = (if want = lit ''no'' then lit ''nb'' else want) in
        case find (\<lambda>l. map lower l = want) locales of
          Some l \<Rightarrow> Some l
        | None \<Rightarrow>
            if 45 \<notin> set want then find (\<lambda>l. BaseTag lower l = want) locales else None)"

lemma find_member: "find P xs = Some x \<Longrightarrow> x \<in> set xs \<and> P x"
  by (auto simp: find_Some_iff)

lemma ResolveLocale_member:
  assumes "ResolveLocale lower locales req = Some l"
  shows "l = AutoLanguage \<or> l \<in> set locales"
  using assms
  by (auto simp: ResolveLocale_def Let_def split: if_splits option.splits dest: find_member)

text \<open>A locale as a manifest writes it: no blanks around it, no underscore, not a
  reserved name.\<close>

definition proper_locale :: "(rune \<Rightarrow> rune) \<Rightarrow> runes \<Rightarrow> bool" where
  "proper_locale lower l \<longleftrightarrow> l \<noteq> [] \<and> \<not> is_space (hd l) \<and> \<not> is_space (last l) \<and> 95 \<notin> set l
     \<and> l \<noteq> AutoLanguage \<and> map lower l \<noteq> AutoLanguage \<and> map lower l \<noteq> lit ''no''"

lemma canon_tag_proper: "proper_locale lower l \<Longrightarrow> canon_tag lower l = map lower l"
proof -
  assume p: "proper_locale lower l"
  then have "trim_space l = l" by (intro trim_space_id) (simp add: proper_locale_def)
  with p show ?thesis by (auto simp: canon_tag_def proper_locale_def)
qed

lemma find_refined:
  assumes "find P xs = Some x" "\<And>y. Q y \<Longrightarrow> P y" "Q x"
  shows "find Q xs = Some x"
  using assms by (induction xs) (auto split: if_splits)

lemma BaseTag_proper_eq:
  "proper_locale lower l \<Longrightarrow> proper_locale lower m \<Longrightarrow> map lower l = map lower m \<Longrightarrow>
   BaseTag lower l = BaseTag lower m"
  by (simp add: BaseTag_def canon_tag_proper)

lemma find_cong_set: "(\<And>x. x \<in> set xs \<Longrightarrow> P x = Q x) \<Longrightarrow> find P xs = find Q xs"
  by (induction xs) auto

lemma resolve_exact_stable:
  assumes props: "\<forall>m\<in>set locales. proper_locale lower m"
    and found: "find (\<lambda>m. map lower m = map lower l) locales = Some l"
    and l: "l \<in> set locales"
  shows "ResolveLocale lower locales l = Some l"
  using assms by (auto simp: ResolveLocale_def Let_def canon_tag_proper)
    (auto simp: proper_locale_def)

lemma ResolveLocale_idem:
  assumes props: "\<forall>m\<in>set locales. proper_locale lower m"
    and res: "ResolveLocale lower locales req = Some l" and l: "l \<in> set locales"
  shows "ResolveLocale lower locales l = Some l"
proof (rule resolve_exact_stable [OF props _ l])
  have pl: "proper_locale lower l" using props l by blast
  have nauto: "l \<noteq> AutoLanguage" using pl by (simp add: proper_locale_def)
  consider
      (exact) w where "find (\<lambda>m. map lower m = w) locales = Some l"
    | (base) w where "find (\<lambda>m. BaseTag lower m = w) locales = Some l"
    using res nauto by (simp add: ResolveLocale_def Let_def split: if_splits option.splits)
  then show "find (\<lambda>m. map lower m = map lower l) locales = Some l"
  proof cases
    case exact
    then show ?thesis using find_member [OF exact] by simp
  next
    case base
    have "find (\<lambda>m. m \<in> set locales \<and> BaseTag lower m = w) locales = Some l"
      using base find_cong_set [of locales "\<lambda>m. m \<in> set locales \<and> BaseTag lower m = w"] by simp
    then have "find (\<lambda>m. m \<in> set locales \<and> map lower m = map lower l) locales = Some l"
    proof (rule find_refined)
      fix m
      assume m: "m \<in> set locales \<and> map lower m = map lower l"
      then have "BaseTag lower m = BaseTag lower l" using props l by (intro BaseTag_proper_eq) auto
      then show "m \<in> set locales \<and> BaseTag lower m = w" using m find_member [OF base] by simp
    qed (use l in simp)
    then show ?thesis
      using find_cong_set [of locales "\<lambda>m. m \<in> set locales \<and> map lower m = map lower l"] by simp
  qed
qed

subsection \<open>Words, segments and jobs\<close>

record core_word =
  w_text :: runes
  w_start :: real
  w_end :: real
  w_confidence :: real
  w_original :: runes
  w_speaker :: "runes option"
  w_speaker_conf :: real
  w_channel :: int

record segment =
  s_id :: int
  s_start :: real
  s_end :: real
  s_text :: runes
  s_channel :: int
  s_speaker :: "runes option"
  s_avg_conf :: real
  s_words :: "core_word list"

text \<open>\<open>Result.Words\<close>: every segment's words in one list, in order.\<close>

definition result_words :: "segment list \<Rightarrow> core_word list" where
  "result_words segs = concat (map s_words segs)"

text \<open>Words joined back into a string (words.Text, diarize.wordsText).\<close>

definition words_text   :: "core_word list \<Rightarrow> runes" where
  "words_text ws = join [32] (map w_text ws)"

datatype job_status =
  JobQueued | JobRunning | JobSucceeded | JobFailed | JobCanceled | JobExpired

text \<open>\<open>Terminal\<close> of internal/job/record.go.\<close>

definition Terminal :: "job_status \<Rightarrow> bool" where
  "Terminal s \<longleftrightarrow> s \<in> {JobSucceeded, JobFailed, JobCanceled, JobExpired}"

lemma Terminal_simps [simp]:
  "\<not> Terminal JobQueued" "\<not> Terminal JobRunning" "Terminal JobSucceeded"
  "Terminal JobFailed" "Terminal JobCanceled" "Terminal JobExpired"
  by (simp_all add: Terminal_def)

text \<open>
  A job as a client sees it. The transcript of a finished job is an opaque value \<open>'r\<close>:
  the queue stores and hands it on without looking inside.
\<close>

record 'r job =
  j_id :: string
  j_status :: job_status
  j_position :: nat
  j_stage :: string
  j_percent :: int
  j_model :: string
  j_model_rev :: string
  j_filename :: string
  j_source :: string
  j_created :: int
  j_started :: "int option"
  j_finished :: "int option"
  j_result :: "'r option"
  j_error :: "(code \<times> string) option"

end
