(* ===== verification/Spool.thy ===== *)
theory Spool
  imports Core
begin

section \<open>The audio spool (internal/spool/spool.go)\<close>

text \<open>
  The disk budget of queued audio: the bytes reserved per job, their total, and the spool
  directory, whose content is the set of its file names. Sizes are integers: the code's int64
  totals are far below \<open>2 ^ 63\<close>. What the operating system answers to a removal is the
  parameter \<open>rm_ok\<close>.
\<close>

definition spool_Name :: "string \<Rightarrow> string" where
  "spool_Name jobID = ''job-'' @ jobID @ ''.audio''"

definition spool_JobID :: "string \<Rightarrow> string option" where
  "spool_JobID name =
     (if length name \<le> length ''job-'' + length ''.audio'' then None
      else if take 4 name \<noteq> ''job-'' \<or> drop (length name - 6) name \<noteq> ''.audio'' then None
      else Some (drop 4 (take (length name - 6) name)))"

record spool =
  sp_max :: int
  sp_used :: int
  sp_held :: "string \<rightharpoonup> int"
  sp_files :: "string set"

definition spool_New :: "int \<Rightarrow> string set \<Rightarrow> spool" where
  "spool_New budget files = \<lparr>sp_max = budget, sp_used = 0, sp_held = Map.empty, sp_files = files\<rparr>"

definition spool_Reserve :: "spool \<Rightarrow> string \<Rightarrow> int \<Rightarrow> gerr + spool" where
  "spool_Reserve s jobID n =
     (if sp_held s jobID \<noteq> None then Inl (OtherError ''already holds a reservation'')
      else if sp_max s > 0 \<and> sp_used s + n > sp_max s then Inl (Domain CodeQueueFull [])
      else Inr (s\<lparr>sp_used := sp_used s + n, sp_held := (sp_held s)(jobID \<mapsto> n)\<rparr>))"

definition spool_Release :: "spool \<Rightarrow> string \<Rightarrow> spool" where
  "spool_Release s jobID =
     (case sp_held s jobID of
        None \<Rightarrow> s
      | Some n \<Rightarrow> s\<lparr>sp_used := sp_used s - n, sp_held := (sp_held s)(jobID := None)\<rparr>)"

definition spool_Remove :: "(string \<Rightarrow> bool) \<Rightarrow> spool \<Rightarrow> string \<Rightarrow> spool" where
  "spool_Remove rm_ok s jobID =
     (let s1 = (if rm_ok (spool_Name jobID)
                then s\<lparr>sp_files := sp_files s - {spool_Name jobID}\<rparr> else s)
      in spool_Release s1 jobID)"

text \<open>
  \<open>Sweep\<close> over the directory listing: each entry is its name and whether it is a
  directory. The count is of the files removed. A reservation that fails is only logged.
\<close>

fun sweep_entry ::
  "(string \<Rightarrow> bool) \<Rightarrow> (string \<rightharpoonup> int) \<Rightarrow> spool \<times> nat \<Rightarrow> string \<times> bool \<Rightarrow> spool \<times> nat" where
  "sweep_entry rm_ok live (s, removed) (name, isdir) =
     (if isdir then (s, removed)
      else case spool_JobID name of
        None \<Rightarrow> (s, removed)
      | Some jid \<Rightarrow>
          (case live jid of
             Some sz \<Rightarrow> (case spool_Reserve s jid sz of Inl _ \<Rightarrow> (s, removed) | Inr s' \<Rightarrow> (s', removed))
           | None \<Rightarrow>
               if rm_ok name then (s\<lparr>sp_files := sp_files s - {name}\<rparr>, Suc removed)
               else (s, removed)))"

definition spool_Sweep ::
  "(string \<Rightarrow> bool) \<Rightarrow> (string \<rightharpoonup> int) \<Rightarrow> spool \<Rightarrow> (string \<times> bool) list \<Rightarrow> spool \<times> nat" where
  "spool_Sweep rm_ok live s es = foldl (sweep_entry rm_ok live) (s, 0) es"

text \<open>Where the audio to adopt comes from: nothing, an upload that moves its own storage,
  the job's own file already, or any other source, which is copied.\<close>

datatype audio_src = NoAudio | Detachable | OwnFile | OtherSource

text \<open>\<open>Adopt\<close>: \<open>io\<close> is the error the file operations end with, if any. A copy that
  fails removes what it wrote.\<close>

definition spool_Adopt :: "gerr option \<Rightarrow> spool \<Rightarrow> string \<Rightarrow> audio_src \<Rightarrow> gerr + spool" where
  "spool_Adopt io s jobID src =
     (case src of
        NoAudio \<Rightarrow> Inl (Domain CodeInvalidRequest [])
      | OwnFile \<Rightarrow> Inr s
      | _ \<Rightarrow> (case io of
                Some e \<Rightarrow> Inl e
              | None \<Rightarrow> Inr (s\<lparr>sp_files := insert (spool_Name jobID) (sp_files s)\<rparr>)))"

subsection \<open>File names\<close>

lemma spool_JobID_Name: "jid \<noteq> [] \<Longrightarrow> spool_JobID (spool_Name jid) = Some jid"
  by (cases jid) (auto simp: spool_JobID_def spool_Name_def)

lemma spool_Name_JobID:
  assumes "spool_JobID name = Some jid"
  shows "name = spool_Name jid \<and> jid \<noteq> []"
proof -
  let ?n = "length name"
  have len: "?n > 10" and pre: "take 4 name = ''job-''" and suf: "drop (?n - 6) name = ''.audio''"
    and jid: "jid = drop 4 (take (?n - 6) name)"
    using assms by (auto simp: spool_JobID_def split: if_splits)
  have "name = take (?n - 6) name @ drop (?n - 6) name" by simp
  also have "take (?n - 6) name = take 4 (take (?n - 6) name) @ drop 4 (take (?n - 6) name)"
    by (rule append_take_drop_id [symmetric])
  also have "take 4 (take (?n - 6) name) = take 4 name"
  proof -
    have "min 4 (?n - 6) = 4" using len by linarith
    then show ?thesis by (simp only: take_take)
  qed
  finally have "name = spool_Name jid" using pre suf jid by (simp add: spool_Name_def)
  moreover have "length jid > 0" using len jid by simp
  ultimately show ?thesis by simp
qed

lemma spool_Name_inj: "spool_Name a = spool_Name b \<Longrightarrow> a = b"
  by (simp add: spool_Name_def)

text \<open>The name of a spool file and the id of its job determine each other: a
  restart can pair every queued row with its file, and a name is read as a spool file
  exactly when it is the name of some job's audio.\<close>

theorem spool_name_roundtrip:
  "spool_JobID name = Some jid \<longleftrightarrow> name = spool_Name jid \<and> jid \<noteq> []"
  using spool_JobID_Name spool_Name_JobID by blast

subsection \<open>The budget\<close>

text \<open>
  The contract of a byte budget, which the queue relies on: a reservation is refused for a
  holder that has one or when it does not fit, what is reserved is exactly what is held, and
  releasing is idempotent.
\<close>

locale byte_budget =
  fixes reserve :: "'s \<Rightarrow> 'k \<Rightarrow> int \<Rightarrow> gerr + 's"
    and release :: "'s \<Rightarrow> 'k \<Rightarrow> 's"
    and used :: "'s \<Rightarrow> int"
    and held :: "'s \<Rightarrow> 'k \<rightharpoonup> int"
    and limit :: "'s \<Rightarrow> int"
  assumes reserve_held: "reserve s k n = Inr s' \<Longrightarrow> held s k = None \<and> held s' = (held s)(k \<mapsto> n)"
    and reserve_used: "reserve s k n = Inr s' \<Longrightarrow> used s' = used s + n \<and> limit s' = limit s"
    and reserve_fits: "reserve s k n = Inr s' \<Longrightarrow> limit s > 0 \<Longrightarrow> used s + n \<le> limit s"
    and release_held: "held (release s k) = (held s)(k := None)"
    and release_used: "used (release s k) = used s - (case held s k of None \<Rightarrow> 0 | Some n \<Rightarrow> n)
       \<and> limit (release s k) = limit s"
begin

definition balanced :: "'s \<Rightarrow> bool" where
  "balanced s \<longleftrightarrow> finite (dom (held s)) \<and> used s = (\<Sum>k\<in>dom (held s). the (held s k))
     \<and> (\<forall>k n. held s k = Some n \<longrightarrow> 0 \<le> n) \<and> (limit s > 0 \<longrightarrow> used s \<le> limit s)"

lemma reserve_balanced: "balanced s \<Longrightarrow> reserve s k n = Inr s' \<Longrightarrow> 0 \<le> n \<Longrightarrow> balanced s'"
  using reserve_held [of s k n s'] reserve_used [of s k n s'] reserve_fits [of s k n s']
    sum_fun_upd_dom [of "held s" k n]
  unfolding balanced_def by (auto split: if_splits)

lemma release_balanced:
  assumes "balanced s"
  shows "balanced (release s k)"
proof -
  have "used (release s k) \<le> used s"
    using assms release_used [of s k] by (auto simp: balanced_def split: option.splits)
  then show ?thesis
    using assms release_used [of s k] release_held [of s k] sum_fun_del_dom [of "held s" k]
    by (auto simp: balanced_def split: if_splits)
qed

lemma reserve_release:
  assumes "reserve s k n = Inr s'"
  shows "held (release s' k) = held s \<and> used (release s' k) = used s \<and> limit (release s' k) = limit s"
proof -
  have "(held s)(k := None) = held s" using reserve_held [OF assms] by auto
  then show ?thesis
    using reserve_held [OF assms] reserve_used [OF assms] release_held [of s' k] release_used [of s' k]
    by auto
qed

lemma release_release: "used (release (release s k) k) = used (release s k)"
  using release_used [of "release s k" k] release_held [of s k] by simp

end

interpretation sb: byte_budget spool_Reserve spool_Release sp_used sp_held sp_max
  by unfold_locales (auto simp: spool_Reserve_def spool_Release_def split: if_splits option.splits)

lemma spool_New_balanced: "sb.balanced (spool_New budget files)"
  by (simp add: sb.balanced_def spool_New_def)

lemma sb_balanced_files [simp]: "sb.balanced (s\<lparr>sp_files := fs\<rparr>) = sb.balanced s"
  by (simp add: sb.balanced_def)

lemma spool_Remove_balanced: "sb.balanced s \<Longrightarrow> sb.balanced (spool_Remove rm_ok s k)"
  by (simp add: spool_Remove_def Let_def sb.release_balanced)

lemma spool_Remove_held [simp]: "sp_held (spool_Remove rm_ok s k) = (sp_held s)(k := None)"
  by (auto simp: spool_Remove_def Let_def sb.release_held)

lemma spool_Release_files [simp]: "sp_files (spool_Release s k) = sp_files s"
  by (simp add: spool_Release_def split: option.splits)

lemma spool_Reserve_files: "spool_Reserve s k n = Inr s' \<Longrightarrow> sp_files s' = sp_files s"
  by (auto simp: spool_Reserve_def split: if_splits)

text \<open>Operations on the spool, in any order and from any caller.\<close>

datatype spool_op = OpReserve string int | OpRelease string | OpRemove string

fun spool_exec :: "(string \<Rightarrow> bool) \<Rightarrow> spool \<Rightarrow> spool_op \<Rightarrow> spool" where
  "spool_exec rm_ok s (OpReserve k n) = (case spool_Reserve s k n of Inl _ \<Rightarrow> s | Inr s' \<Rightarrow> s')"
| "spool_exec rm_ok s (OpRelease k) = spool_Release s k"
| "spool_exec rm_ok s (OpRemove k) = spool_Remove rm_ok s k"

fun op_nonneg :: "spool_op \<Rightarrow> bool" where
  "op_nonneg (OpReserve _ n) = (0 \<le> n)"
| "op_nonneg _ = True"

lemma spool_exec_balanced: "sb.balanced s \<Longrightarrow> op_nonneg op \<Longrightarrow> sb.balanced (spool_exec rm_ok s op)"
  by (cases op) (auto simp: sb.release_balanced spool_Remove_balanced split: sum.splits
      intro: sb.reserve_balanced)

text \<open>C2: whatever sequence of reservations, releases and removals runs, in whatever order and
  with whatever repetitions, the bytes counted as used are the sum of the reservations still
  held, never negative, and within the budget where there is one.\<close>

theorem spool_budget_exact:
  fixes rm_ok budget files ops
  assumes "list_all op_nonneg ops"
  defines "s \<equiv> foldl (spool_exec rm_ok) (spool_New budget files) ops"
  shows "sp_used s = (\<Sum>k\<in>dom (sp_held s). the (sp_held s k))
    \<and> 0 \<le> sp_used s \<and> (sp_max s > 0 \<longrightarrow> sp_used s \<le> sp_max s)"
proof -
  have "sb.balanced s0 \<Longrightarrow> sb.balanced (foldl (spool_exec rm_ok) s0 ops)" for s0
    using assms(1) by (induction ops arbitrary: s0) (auto intro: spool_exec_balanced)
  then have b: "sb.balanced s" unfolding s_def using spool_New_balanced by blast
  have "0 \<le> (\<Sum>k\<in>dom (sp_held s). the (sp_held s k))"
    using b by (intro sum_nonneg) (auto simp: sb.balanced_def)
  then show ?thesis using b unfolding sb.balanced_def by metis
qed

theorem spool_budget_exact_witness:
  "sp_used (foldl (spool_exec (\<lambda>_. True)) (spool_New 100 {})
     [OpReserve ''a'' 60, OpReserve ''b'' 60, OpRelease ''a'', OpReserve ''b'' 70, OpRelease ''a'']) = 70"
proof -
  let ?s = "foldl (spool_exec (\<lambda>_. True)) (spool_New 100 {})
     [OpReserve ''a'' 60, OpReserve ''b'' 60, OpRelease ''a'', OpReserve ''b'' 70, OpRelease ''a'']"
  have "sp_used ?s = (\<Sum>k\<in>dom (sp_held ?s). the (sp_held ?s k))"
    by (rule spool_budget_exact [THEN conjunct1]) simp
  also have "\<dots> = 70"
    by (simp add: spool_New_def spool_Reserve_def spool_Release_def)
  finally show ?thesis .
qed

subsection \<open>The startup sweep\<close>

definition orphan :: "(string \<rightharpoonup> int) \<Rightarrow> string \<times> bool \<Rightarrow> bool" where
  "orphan live e \<longleftrightarrow> \<not> snd e \<and> (\<exists>jid. spool_JobID (fst e) = Some jid \<and> live jid = None)"

lemma sweep_entry_files:
  "rm_ok (fst e) \<Longrightarrow> sp_files (fst (sweep_entry rm_ok live st e)) =
     sp_files (fst st) - (if orphan live e then {fst e} else {})"
  by (cases st; cases e)
    (auto simp: orphan_def dest: spool_Reserve_files split: option.splits sum.splits)

lemma sweep_files:
  assumes "\<And>n. rm_ok n"
  shows "sp_files (fst (foldl (sweep_entry rm_ok live) st es)) =
    sp_files (fst st) - fst ` {e \<in> set es. orphan live e}"
proof (induction es arbitrary: st)
  case (Cons e es)
  have "sp_files (fst (sweep_entry rm_ok live st e)) =
      sp_files (fst st) - (if orphan live e then {fst e} else {})"
    by (rule sweep_entry_files) (rule assms)
  then show ?case by (auto simp: Cons.IH)
qed simp

lemma sweep_entry_balanced:
  assumes "sb.balanced (fst st)" "\<And>k n. live k = Some n \<Longrightarrow> 0 \<le> n"
  shows "sb.balanced (fst (sweep_entry rm_ok live st e))"
  using assms sb.reserve_balanced [of "fst st"]
  by (cases st; cases e) (auto split: option.splits sum.splits)

lemma sweep_balanced:
  assumes "sb.balanced (fst st)" "\<And>k n. live k = Some n \<Longrightarrow> 0 \<le> n"
  shows "sb.balanced (fst (foldl (sweep_entry rm_ok live) st es))"
  using assms(1)
proof (induction es arbitrary: st)
  case (Cons e es)
  from Cons.prems have "sb.balanced (fst (sweep_entry rm_ok live st e))"
    using assms(2) by (rule sweep_entry_balanced)
  then show ?case using Cons.IH by simp
qed simp

text \<open>What the sweep holds: nothing is given up, and what is new is a live job's file. A live job whose file
  has an entry gets its reservation, unless the budget has no room for it.\<close>

definition has_entry :: "(string \<times> bool) list \<Rightarrow> string \<Rightarrow> bool" where
  "has_entry es jid \<longleftrightarrow> jid \<noteq> [] \<and> (spool_Name jid, False) \<in> set es"

lemma has_entry_Nil [simp]: "\<not> has_entry [] jid"
  by (simp add: has_entry_def)

lemma has_entry_Cons: "has_entry (e # es) jid \<longleftrightarrow> (\<not> snd e \<and> spool_JobID (fst e) = Some jid) \<or> has_entry es jid"
  by (cases e) (auto simp: has_entry_def spool_JobID_Name dest: spool_Name_JobID)

definition reserves :: "(string \<rightharpoonup> int) \<Rightarrow> (string \<Rightarrow> bool) \<Rightarrow> spool \<Rightarrow> spool \<Rightarrow> bool" where
  "reserves live there s s' \<longleftrightarrow> sp_held s \<subseteq>\<^sub>m sp_held s' \<and> sp_used s \<le> sp_used s' \<and> sp_max s' = sp_max s
    \<and> (\<forall>k n. sp_held s' k = Some n \<longrightarrow> sp_held s k = Some n \<or> live k = Some n \<and> there k)
    \<and> (\<forall>k n. live k = Some n \<and> there k \<and> sp_held s k = None \<longrightarrow>
         sp_held s' k = Some n \<or> 0 < sp_max s \<and> sp_max s < sp_used s' + n)"

lemma sweep_entry_reserves:
  assumes "\<And>k n. live k = Some n \<Longrightarrow> 0 \<le> n"
  shows "reserves live (has_entry [e]) (fst st) (fst (sweep_entry rm_ok live st e))"
  using assms
  by (cases st; cases e)
    (auto simp: reserves_def has_entry_Cons spool_Reserve_def map_le_def split: option.splits sum.splits if_splits)

lemma reserves_trans:
  assumes A: "reserves live (has_entry [e]) s s1" and B: "reserves live (has_entry es) s1 s2"
  shows "reserves live (has_entry (e # es)) s s2"
proof -
  have le: "sp_held s \<subseteq>\<^sub>m sp_held s2" using A B by (auto simp: reserves_def intro: map_le_trans)
  have le2: "sp_held s1 k = Some n \<Longrightarrow> sp_held s2 k = Some n" for k n
    using B by (auto simp: reserves_def map_le_def dom_def)
  have "sp_held s k = Some n \<or> live k = Some n \<and> has_entry (e # es) k" if "sp_held s2 k = Some n" for k n
  proof -
    have "sp_held s1 k = Some n \<or> live k = Some n \<and> has_entry es k" using B that unfolding reserves_def by blast
    then show ?thesis
    proof
      assume "sp_held s1 k = Some n"
      then have "sp_held s k = Some n \<or> live k = Some n \<and> has_entry [e] k" using A unfolding reserves_def by blast
      then show ?thesis by (auto simp: has_entry_Cons [of e])
    qed (auto simp: has_entry_Cons [of e])
  qed
  moreover have "sp_held s2 k = Some n \<or> 0 < sp_max s \<and> sp_max s < sp_used s2 + n"
    if t: "live k = Some n" "has_entry (e # es) k" "sp_held s k = None" for k n
  proof (cases "sp_held s1 k")
    case (Some m)
    then have "live k = Some m" using A t(3) unfolding reserves_def by fastforce
    with Some t(1) le2 show ?thesis by simp
  next
    case None
    show ?thesis
    proof (cases "has_entry es k")
      case True
      then show ?thesis using A B t(1) None unfolding reserves_def by auto
    next
      case False
      then have "has_entry [e] k" using t(2) by (simp add: has_entry_Cons [of e])
      moreover have "live k = Some n \<and> has_entry [e] k \<and> sp_held s k = None \<longrightarrow>
          sp_held s1 k = Some n \<or> 0 < sp_max s \<and> sp_max s < sp_used s1 + n"
        using A unfolding reserves_def by (elim conjE allE)
      ultimately have "0 < sp_max s \<and> sp_max s < sp_used s1 + n" using t(1,3) None by simp
      then show ?thesis using B unfolding reserves_def by linarith
    qed
  qed
  moreover have "sp_used s \<le> sp_used s2 \<and> sp_max s2 = sp_max s" using A B by (simp add: reserves_def)
  ultimately show ?thesis using le unfolding reserves_def by blast
qed

lemma sweep_reserves:
  assumes "\<And>k n. live k = Some n \<Longrightarrow> 0 \<le> n"
  shows "reserves live (has_entry es) (fst st) (fst (foldl (sweep_entry rm_ok live) st es))"
proof (induction es arbitrary: st)
  case (Cons e es)
  show ?case using reserves_trans [OF sweep_entry_reserves [OF assms] Cons.IH] by simp
qed (simp add: reserves_def)

lemma sweep_count:
  assumes "\<And>n. rm_ok n"
  shows "snd (foldl (sweep_entry rm_ok live) st es) = snd st + length (filter (orphan live) es)"
proof (induction es arbitrary: st)
  case (Cons e es)
  have "snd (sweep_entry rm_ok live st e) = snd st + (if orphan live e then 1 else 0)"
    by (cases st; cases e) (auto simp: orphan_def assms split: option.splits sum.splits)
  then show ?case by (simp add: Cons.IH)
qed simp

text \<open>C3: the startup sweep deletes exactly the orphans, counts them, and reserves the space of the live jobs
  again. Where the operating system carries out the removals, the files left are those that were there,
  less the spool files whose job is not live: no file of a live job and no file that is not the spool's is
  ever deleted. Every live job whose file is there holds its reservation afterwards, unless the budget
  has no room for it; nothing else is reserved, no reservation is lost, and the budget stays exact.\<close>

theorem sweep_deletes_exactly_orphans:
  fixes rm_ok live s es
  assumes "\<And>n. rm_ok n" "sb.balanced s" "\<And>k n. live k = Some n \<Longrightarrow> 0 \<le> n"
    and "sp_files s = {n. (n, False) \<in> set es}"
  defines "s' \<equiv> fst (spool_Sweep rm_ok live s es)"
  shows "sp_files s' = {n \<in> sp_files s. \<forall>jid. n = spool_Name jid \<and> jid \<noteq> [] \<longrightarrow> live jid \<noteq> None}
    \<and> snd (spool_Sweep rm_ok live s es) = length (filter (orphan live) es)
    \<and> (\<forall>jid n. live jid = Some n \<and> jid \<noteq> [] \<and> spool_Name jid \<in> sp_files s \<and> sp_held s jid = None \<longrightarrow>
         sp_held s' jid = Some n \<or> 0 < sp_max s \<and> sp_max s < sp_used s' + n)
    \<and> (\<forall>jid n. sp_held s' jid = Some n \<longrightarrow>
         sp_held s jid = Some n \<or> live jid = Some n \<and> jid \<noteq> [] \<and> spool_Name jid \<in> sp_files s)
    \<and> sp_held s \<subseteq>\<^sub>m sp_held s' \<and> sb.balanced s'"
proof -
  have "sb.balanced s'" unfolding s'_def spool_Sweep_def
    by (rule sweep_balanced) (simp_all add: assms(2,3))
  moreover have "sp_files s' = {n \<in> sp_files s. \<forall>jid. n = spool_Name jid \<and> jid \<noteq> [] \<longrightarrow> live jid \<noteq> None}"
  proof -
    have "sp_files s' = sp_files s - fst ` {e \<in> set es. orphan live e}"
      unfolding s'_def spool_Sweep_def by (simp add: sweep_files assms(1))
    also have "\<dots> = {n \<in> sp_files s. \<forall>jid. n = spool_Name jid \<and> jid \<noteq> [] \<longrightarrow> live jid \<noteq> None}"
      by (auto simp: assms(4) orphan_def image_iff spool_JobID_Name dest: spool_Name_JobID)
    finally show ?thesis .
  qed
  moreover have "has_entry es jid \<longleftrightarrow> jid \<noteq> [] \<and> spool_Name jid \<in> sp_files s" for jid
    by (simp add: has_entry_def assms(4))
  ultimately show ?thesis
    using sweep_reserves [of live es "(s, 0)" rm_ok, OF assms(3)] sweep_count [of rm_ok live "(s, 0)" es, OF assms(1)]
    unfolding s'_def spool_Sweep_def reserves_def by simp
qed

theorem sweep_deletes_exactly_orphans_witness:
  "let s' = fst (spool_Sweep (\<lambda>_. True) [''a'' \<mapsto> 5] (spool_New 10 {''job-a.audio'', ''job-b.audio'', ''x.wav''})
      [(''job-a.audio'', False), (''job-b.audio'', False), (''x.wav'', False), (''job-c.audio'', True)]) in
   sp_files s' = {n \<in> {''job-a.audio'', ''job-b.audio'', ''x.wav''}.
        \<forall>jid. n = spool_Name jid \<and> jid \<noteq> [] \<longrightarrow> [''a'' \<mapsto> (5::int)] jid \<noteq> None}
   \<and> (sp_held s' ''a'' = Some 5 \<or> 10 < sp_used s' + 5)"
proof -
  let ?s = "spool_New 10 {''job-a.audio'', ''job-b.audio'', ''x.wav''}"
  let ?es = "[(''job-a.audio'', False), (''job-b.audio'', False), (''x.wav'', False), (''job-c.audio'', True)]"
  have files: "sp_files ?s = {n. (n, False) \<in> set ?es}" by (auto simp: spool_New_def)
  have pos: "\<And>k n. [''a'' \<mapsto> 5] k = Some n \<Longrightarrow> (0::int) \<le> n" by (auto split: if_splits)
  note t = sweep_deletes_exactly_orphans [where rm_ok = "\<lambda>_. True" and live = "[''a'' \<mapsto> 5]", OF TrueI spool_New_balanced pos files]
  have new: "sp_files ?s = {''job-a.audio'', ''job-b.audio'', ''x.wav''}" "sp_held ?s ''a'' = None" "sp_max ?s = 10"
    by (simp_all add: spool_New_def)
  show ?thesis unfolding Let_def
  proof (intro conjI)
    show "sp_files (fst (spool_Sweep (\<lambda>_. True) [''a'' \<mapsto> 5] ?s ?es)) = {n \<in> {''job-a.audio'', ''job-b.audio'', ''x.wav''}.
        \<forall>jid. n = spool_Name jid \<and> jid \<noteq> [] \<longrightarrow> [''a'' \<mapsto> (5::int)] jid \<noteq> None}"
      by (rule t [THEN conjunct1, unfolded new(1)])
    show "sp_held (fst (spool_Sweep (\<lambda>_. True) [''a'' \<mapsto> 5] ?s ?es)) ''a'' = Some 5
        \<or> 10 < sp_used (fst (spool_Sweep (\<lambda>_. True) [''a'' \<mapsto> 5] ?s ?es)) + 5"
      using t [THEN conjunct2, THEN conjunct2, THEN conjunct1, THEN spec [of _ "''a''"], THEN spec [of _ 5]]
      by (simp add: new spool_Name_def)
  qed
qed

end
