(* ===== verification/Hub.thy ===== *)
theory Hub
  imports Core
begin

section \<open>The job event hub (internal/job/hub.go)\<close>

text \<open>
  Fans the transitions of a job out to its subscribers. A topic holds the sequence number, a
  bounded replay ring and the subscribed channels, and lives while its job is active. Channels
  are shared with their readers, so they live in a store of their own, addressed by number;
  sending on a closed channel and closing one twice are run-time panics of the language and set
  \<open>h_panic\<close>. Every operation is one critical section of the hub's mutex, except
  \<open>Stage\<close>, which is two.
\<close>

record 'r event =
  ev_seq :: int
  ev_job :: "'r job"

record 'r chan =
  ch_cap :: nat
  ch_buf :: "'r event list"
  ch_closed :: bool

record 'r topic =
  t_seq :: int
  t_ring :: "'r event list"
  t_last :: "'r job"
  t_subs :: "nat list"

record 'r hub =
  h_topics :: "string \<rightharpoonup> 'r topic"
  h_ring :: nat
  h_chans :: "nat \<Rightarrow> 'r chan"
  h_next :: nat
  h_panic :: bool

definition NewHub :: "int \<Rightarrow> 'r hub" where
  "NewHub ring = \<lparr>h_topics = Map.empty, h_ring = (if ring < 1 then 16 else nat ring),
     h_chans = (\<lambda>_. \<lparr>ch_cap = 0, ch_buf = [], ch_closed = True\<rparr>), h_next = 0, h_panic = False\<rparr>"

text \<open>The delivery loop: a channel with room takes the event, a full one is dropped and
  closed. The result is the channels, the subscribers kept and whether the loop panicked.\<close>

fun deliver :: "'r event \<Rightarrow> (nat \<Rightarrow> 'r chan) \<Rightarrow> nat list \<Rightarrow> (nat \<Rightarrow> 'r chan) \<times> nat list \<times> bool" where
  "deliver ev cs [] = (cs, [], False)"
| "deliver ev cs (c # subs) =
     (if ch_closed (cs c) then (cs, c # subs, True)
      else if length (ch_buf (cs c)) < ch_cap (cs c)
      then (case deliver ev (cs(c := (cs c)\<lparr>ch_buf := ch_buf (cs c) @ [ev]\<rparr>)) subs of
              (cs', kept, p) \<Rightarrow> (cs', c # kept, p))
      else deliver ev (cs(c := (cs c)\<lparr>ch_closed := True\<rparr>)) subs)"

fun close_all :: "(nat \<Rightarrow> 'r chan) \<Rightarrow> nat list \<Rightarrow> (nat \<Rightarrow> 'r chan) \<times> bool" where
  "close_all cs [] = (cs, False)"
| "close_all cs (c # subs) =
     (if ch_closed (cs c) then (cs, True)
      else close_all (cs(c := (cs c)\<lparr>ch_closed := True\<rparr>)) subs)"

text \<open>The ring after an event: its last \<open>n\<close> entries.\<close>

definition push_ring :: "nat \<Rightarrow> 'r event list \<Rightarrow> 'r event \<Rightarrow> 'r event list" where
  "push_ring n ring ev =
     (let r = ring @ [ev] in if length r > n then drop (length r - n) r else r)"

definition publish_topic :: "'r hub \<Rightarrow> 'r topic \<Rightarrow> 'r job \<Rightarrow> 'r hub" where
  "publish_topic h t j =
     (let seq = t_seq t + 1;
          ev = \<lparr>ev_seq = seq, ev_job = j\<rparr>;
          ring = push_ring (h_ring h) (t_ring t) ev
      in case deliver ev (h_chans h) (t_subs t) of (cs, kept, p1) \<Rightarrow>
         if Terminal (j_status j)
         then (case close_all cs kept of (cs', p2) \<Rightarrow>
                 h\<lparr>h_topics := (h_topics h)(j_id j := None), h_chans := cs',
                   h_panic := h_panic h \<or> p1 \<or> p2\<rparr>)
         else h\<lparr>h_topics := (h_topics h)(j_id j \<mapsto>
                  \<lparr>t_seq = seq, t_ring = ring, t_last = j, t_subs = kept\<rparr>),
                h_chans := cs, h_panic := h_panic h \<or> p1\<rparr>)"

definition hub_Publish :: "'r hub \<Rightarrow> 'r job \<Rightarrow> 'r hub" where
  "hub_Publish h j =
     (case h_topics h (j_id j) of
        Some t \<Rightarrow> publish_topic h t j
      | None \<Rightarrow>
          if Terminal (j_status j) then h
          else publish_topic h \<lparr>t_seq = 0, t_ring = [], t_last = j, t_subs = []\<rparr> j)"

text \<open>\<open>Stage\<close> reads the last transition under the lock and publishes the updated copy
  after giving the lock back: two critical sections.\<close>

definition hub_stage_read :: "'r hub \<Rightarrow> string \<Rightarrow> string \<Rightarrow> int \<Rightarrow> 'r job option" where
  "hub_stage_read h jobID stage percent =
     (case h_topics h jobID of
        None \<Rightarrow> None
      | Some t \<Rightarrow>
          if j_status (t_last t) \<noteq> JobRunning then None
          else Some ((t_last t)\<lparr>j_stage := stage, j_percent := percent\<rparr>))"

definition hub_Stage :: "'r hub \<Rightarrow> string \<Rightarrow> string \<Rightarrow> int \<Rightarrow> 'r hub" where
  "hub_Stage h jobID stage percent =
     (case hub_stage_read h jobID stage percent of None \<Rightarrow> h | Some j \<Rightarrow> hub_Publish h j)"

definition hub_Subscribe :: "'r hub \<Rightarrow> string \<Rightarrow> int \<Rightarrow> 'r hub \<times> nat option" where
  "hub_Subscribe h jobID after =
     (case h_topics h jobID of
        None \<Rightarrow> (h, None)
      | Some t \<Rightarrow>
          let ch = h_next h; n = h_ring h + 8;
              replay = take n (filter (\<lambda>ev. \<not> ev_seq ev \<le> after) (t_ring t))
          in (h\<lparr>h_topics := (h_topics h)(jobID \<mapsto> t\<lparr>t_subs := t_subs t @ [ch]\<rparr>),
                h_chans := (h_chans h)(ch := \<lparr>ch_cap = n, ch_buf = replay, ch_closed = False\<rparr>),
                h_next := Suc ch\<rparr>, Some ch))"

definition hub_cancel :: "'r hub \<Rightarrow> string \<Rightarrow> nat \<Rightarrow> 'r hub" where
  "hub_cancel h jobID ch =
     (case h_topics h jobID of
        None \<Rightarrow> h
      | Some t \<Rightarrow>
          if ch \<in> set (t_subs t)
          then h\<lparr>h_topics := (h_topics h)(jobID \<mapsto> t\<lparr>t_subs := remove1 ch (t_subs t)\<rparr>),
                 h_chans := (h_chans h)(ch := (h_chans h ch)\<lparr>ch_closed := True\<rparr>),
                 h_panic := h_panic h \<or> ch_closed (h_chans h ch)\<rparr>
          else h)"

definition hub_Watching :: "'r hub \<Rightarrow> nat" where
  "hub_Watching h = card (dom (h_topics h))"

text \<open>A reader takes the oldest buffered event.\<close>

definition hub_recv :: "'r hub \<Rightarrow> nat \<Rightarrow> 'r hub" where
  "hub_recv h ch =
     h\<lparr>h_chans := (h_chans h)(ch := (h_chans h ch)\<lparr>ch_buf := tl (ch_buf (h_chans h ch))\<rparr>)\<rparr>"

text \<open>\<open>stagePercent\<close>; a stage it does not list reads as 0.\<close>

definition stagePercent :: "string \<Rightarrow> int" where
  "stagePercent stage =
     (case map_of [(''decode'', 10), (''vad'', 25), (''asr'', 40), (''assemble'', 95)] stage of
        None \<Rightarrow> 0 | Some p \<Rightarrow> p)"

text \<open>The observer that turns a pipeline stage into a job event.\<close>

definition StageStarted :: "'r hub \<Rightarrow> string \<Rightarrow> string \<Rightarrow> 'r hub" where
  "StageStarted h jobID stage = hub_Stage h jobID stage (stagePercent stage)"

inductive hub_step :: "'r hub \<Rightarrow> 'r hub \<Rightarrow> bool" where
  publish: "hub_step h (hub_Publish h j)"
| subscribe: "hub_step h (fst (hub_Subscribe h jobID after))"
| cancel: "hub_step h (hub_cancel h jobID ch)"
| recv: "hub_step h (hub_recv h ch)"

inductive hub_reach :: "'r hub \<Rightarrow> bool" where
  init: "hub_reach (NewHub ring)"
| step: "hub_reach h \<Longrightarrow> hub_step h h' \<Longrightarrow> hub_reach h'"

subsection \<open>What the loops do to the channels\<close>

definition deliver1 :: "'r event \<Rightarrow> 'r chan \<Rightarrow> 'r chan" where
  "deliver1 ev c = (if length (ch_buf c) < ch_cap c then c\<lparr>ch_buf := ch_buf c @ [ev]\<rparr>
                    else c\<lparr>ch_closed := True\<rparr>)"

definition has_room :: "'r chan \<Rightarrow> bool" where
  "has_room c \<longleftrightarrow> length (ch_buf c) < ch_cap c"

lemma filter_cong_notin:
  "c \<notin> set subs \<Longrightarrow> filter (\<lambda>x. P ((cs(c := v)) x)) subs = filter (\<lambda>x. P (cs x)) subs"
  by (rule filter_cong) auto

lemma deliver_eq:
  assumes "distinct subs" "\<forall>c\<in>set subs. \<not> ch_closed (cs c)"
  shows "deliver ev cs subs =
    (\<lambda>c. if c \<in> set subs then deliver1 ev (cs c) else cs c, filter (\<lambda>c. has_room (cs c)) subs, False)"
  using assms
proof (induction subs arbitrary: cs)
  case (Cons c subs)
  let ?v = "deliver1 ev (cs c)"
  have IH: "deliver ev (cs(c := ?v)) subs =
    (\<lambda>x. if x \<in> set subs then deliver1 ev ((cs(c := ?v)) x) else (cs(c := ?v)) x,
     filter (\<lambda>x. has_room ((cs(c := ?v)) x)) subs, False)"
    using Cons.prems by (intro Cons.IH) auto
  have eq: "(\<lambda>x. if x \<in> set subs then deliver1 ev ((cs(c := ?v)) x) else (cs(c := ?v)) x) =
    (\<lambda>x. if x \<in> set (c # subs) then deliver1 ev (cs x) else cs x)"
    using Cons.prems by (auto simp: fun_eq_iff)
  have "filter (\<lambda>x. has_room ((cs(c := ?v)) x)) subs = filter (\<lambda>x. has_room (cs x)) subs"
    using Cons.prems by (intro filter_cong_notin) simp
  with IH eq have IH': "deliver ev (cs(c := ?v)) subs =
    (\<lambda>x. if x \<in> set (c # subs) then deliver1 ev (cs x) else cs x,
     filter (\<lambda>x. has_room (cs x)) subs, False)" by (simp only:)
  show ?case
  proof (cases "has_room (cs c)")
    case True
    then have "?v = (cs c)\<lparr>ch_buf := ch_buf (cs c) @ [ev]\<rparr>" by (simp add: deliver1_def has_room_def)
    with IH' True Cons.prems show ?thesis by (simp add: has_room_def)
  next
    case False
    then have "?v = (cs c)\<lparr>ch_closed := True\<rparr>" by (simp add: deliver1_def has_room_def)
    with IH' False Cons.prems show ?thesis by (simp add: has_room_def)
  qed
qed simp

lemma close_all_eq:
  assumes "distinct subs" "\<forall>c\<in>set subs. \<not> ch_closed (cs c)"
  shows "close_all cs subs =
    (\<lambda>c. if c \<in> set subs then (cs c)\<lparr>ch_closed := True\<rparr> else cs c, False)"
  using assms
proof (induction subs arbitrary: cs)
  case (Cons c subs)
  have "close_all (cs(c := (cs c)\<lparr>ch_closed := True\<rparr>)) subs =
    (\<lambda>x. if x \<in> set subs then ((cs(c := (cs c)\<lparr>ch_closed := True\<rparr>)) x)\<lparr>ch_closed := True\<rparr>
         else (cs(c := (cs c)\<lparr>ch_closed := True\<rparr>)) x, False)"
    using Cons.prems by (intro Cons.IH) auto
  then show ?case using Cons.prems by (auto simp: fun_eq_iff)
qed simp

lemma deliver1_simps [simp]:
  "ch_cap (deliver1 ev c) = ch_cap c"
  "has_room c \<Longrightarrow> ch_closed (deliver1 ev c) = ch_closed c"
  "has_room c \<Longrightarrow> ch_buf (deliver1 ev c) = ch_buf c @ [ev]"
  "\<not> has_room c \<Longrightarrow> ch_buf (deliver1 ev c) = ch_buf c"
  by (simp_all add: deliver1_def has_room_def)

subsection \<open>The invariant\<close>

text \<open>The ring holds the last events of the job, numbered without a gap up to the topic's
  sequence number.\<close>

definition ring_ok :: "nat \<Rightarrow> 'r topic \<Rightarrow> bool" where
  "ring_ok n t \<longleftrightarrow> 0 < length (t_ring t) \<and> length (t_ring t) \<le> n
     \<and> (\<forall>i < length (t_ring t). ev_seq (t_ring t ! i) = t_seq t - int (length (t_ring t)) + 1 + int i)
     \<and> ev_job (last (t_ring t)) = t_last t"

definition chan_ok :: "'r chan \<Rightarrow> bool" where
  "chan_ok c \<longleftrightarrow> sorted_wrt (<) (map ev_seq (ch_buf c))"

definition topic_ok :: "'r hub \<Rightarrow> string \<Rightarrow> 'r topic \<Rightarrow> bool" where
  "topic_ok h jid t \<longleftrightarrow> ring_ok (h_ring h) t \<and> distinct (t_subs t)
     \<and> j_id (t_last t) = jid \<and> \<not> Terminal (j_status (t_last t))
     \<and> (\<forall>c\<in>set (t_subs t). c < h_next h \<and> \<not> ch_closed (h_chans h c)
          \<and> (\<forall>ev\<in>set (ch_buf (h_chans h c)). ev_seq ev \<le> t_seq t))"

definition subs_disjoint :: "(string \<rightharpoonup> 'r topic) \<Rightarrow> bool" where
  "subs_disjoint ts \<longleftrightarrow> (\<forall>i j s t. ts i = Some s \<and> ts j = Some t \<and> i \<noteq> j \<longrightarrow>
     set (t_subs s) \<inter> set (t_subs t) = {})"

definition hub_inv :: "'r hub \<Rightarrow> bool" where
  "hub_inv h \<longleftrightarrow> \<not> h_panic h \<and> 1 \<le> h_ring h \<and> (\<forall>c. chan_ok (h_chans h c))
     \<and> (\<forall>jid t. h_topics h jid = Some t \<longrightarrow> topic_ok h jid t)
     \<and> subs_disjoint (h_topics h)"

lemma hub_invD:
  assumes "hub_inv h"
  shows "\<not> h_panic h" "1 \<le> h_ring h" "chan_ok (h_chans h c)"
    "h_topics h jid = Some t \<Longrightarrow> topic_ok h jid t"
    "h_topics h i = Some s \<Longrightarrow> h_topics h j = Some t \<Longrightarrow> i \<noteq> j \<Longrightarrow> set (t_subs s) \<inter> set (t_subs t) = {}"
  using assms unfolding hub_inv_def subs_disjoint_def by blast+

text \<open>Replacing one topic keeps the subscribers apart when the new ones are the old ones or in
  no other topic; so does dropping it.\<close>

lemma subs_disjoint_upd:
  assumes "subs_disjoint ts" "\<And>i s. ts i = Some s \<Longrightarrow> i \<noteq> jid \<Longrightarrow> set (t_subs s) \<inter> set (t_subs t) = {}"
  shows "subs_disjoint (ts(jid \<mapsto> t))"
  unfolding subs_disjoint_def
proof (intro allI impI, elim conjE)
  fix i j s1 s2
  assume "(ts(jid \<mapsto> t)) i = Some s1" "(ts(jid \<mapsto> t)) j = Some s2" "i \<noteq> j"
  then show "set (t_subs s1) \<inter> set (t_subs s2) = {}"
    using assms(1) assms(2) [of i s1] assms(2) [of j s2]
    by (cases "i = jid"; cases "j = jid") (auto simp: subs_disjoint_def Int_commute)
qed

lemma subs_disjoint_del: "subs_disjoint ts \<Longrightarrow> subs_disjoint (ts(jid := None))"
  by (auto simp: subs_disjoint_def)

lemma push_ring_ok:
  fixes j :: "'r job"
  assumes "ring_ok n t \<or> t_ring t = [] \<and> t_seq t = 0" "1 \<le> n"
  defines "ev \<equiv> \<lparr>ev_seq = t_seq t + 1, ev_job = j\<rparr>"
  shows "ring_ok n \<lparr>t_seq = t_seq t + 1, t_ring = push_ring n (t_ring t) ev, t_last = j, t_subs = subs\<rparr>"
proof -
  let ?r = "t_ring t"
  have len: "length (push_ring n ?r ev) = min n (Suc (length ?r))" by (auto simp: push_ring_def Let_def)
  have nth: "ev_seq (push_ring n ?r ev ! i) = t_seq t + 1 - int (min n (Suc (length ?r))) + 1 + int i"
    if "i < min n (Suc (length ?r))" for i
  proof -
    let ?k = "Suc (length ?r) - min n (Suc (length ?r))"
    have "push_ring n ?r ev = drop ?k (?r @ [ev])" by (auto simp: push_ring_def Let_def)
    moreover have "drop ?k (?r @ [ev]) ! i = (?r @ [ev]) ! (?k + i)" by (rule nth_drop) simp
    ultimately have eq: "push_ring n ?r ev ! i = (?r @ [ev]) ! (?k + i)" by (simp only:)
    have seq: "ev_seq ((?r @ [ev]) ! m) = t_seq t + 1 - int (length ?r) + int m" if "m \<le> length ?r" for m
      using assms(1) that by (cases "m = length ?r") (auto simp: nth_append ev_def ring_ok_def)
    have "?k + i \<le> length ?r" using that by linarith
    from seq [OF this] eq show ?thesis by (simp add: of_nat_diff)
  qed
  have "last (push_ring n ?r ev) = ev" using assms(2) by (auto simp: push_ring_def Let_def last_drop)
  then show ?thesis using len nth assms(2) by (simp add: ring_ok_def ev_def)
qed

lemma chan_ok_deliver1:
  "chan_ok c \<Longrightarrow> \<forall>e\<in>set (ch_buf c). ev_seq e < ev_seq ev \<Longrightarrow> chan_ok (deliver1 ev c)"
  by (cases "has_room c") (auto simp: chan_ok_def sorted_wrt_append)

text \<open>Publishing to a topic that is well formed, or fresh, keeps the invariant.\<close>

lemma publish_topic_inv:
  assumes inv: "hub_inv h"
    and t: "h_topics h (j_id j) = Some t \<or>
       h_topics h (j_id j) = None \<and> t = \<lparr>t_seq = 0, t_ring = [], t_last = j, t_subs = []\<rparr>"
  shows "hub_inv (publish_topic h t j)"
proof -
  let ?ev = "\<lparr>ev_seq = t_seq t + 1, ev_job = j\<rparr>"
  let ?cs = "\<lambda>c. if c \<in> set (t_subs t) then deliver1 ?ev (h_chans h c) else h_chans h c"
  let ?kept = "filter (\<lambda>c. has_room (h_chans h c)) (t_subs t)"
  have tok: "topic_ok h (j_id j) t" if "h_topics h (j_id j) = Some t"
    using that hub_invD(4) [OF inv] by blast
  have sub: "distinct (t_subs t)" "\<forall>c\<in>set (t_subs t). \<not> ch_closed (h_chans h c)"
    "\<forall>c\<in>set (t_subs t). c < h_next h \<and> (\<forall>ev\<in>set (ch_buf (h_chans h c)). ev_seq ev \<le> t_seq t)"
    using t tok by (auto simp: topic_ok_def)
  have dl: "deliver ?ev (h_chans h) (t_subs t) = (?cs, ?kept, False)" by (rule deliver_eq) (fact sub)+
  have cl: "close_all ?cs ?kept = (\<lambda>c. if c \<in> set ?kept then (?cs c)\<lparr>ch_closed := True\<rparr> else ?cs c, False)"
    by (rule close_all_eq) (use sub in auto)
  have chans: "chan_ok (?cs c)" for c
    using sub hub_invD(3) [OF inv] by (auto intro!: chan_ok_deliver1)
  have other: "\<forall>c\<in>set (t_subs s). ?cs c = h_chans h c" if "h_topics h i = Some s" "i \<noteq> j_id j" for i s
    using t that hub_invD(5) [OF inv that(1)] by fastforce
  have dj: "subs_disjoint (h_topics h)" using inv by (simp add: hub_inv_def)
  have oth_ok: "topic_ok h i s" if "h_topics h i = Some s" for i s using that hub_invD(4) [OF inv] by blast
  show ?thesis
  proof (cases "Terminal (j_status j)")
    case True
    let ?cs' = "\<lambda>c. if c \<in> set ?kept then (?cs c)\<lparr>ch_closed := True\<rparr> else ?cs c"
    have eq: "h_topics (publish_topic h t j) = (h_topics h)(j_id j := None)"
      "h_chans (publish_topic h t j) = ?cs'" "h_panic (publish_topic h t j) = h_panic h"
      "h_ring (publish_topic h t j) = h_ring h" "h_next (publish_topic h t j) = h_next h"
      using True by (simp_all add: publish_topic_def Let_def dl cl)
    have "chan_ok (?cs' c)" for c
      using chans [of c] by (auto simp: chan_ok_def)
    moreover have "topic_ok (publish_topic h t j) i s" if "h_topics h i = Some s" "i \<noteq> j_id j" for i s
    proof -
      have "\<forall>c\<in>set (t_subs s). ?cs' c = h_chans h c"
        using t that hub_invD(5) [OF inv that(1)] by fastforce
      then show ?thesis using oth_ok [OF that(1)] by (auto simp: topic_ok_def eq)
    qed
    ultimately show ?thesis
      unfolding hub_inv_def eq using hub_invD(1,2) [OF inv] subs_disjoint_del [OF dj] by (auto split: if_splits)
  next
    case False
    let ?t' = "\<lparr>t_seq = t_seq t + 1, t_ring = push_ring (h_ring h) (t_ring t) ?ev, t_last = j, t_subs = ?kept\<rparr>"
    have "ring_ok (h_ring h) ?t'"
      by (rule push_ring_ok) (use t tok hub_invD(2) [OF inv] in \<open>auto simp: topic_ok_def\<close>)
    then have new: "topic_ok (publish_topic h t j) (j_id j) ?t'"
      using sub False by (fastforce simp: topic_ok_def publish_topic_def Let_def dl)
    have old: "topic_ok (publish_topic h t j) i s" if "h_topics h i = Some s" "i \<noteq> j_id j" for i s
      using oth_ok [OF that(1)] other [OF that] False by (auto simp: topic_ok_def publish_topic_def Let_def dl)
    have disj: "set (t_subs s) \<inter> set ?kept = {}" if "h_topics h i = Some s" "i \<noteq> j_id j" for i s
      using t hub_invD(5) [OF inv that(1)] that by fastforce
    have eq: "h_topics (publish_topic h t j) = (h_topics h)(j_id j \<mapsto> ?t')"
      "h_chans (publish_topic h t j) = ?cs" "h_panic (publish_topic h t j) = h_panic h"
      "h_ring (publish_topic h t j) = h_ring h"
      using False by (simp_all add: publish_topic_def Let_def dl)
    have "subs_disjoint ((h_topics h)(j_id j \<mapsto> ?t'))"
      by (rule subs_disjoint_upd [OF dj]) (use disj in simp)
    then show ?thesis unfolding hub_inv_def eq
      using new old chans hub_invD(1,2) [OF inv] by auto
  qed
qed

lemma publish_inv: "hub_inv h \<Longrightarrow> hub_inv (hub_Publish h j)"
  by (auto simp: hub_Publish_def split: option.splits intro: publish_topic_inv)

lemma subscribe_inv:
  assumes inv: "hub_inv h"
  shows "hub_inv (fst (hub_Subscribe h jobID after))"
proof (cases "h_topics h jobID")
  case None
  then show ?thesis using inv by (simp add: hub_Subscribe_def)
next
  case (Some t)
  let ?ch = "h_next h"
  let ?replay = "take (h_ring h + 8) (filter (\<lambda>ev. \<not> ev_seq ev \<le> after) (t_ring t))"
  let ?c = "\<lparr>ch_cap = h_ring h + 8, ch_buf = ?replay, ch_closed = False\<rparr>"
  let ?t' = "t\<lparr>t_subs := t_subs t @ [?ch]\<rparr>"
  have tok: "topic_ok h jobID t" using Some hub_invD(4) [OF inv] by blast
  have ring: "sorted_wrt (<) (map ev_seq (t_ring t))" "\<forall>ev\<in>set (t_ring t). ev_seq ev \<le> t_seq t"
    using tok by (auto simp: topic_ok_def ring_ok_def sorted_wrt_iff_nth_less in_set_conv_nth)
  have replay: "chan_ok ?c"
    using ring(1) by (simp add: chan_ok_def sorted_wrt_take flip: take_map) 
      (simp add: sorted_wrt_map sorted_wrt_filter sorted_wrt_take)
  have fresh: "?ch \<notin> set (t_subs s)" if "h_topics h i = Some s" for i s
    using hub_invD(4) [OF inv that] by (auto simp: topic_ok_def)
  have eq: "fst (hub_Subscribe h jobID after) = h\<lparr>h_topics := (h_topics h)(jobID \<mapsto> ?t'),
      h_chans := (h_chans h)(?ch := ?c), h_next := Suc ?ch\<rparr>"
    using Some by (simp add: hub_Subscribe_def Let_def)
  have "set ?replay \<subseteq> set (t_ring t)" by (auto dest: in_set_takeD)
  then have new: "topic_ok (fst (hub_Subscribe h jobID after)) jobID ?t'"
    using tok fresh [OF Some] ring(2) by (auto simp: topic_ok_def eq ring_ok_def less_SucI)
  have old: "topic_ok (fst (hub_Subscribe h jobID after)) i s" if "h_topics h i = Some s" for i s
    using hub_invD(4) [OF inv that] fresh [OF that] by (auto simp: topic_ok_def eq less_SucI)
  have "subs_disjoint ((h_topics h)(jobID \<mapsto> ?t'))"
  proof (rule subs_disjoint_upd)
    show "subs_disjoint (h_topics h)" using inv by (simp add: hub_inv_def)
    fix i s assume "h_topics h i = Some s" "i \<noteq> jobID"
    then show "set (t_subs s) \<inter> set (t_subs ?t') = {}"
      using hub_invD(5) [OF inv, of i s jobID t] Some fresh by auto
  qed
  then show ?thesis
    unfolding hub_inv_def using new old replay hub_invD(1,2,3) [OF inv] by (auto simp: eq)
qed

lemma hub_inv_chans:
  assumes inv: "hub_inv h" and "\<And>c. ch_closed (f c) = ch_closed (h_chans h c)"
    and "\<And>c. sorted_wrt (<) (map ev_seq (ch_buf (f c)))"
    and "\<And>c. set (ch_buf (f c)) \<subseteq> set (ch_buf (h_chans h c))"
  shows "hub_inv (h\<lparr>h_chans := f\<rparr>)"
proof -
  have "topic_ok (h\<lparr>h_chans := f\<rparr>) jid t" if "h_topics h jid = Some t" for jid t
    using hub_invD(4) [OF inv that] assms(2,4) unfolding topic_ok_def by (simp, blast)
  then show ?thesis using inv assms(3) by (simp add: hub_inv_def chan_ok_def)
qed

lemma tl_set_subset: "x \<in> set (tl xs) \<Longrightarrow> x \<in> set xs"
  by (cases xs) auto

lemma recv_inv:
  assumes "hub_inv h"
  shows "hub_inv (hub_recv h ch)"
  unfolding hub_recv_def
proof (rule hub_inv_chans [OF assms])
  fix c
  have "sorted_wrt (<) (map ev_seq (ch_buf (h_chans h c)))" for c
    using hub_invD(3) [OF assms, of c] by (simp add: chan_ok_def)
  then show "sorted_wrt (<) (map ev_seq (ch_buf (((h_chans h)(ch := (h_chans h ch)
      \<lparr>ch_buf := tl (ch_buf (h_chans h ch))\<rparr>)) c)))"
    by (auto simp: map_tl) (metis sorted_wrt_drop drop_Suc drop_0)
qed (auto simp: tl_set_subset)

lemma cancel_inv:
  assumes inv: "hub_inv h"
  shows "hub_inv (hub_cancel h jobID ch)"
proof (cases "\<exists>t. h_topics h jobID = Some t \<and> ch \<in> set (t_subs t)")
  case False
  then show ?thesis using inv by (auto simp: hub_cancel_def split: option.splits)
next
  case True
  then obtain t where t: "h_topics h jobID = Some t" and ch: "ch \<in> set (t_subs t)" by blast
  have tok: "topic_ok h jobID t" using t hub_invD(4) [OF inv] by blast
  have uniq: "ch \<notin> set (t_subs s)" if "h_topics h i = Some s" "i \<noteq> jobID" for i s
    using hub_invD(5) [OF inv that(1) t that(2)] ch by blast
  let ?t' = "t\<lparr>t_subs := remove1 ch (t_subs t)\<rparr>"
  let ?h' = "hub_cancel h jobID ch"
  have eq: "?h' = h\<lparr>h_topics := (h_topics h)(jobID \<mapsto> ?t'),
      h_chans := (h_chans h)(ch := (h_chans h ch)\<lparr>ch_closed := True\<rparr>), h_panic := False\<rparr>"
    using t ch tok hub_invD(1) [OF inv] by (simp add: hub_cancel_def topic_ok_def)
  have "topic_ok ?h' jobID ?t'" using tok by (auto simp: topic_ok_def eq ring_ok_def)
  moreover have "topic_ok ?h' i s" if "h_topics h i = Some s" "i \<noteq> jobID" for i s
    using hub_invD(4) [OF inv that(1)] uniq [OF that] by (auto simp: topic_ok_def eq)
  moreover have "subs_disjoint ((h_topics h)(jobID \<mapsto> ?t'))"
  proof (rule subs_disjoint_upd)
    show "subs_disjoint (h_topics h)" using inv by (simp add: hub_inv_def)
    fix i s assume "h_topics h i = Some s" "i \<noteq> jobID"
    then show "set (t_subs s) \<inter> set (t_subs ?t') = {}"
      using hub_invD(5) [OF inv, of i s jobID t] t set_remove1_subset [of ch "t_subs t"] by auto
  qed
  ultimately show ?thesis
    unfolding hub_inv_def using hub_invD(2,3) [OF inv] by (auto simp: eq chan_ok_def)
qed

lemmas hub_op_inv = publish_inv subscribe_inv cancel_inv recv_inv

lemma NewHub_inv: "hub_inv (NewHub ring)"
  by (auto simp: hub_inv_def NewHub_def chan_ok_def subs_disjoint_def)

lemma hub_reach_intros:
  "hub_reach (NewHub ring)"
  "hub_reach h \<Longrightarrow> hub_reach (hub_Publish h j)"
  "hub_reach h \<Longrightarrow> hub_reach (fst (hub_Subscribe h jobID after))"
  by (blast intro: hub_reach.intros hub_step.intros)+

lemma hub_reach_inv: "hub_reach h \<Longrightarrow> hub_inv h"
proof (induction rule: hub_reach.induct)
  case (init ring)
  show ?case by (rule NewHub_inv)
next
  case (step h h')
  from step(2) step(3) show ?case by (cases rule: hub_step.cases) (auto intro: hub_op_inv)
qed

subsection \<open>Properties\<close>

text \<open>C4: whatever publications, subscriptions, cancellations and reads interleave, the hub never
  sends on a closed channel and never closes a channel twice (either would crash the server),
  every topic it keeps is of a job that has not ended, with a non-empty replay ring no longer
  than configured, and every subscriber of a live topic has an open channel.\<close>

theorem hub_never_panics:
  assumes "hub_reach h"
  shows "\<not> h_panic h \<and> (\<forall>jid t. h_topics h jid = Some t \<longrightarrow>
     \<not> Terminal (j_status (t_last t)) \<and> t_ring t \<noteq> [] \<and> length (t_ring t) \<le> h_ring h
     \<and> (\<forall>c\<in>set (t_subs t). \<not> ch_closed (h_chans h c)))"
  using hub_reach_inv [OF assms] by (auto simp: hub_inv_def topic_ok_def ring_ok_def)

definition demo_job :: "job_status \<Rightarrow> nat job" where
  "demo_job st = \<lparr>j_id = ''a'', j_status = st, j_position = 0, j_stage = [], j_percent = 0,
     j_model = [], j_model_rev = [], j_filename = [], j_source = ''api'', j_created = 0,
     j_started = None, j_finished = None, j_result = None, j_error = None\<rparr>"

lemma demo_job_simps [simp]: "j_id (demo_job st) = ''a''" "j_status (demo_job st) = st"
  by (simp_all add: demo_job_def)

theorem hub_never_panics_witness:
  "\<not> h_panic (hub_Publish (fst (hub_Subscribe (hub_Publish (NewHub 1) (demo_job JobQueued)) ''a'' 0))
      (demo_job JobCanceled))"
  by (rule hub_never_panics [THEN conjunct1]) (intro hub_reach_intros)

text \<open>C5: a reader always receives the transitions of a job in order and without repetition:
  the events waiting in any channel carry strictly increasing sequence numbers.\<close>

theorem hub_stream_ordered:
  assumes "hub_reach h"
  shows "sorted_wrt (<) (map ev_seq (ch_buf (h_chans h c)))"
  using hub_invD(3) [OF hub_reach_inv [OF assms]] by (simp add: chan_ok_def)

theorem hub_stream_ordered_witness:
  "sorted_wrt (<) (map ev_seq (ch_buf (h_chans
     (hub_Publish (fst (hub_Subscribe (hub_Publish (NewHub 1) (demo_job JobQueued)) ''a'' 0))
       (demo_job JobRunning)) 0)))"
  by (rule hub_stream_ordered) (intro hub_reach_intros)

text \<open>C6: a subscription replays exactly the events of the ring the client has not seen: nothing
  newer than its last event id is skipped (the channel always has room for the whole ring), and
  nothing older is repeated.\<close>

theorem subscribe_replays_unseen:
  assumes "hub_reach h" "h_topics h jid = Some t" "hub_Subscribe h jid after = (h', Some ch)"
  shows "ch_buf (h_chans h' ch) = filter (\<lambda>ev. after < ev_seq ev) (t_ring t)
    \<and> \<not> ch_closed (h_chans h' ch) \<and> length (ch_buf (h_chans h' ch)) + 8 \<le> ch_cap (h_chans h' ch)"
proof -
  let ?f = "filter (\<lambda>ev. \<not> ev_seq ev \<le> after) (t_ring t)"
  have "length (t_ring t) \<le> h_ring h"
    using hub_invD(4) [OF hub_reach_inv [OF assms(1)] assms(2)] by (simp add: topic_ok_def ring_ok_def)
  then have len: "length ?f \<le> h_ring h" using length_filter_le le_trans by blast
  then have "take (h_ring h + 8) ?f = ?f" by simp
  then show ?thesis using assms(2,3) len by (auto simp: hub_Subscribe_def Let_def not_le)
qed

lemma demo_reach: "hub_reach (hub_Publish (NewHub 2) (demo_job JobQueued))"
  by (intro hub_reach_intros)

theorem subscribe_replays_unseen_witness:
  "ch_buf (h_chans (fst (hub_Subscribe (hub_Publish (NewHub 2) (demo_job JobQueued)) ''a'' 0)) 0)
    = [\<lparr>ev_seq = 1, ev_job = demo_job JobQueued\<rparr>]"
proof -
  let ?h = "hub_Publish (NewHub 2) (demo_job JobQueued)"
  let ?t = "\<lparr>t_seq = 1, t_ring = [\<lparr>ev_seq = 1, ev_job = demo_job JobQueued\<rparr>],
     t_last = demo_job JobQueued, t_subs = []\<rparr>"
  have h: "h_topics ?h ''a'' = Some ?t" "h_next ?h = 0"
    by (simp_all add: hub_Publish_def publish_topic_def NewHub_def push_ring_def Let_def)
  then have "hub_Subscribe ?h ''a'' 0 = (fst (hub_Subscribe ?h ''a'' 0), Some 0)"
    by (simp add: hub_Subscribe_def Let_def)
  from subscribe_replays_unseen [OF demo_reach h(1) this] show ?thesis by simp
qed

text \<open>A terminal transition ends the stream. The topic is dropped, every subscriber's channel
  is closed, and each subscriber with room left receives the final event last.\<close>

theorem terminal_publish_closes:
  assumes "hub_reach h" "h_topics h (j_id j) = Some t" "Terminal (j_status j)"
  shows "h_topics (hub_Publish h j) (j_id j) = None \<and>
    (\<forall>c\<in>set (t_subs t). ch_closed (h_chans (hub_Publish h j) c) \<and>
       (has_room (h_chans h c) \<longrightarrow> ch_buf (h_chans (hub_Publish h j) c) =
          ch_buf (h_chans h c) @ [\<lparr>ev_seq = t_seq t + 1, ev_job = j\<rparr>]))"
proof -
  have tok: "topic_ok h (j_id j) t" using hub_invD(4) [OF hub_reach_inv [OF assms(1)] assms(2)] .
  let ?ev = "\<lparr>ev_seq = t_seq t + 1, ev_job = j\<rparr>"
  let ?cs = "\<lambda>c. if c \<in> set (t_subs t) then deliver1 ?ev (h_chans h c) else h_chans h c"
  let ?kept = "filter (\<lambda>c. has_room (h_chans h c)) (t_subs t)"
  have dl: "deliver ?ev (h_chans h) (t_subs t) = (?cs, ?kept, False)"
    by (rule deliver_eq) (use tok in \<open>auto simp: topic_ok_def\<close>)
  have cl: "close_all ?cs ?kept = (\<lambda>c. if c \<in> set ?kept then (?cs c)\<lparr>ch_closed := True\<rparr> else ?cs c, False)"
    by (rule close_all_eq) (use tok in \<open>auto simp: topic_ok_def\<close>)
  show ?thesis using assms(2,3)
    by (auto simp: hub_Publish_def publish_topic_def Let_def dl cl)
      (auto simp: deliver1_def has_room_def)
qed

theorem terminal_publish_closes_witness:
  "h_topics (hub_Publish (hub_Publish (NewHub 2) (demo_job JobQueued)) (demo_job JobCanceled)) ''a'' = None"
proof -
  let ?t = "\<lparr>t_seq = 1, t_ring = [\<lparr>ev_seq = 1, ev_job = demo_job JobQueued\<rparr>],
     t_last = demo_job JobQueued, t_subs = []\<rparr>"
  have "h_topics (hub_Publish (NewHub 2) (demo_job JobQueued)) (j_id (demo_job JobCanceled)) = Some ?t"
    by (simp add: hub_Publish_def publish_topic_def NewHub_def push_ring_def Let_def)
  from terminal_publish_closes [OF demo_reach this] show ?thesis by simp
qed

text \<open>C9: \<open>Stage\<close> reads the job and publishes it in two critical sections. When the job is
  cancelled between the two, the late publication brings the ended job's topic back, as a
  running job that no later transition will close.\<close>

theorem stage_race_revives_topic:
  fixes h :: "'r hub"
  assumes "h_topics h jid = Some t" "j_status (t_last t) = JobRunning" "j_id (t_last t) = jid"
    and "j_id final = jid" "Terminal (j_status final)"
    and "hub_stage_read h jid stage percent = Some j"
  shows "\<exists>t'. h_topics (hub_Publish (hub_Publish h final) j) jid = Some t'
     \<and> t_seq t' = 1 \<and> j_status (t_last t') = JobRunning"
proof -
  have j: "j = (t_last t)\<lparr>j_stage := stage, j_percent := percent\<rparr>"
    using assms by (simp add: hub_stage_read_def)
  have "h_topics (hub_Publish h final) jid = None"
    using assms by (auto simp: hub_Publish_def publish_topic_def Let_def split: prod.splits)
  then show ?thesis using assms(2,3) by (simp add: j hub_Publish_def publish_topic_def Let_def)
qed

theorem stage_race_revives_topic_witness:
  "\<exists>t'. h_topics (hub_Publish (hub_Publish (hub_Publish (NewHub 2) (demo_job JobRunning))
      (demo_job JobCanceled)) ((demo_job JobRunning)\<lparr>j_stage := ''asr'', j_percent := 40\<rparr>)) ''a'' = Some t'
     \<and> t_seq t' = 1 \<and> j_status (t_last t') = JobRunning"
proof -
  let ?t = "\<lparr>t_seq = 1, t_ring = [\<lparr>ev_seq = 1, ev_job = demo_job JobRunning\<rparr>],
     t_last = demo_job JobRunning, t_subs = []\<rparr>"
  let ?h = "hub_Publish (NewHub 2) (demo_job JobRunning)"
  have h: "h_topics ?h ''a'' = Some ?t"
    by (simp add: hub_Publish_def publish_topic_def NewHub_def push_ring_def Let_def)
  then have r: "hub_stage_read ?h ''a'' ''asr'' 40 = Some ((demo_job JobRunning)\<lparr>j_stage := ''asr'', j_percent := 40\<rparr>)"
    by (simp add: hub_stage_read_def)
  show ?thesis
    by (rule stage_race_revives_topic [OF h _ _ _ _ r]) simp_all
qed

end
