(* ===== verification/JobRecord.thy ===== *)
theory JobRecord
  imports Core
begin

section \<open>Requests and job records (internal/core/types.go, internal/job/record.go)\<close>

text \<open>
  A request as it leaves an API dialect, the part of it that survives a restart, and the row
  the queue keeps per job. The audio of a request is opaque, of type \<open>'a\<close>; of it the record
  takes the file name and size, given by the parameter \<open>meta\<close>.
\<close>

record 'a request =
  rq_audio :: "'a option"
  rq_model :: string
  rq_language :: string
  rq_channel_mode :: string
  rq_decoding :: string
  rq_paths :: int
  rq_diarize :: bool
  rq_speakers :: int
  rq_punctuate :: bool
  rq_itn :: bool
  rq_hotwords :: "runes list"
  rq_dicts :: "string list"
  rq_score :: real
  rq_strict :: bool
  rq_source :: string
  rq_api_key :: string
  rq_webhook :: string

record params =
  p_model :: string
  p_language :: string
  p_channel_mode :: string
  p_decoding :: string
  p_paths :: int
  p_diarize :: bool
  p_speakers :: int
  p_punctuate :: bool
  p_itn :: bool
  p_hotwords :: "runes list"
  p_dicts :: "string list"
  p_score :: real
  p_strict :: bool
  p_source :: string
  p_webhook :: string

definition ParamsOf :: "'a request \<Rightarrow> params" where
  "ParamsOf req = \<lparr>p_model = rq_model req, p_language = rq_language req,
     p_channel_mode = rq_channel_mode req, p_decoding = rq_decoding req, p_paths = rq_paths req,
     p_diarize = rq_diarize req, p_speakers = rq_speakers req, p_punctuate = rq_punctuate req,
     p_itn = rq_itn req, p_hotwords = rq_hotwords req, p_dicts = rq_dicts req,
     p_score = rq_score req, p_strict = rq_strict req, p_source = rq_source req,
     p_webhook = rq_webhook req\<rparr>"

definition params_Request :: "params \<Rightarrow> 'a option \<Rightarrow> string \<Rightarrow> 'a request" where
  "params_Request p audio apiKeyID = \<lparr>rq_audio = audio, rq_model = p_model p,
     rq_language = p_language p, rq_channel_mode = p_channel_mode p, rq_decoding = p_decoding p,
     rq_paths = p_paths p, rq_diarize = p_diarize p, rq_speakers = p_speakers p,
     rq_punctuate = p_punctuate p, rq_itn = p_itn p, rq_hotwords = p_hotwords p,
     rq_dicts = p_dicts p, rq_score = p_score p, rq_strict = p_strict p,
     rq_source = p_source p, rq_api_key = apiKeyID, rq_webhook = p_webhook p\<rparr>"

text \<open>Priority: 0 for batch, 10 for interactive.\<close>

record 'r jrec =
  r_job :: "'r job"
  r_params :: params
  r_priority :: int
  r_api_key :: string
  r_audio_bytes :: int
  r_audio_seconds :: real

definition NewRecord ::
  "('a \<Rightarrow> string \<times> int) \<Rightarrow> string \<Rightarrow> 'a request \<Rightarrow> int \<Rightarrow> int \<Rightarrow> 'r jrec" where
  "NewRecord meta jid req priority now =
     (let (filename, bytes) = (case rq_audio req of None \<Rightarrow> ([], 0) | Some a \<Rightarrow> meta a) in
      \<lparr>r_job = \<lparr>j_id = jid, j_status = JobQueued, j_position = 0, j_stage = [], j_percent = 0,
          j_model = rq_model req, j_model_rev = [], j_filename = filename, j_source = rq_source req,
          j_created = now, j_started = None, j_finished = None, j_result = None, j_error = None\<rparr>,
       r_params = ParamsOf req, r_priority = priority, r_api_key = rq_api_key req,
       r_audio_bytes = bytes, r_audio_seconds = 0\<rparr>)"

lemma params_Request_ParamsOf: "params_Request (ParamsOf req) audio (rq_api_key req) = req\<lparr>rq_audio := audio\<rparr>"
  by (simp add: params_Request_def ParamsOf_def)

lemma NewRecord_simps [simp]:
  "j_id (r_job (NewRecord meta jid req pr now)) = jid"
  "j_status (r_job (NewRecord meta jid req pr now)) = JobQueued"
  "r_params (NewRecord meta jid req pr now) = ParamsOf req"
  "r_priority (NewRecord meta jid req pr now) = pr"
  "r_api_key (NewRecord meta jid req pr now) = rq_api_key req"
  "j_created (r_job (NewRecord meta jid req pr now)) = now"
  "r_audio_bytes (NewRecord meta jid req pr now) = (case rq_audio req of None \<Rightarrow> 0 | Some a \<Rightarrow> snd (meta a))"
  "j_filename (r_job (NewRecord meta jid req pr now)) = (case rq_audio req of None \<Rightarrow> [] | Some a \<Rightarrow> fst (meta a))"
  "j_model (r_job (NewRecord meta jid req pr now)) = rq_model req"
  "j_source (r_job (NewRecord meta jid req pr now)) = rq_source req"
  by (auto simp: NewRecord_def Let_def split: prod.splits option.splits)

end
