(* ===== verification/Base64.thy ===== *)
theory Base64
  imports Prelude
begin

section \<open>The unpadded URL alphabet of encoding/base64 (base64.RawURLEncoding)\<close>

text \<open>
  The store's page cursors and the media tickets travel in this encoding. Bytes are characters;
  the decoder skips line breaks, refuses characters outside the alphabet and a group of one, and
  ignores the spare bits of a short last group, as the library's does.
\<close>

definition b64_char :: "nat \<Rightarrow> char" where
  "b64_char v = char_of (if v < 26 then 65 + v else if v < 52 then 71 + v
     else if v < 62 then v - 4 else if v = 62 then 45 else 95 :: nat)"

definition b64_val :: "char \<Rightarrow> nat option" where
  "b64_val ch = (let c = of_char ch :: nat in
     if 65 \<le> c \<and> c \<le> 90 then Some (c - 65) else if 97 \<le> c \<and> c \<le> 122 then Some (c - 71)
     else if 48 \<le> c \<and> c \<le> 57 then Some (c + 4) else if c = 45 then Some 62
     else if c = 95 then Some 63 else None)"

fun b64_groups :: "nat list \<Rightarrow> nat list" where
  "b64_groups [] = []"
| "b64_groups [a] = [a div 4, a mod 4 * 16]"
| "b64_groups [a, b] = [a div 4, a mod 4 * 16 + b div 16, b mod 16 * 4]"
| "b64_groups (a # b # c # bs) =
     [a div 4, a mod 4 * 16 + b div 16, b mod 16 * 4 + c div 64, c mod 64] @ b64_groups bs"

fun b64_ungroup :: "nat list \<Rightarrow> nat list option" where
  "b64_ungroup [] = Some []"
| "b64_ungroup [_] = None"
| "b64_ungroup [p, q] = Some [p * 4 + q div 16]"
| "b64_ungroup [p, q, r] = Some [p * 4 + q div 16, q mod 16 * 16 + r div 4]"
| "b64_ungroup (p # q # r # s # vs) =
     map_option (\<lambda>bs. [p * 4 + q div 16, q mod 16 * 16 + r div 4, r mod 4 * 64 + s] @ bs) (b64_ungroup vs)"

definition b64_encode :: "string \<Rightarrow> string" where
  "b64_encode s = map b64_char (b64_groups (map of_char s))"

fun all_some :: "'a option list \<Rightarrow> 'a list option" where
  "all_some [] = Some []"
| "all_some (None # _) = None"
| "all_some (Some x # xs) = map_option ((#) x) (all_some xs)"

definition b64_decode :: "string \<Rightarrow> string option" where
  "b64_decode s =
     (case all_some (map b64_val (filter (\<lambda>c. c \<noteq> CHR 0x0D \<and> c \<noteq> CHR 0x0A) s)) of
        None \<Rightarrow> None
      | Some vs \<Rightarrow> map_option (map char_of) (b64_ungroup vs))"

lemma of_char_b64: "v < 64 \<Longrightarrow> (of_char (b64_char v) :: nat) =
    (if v < 26 then 65 + v else if v < 52 then 71 + v else if v < 62 then v - 4 else if v = 62 then 45 else 95)"
  by (simp add: b64_char_def)

lemma b64_val_char: "v < 64 \<Longrightarrow> b64_val (b64_char v) = Some v"
  by (simp add: b64_val_def of_char_b64 Let_def) arith

lemma b64_char_no_break: "v < 64 \<Longrightarrow> b64_char v \<noteq> CHR 0x0D \<and> b64_char v \<noteq> CHR 0x0A \<and> b64_char v \<noteq> CHR ''.''"
proof -
  assume v: "v < 64"
  have "(of_char (b64_char v) :: nat) \<notin> {13, 10, 46}" using v by (simp add: of_char_b64) arith
  then show ?thesis by auto
qed

lemma b64_groups_bound: "\<forall>b\<in>set bs. b < 256 \<Longrightarrow> \<forall>v\<in>set (b64_groups bs). v < 64"
  by (induction bs rule: b64_groups.induct) auto

lemma b64_ungroup_groups: "\<forall>b\<in>set bs. b < 256 \<Longrightarrow> b64_ungroup (b64_groups bs) = Some bs"
proof (induction bs rule: b64_groups.induct)
  case (4 a b c bs)
  have "(a mod 4 * 16 + b div 16) div 16 = a mod 4" "(a mod 4 * 16 + b div 16) mod 16 = b div 16"
    "(b mod 16 * 4 + c div 64) div 4 = b mod 16" "(b mod 16 * 4 + c div 64) mod 4 = c div 64"
    using 4(2) by auto
  then show ?case using 4 by simp
qed (auto simp: div_mult2_eq)

lemma all_some_map: "\<forall>x\<in>set xs. f x = Some (g x) \<Longrightarrow> all_some (map f xs) = Some (map g xs)"
  by (induction xs) auto

lemma b64_decode_encode: "b64_decode (b64_encode s) = Some s"
proof -
  let ?v = "b64_groups (map of_char s)"
  have b: "\<forall>b\<in>set (map of_char s). b < (256::nat)" by auto
  have v: "\<forall>v\<in>set ?v. v < 64" using b by (rule b64_groups_bound)
  then have "filter (\<lambda>c. c \<noteq> CHR 0x0D \<and> c \<noteq> CHR 0x0A) (b64_encode s) = b64_encode s"
    using b64_char_no_break by (auto simp: filter_id_conv b64_encode_def)
  moreover have "all_some (map b64_val (b64_encode s)) = Some ?v"
    using all_some_map [of ?v "b64_val \<circ> b64_char" id] v b64_val_char by (auto simp: b64_encode_def)
  ultimately show ?thesis using b64_ungroup_groups [OF b] by (simp add: b64_decode_def comp_def)
qed

lemma b64_encode_no_dot: "CHR ''.'' \<notin> set (b64_encode s)"
proof -
  have "\<forall>v\<in>set (b64_groups (map of_char s)). v < 64" by (rule b64_groups_bound) auto
  then show ?thesis using b64_char_no_break by (auto simp: b64_encode_def dest!: sym [of "CHR ''.''"])
qed

end
