(* ===== verification/JobStore.thy ===== *)
theory JobStore
  imports JobRecord Base64 "HOL-Library.List_Lexorder" "HOL-Library.Char_ord"
begin

section \<open>The SQLite job store (internal/store/sqlite/store.go)\<close>

text \<open>
  The jobs table is the list of its rows, with the statements the store executes given their
  SQL meaning: \<open>id\<close> is the primary key, texts compare by their bytes, and a NULL column is
  \<open>None\<close>. Times are stored in milliseconds (\<open>UnixMilli\<close>) and instants are
  nanoseconds. JSON columns hold the value they encode. Driver failures are not modelled.
\<close>

record 'r row =
  c_id :: string
  c_status :: job_status
  c_priority :: int
  c_model :: string
  c_model_rev :: string
  c_params :: params
  c_source :: string
  c_api_key :: "string option"
  c_filename :: "string option"
  c_bytes :: int
  c_seconds :: real
  c_created :: int
  c_started :: "int option"
  c_finished :: "int option"
  c_error :: "code option"
  c_result :: "'r option"

type_synonym 'r table = "'r row list"

definition UnixMilli :: "int \<Rightarrow> int" where "UnixMilli t = t div 1000000"

definition FromMilli :: "int \<Rightarrow> int" where "FromMilli ms = ms * 1000000"

lemma UnixMilli_FromMilli [simp]: "UnixMilli (FromMilli ms) = ms"
  by (simp add: UnixMilli_def FromMilli_def)

definition nullString :: "string \<Rightarrow> string option" where
  "nullString v = (if v = [] then None else Some v)"

definition of_null :: "string option \<Rightarrow> string" where
  "of_null v = (case v of None \<Rightarrow> [] | Some s \<Rightarrow> s)"

lemma of_null_nullString [simp]: "of_null (nullString s) = s"
  by (simp add: of_null_def nullString_def)

definition insert_row :: "'r jrec \<Rightarrow> 'r row" where
  "insert_row r = (let j = r_job r in
     \<lparr>c_id = j_id j, c_status = j_status j, c_priority = r_priority r, c_model = j_model j,
      c_model_rev = j_model_rev j, c_params = r_params r, c_source = j_source j,
      c_api_key = nullString (r_api_key r), c_filename = nullString (j_filename j),
      c_bytes = r_audio_bytes r, c_seconds = r_audio_seconds r, c_created = UnixMilli (j_created j),
      c_started = None, c_finished = None, c_error = None, c_result = None\<rparr>)"

definition store_Create :: "'r table \<Rightarrow> 'r jrec \<Rightarrow> gerr + 'r table" where
  "store_Create t r =
     (if \<exists>w\<in>set t. c_id w = j_id (r_job r) then Inl (OtherError ''sqlite: create job'')
      else Inr (t @ [insert_row r]))"

definition update_row :: "'r jrec \<Rightarrow> 'r row \<Rightarrow> 'r row" where
  "update_row r w = (let j = r_job r in
     w\<lparr>c_status := j_status j, c_model := j_model j, c_model_rev := j_model_rev j,
       c_seconds := r_audio_seconds r, c_started := map_option UnixMilli (j_started j),
       c_finished := map_option UnixMilli (j_finished j), c_error := map_option fst (j_error j),
       c_result := j_result j\<rparr>)"

definition store_Update :: "'r table \<Rightarrow> 'r jrec \<Rightarrow> gerr + 'r table" where
  "store_Update t r =
     (if \<exists>w\<in>set t. c_id w = j_id (r_job r)
      then Inr (map (\<lambda>w. if c_id w = j_id (r_job r) then update_row r w else w) t)
      else Inl (Domain CodeJobNotFound []))"

definition scanRecord :: "'r row \<Rightarrow> 'r jrec" where
  "scanRecord w =
     \<lparr>r_job = \<lparr>j_id = c_id w, j_status = c_status w, j_position = 0, j_stage = [], j_percent = 0,
        j_model = c_model w, j_model_rev = c_model_rev w, j_filename = of_null (c_filename w),
        j_source = c_source w, j_created = FromMilli (c_created w),
        j_started = map_option FromMilli (c_started w), j_finished = map_option FromMilli (c_finished w),
        j_result = c_result w, j_error = map_option (\<lambda>c. (c, [])) (c_error w)\<rparr>,
      r_params = c_params w, r_priority = c_priority w, r_api_key = of_null (c_api_key w),
      r_audio_bytes = c_bytes w, r_audio_seconds = c_seconds w\<rparr>"

definition scanRecordSummary :: "'r row \<Rightarrow> 'r jrec" where
  "scanRecordSummary w = (let r = scanRecord w in r\<lparr>r_job := (r_job r)\<lparr>j_result := None\<rparr>\<rparr>)"

definition store_Get :: "'r table \<Rightarrow> string \<Rightarrow> gerr + 'r jrec" where
  "store_Get t jid = (case find (\<lambda>w. c_id w = jid) t of
     None \<Rightarrow> Inl (Domain CodeJobNotFound []) | Some w \<Rightarrow> Inr (scanRecord w))"

definition store_Pending :: "'r table \<Rightarrow> 'r jrec list" where
  "store_Pending t =
     map scanRecord (sort_key (\<lambda>w. (c_created w, c_id w)) (filter (\<lambda>w. c_status w = JobQueued) t))"

definition store_FailStale :: "'r table \<Rightarrow> int \<Rightarrow> 'r table \<times> nat" where
  "store_FailStale t now =
     (map (\<lambda>w. if c_status w = JobRunning
                then w\<lparr>c_status := JobFailed, c_error := Some (CodeOther ''server_restart''),
                       c_finished := Some (UnixMilli now)\<rparr> else w) t,
      length (filter (\<lambda>w. c_status w = JobRunning) t))"

definition purgeable :: "int \<Rightarrow> 'r row \<Rightarrow> bool" where
  "purgeable cutoff w \<longleftrightarrow>
     c_status w \<in> {JobSucceeded, JobFailed, JobCanceled, JobExpired}
     \<and> (case c_finished w of None \<Rightarrow> c_created w | Some f \<Rightarrow> f) < cutoff"

definition store_Purge :: "'r table \<Rightarrow> int \<Rightarrow> int \<Rightarrow> 'r table \<times> nat" where
  "store_Purge t now ttl =
     (if ttl \<le> 0 then (t, 0)
      else let cutoff = UnixMilli (now - ttl) in
        (filter (\<lambda>w. \<not> purgeable cutoff w) t, length (filter (purgeable cutoff) t)))"

subsection \<open>The contract the queue relies on\<close>

text \<open>
  What a job store promises (the interface \<open>Store\<close> of internal/job/queue.go): a created
  record is found, an update changes the status and the result of that record and nothing about
  the others, and neither touches the immutable columns.
\<close>

locale job_store =
  fixes create :: "'s \<Rightarrow> 'r jrec \<Rightarrow> gerr + 's"
    and update :: "'s \<Rightarrow> 'r jrec \<Rightarrow> gerr + 's"
    and get :: "'s \<Rightarrow> string \<Rightarrow> gerr + 'r jrec"
  assumes get_id: "get s jid = Inr r \<Longrightarrow> j_id (r_job r) = jid"
    and create_get: "create s r = Inr s' \<Longrightarrow>
      (\<exists>r'. get s' (j_id (r_job r)) = Inr r' \<and> j_status (r_job r') = j_status (r_job r)
         \<and> r_params r' = r_params r \<and> r_api_key r' = r_api_key r)
      \<and> (\<forall>k. k \<noteq> j_id (r_job r) \<longrightarrow> get s' k = get s k)"
    and update_get: "update s r = Inr s' \<Longrightarrow>
      (\<exists>r0 r'. get s (j_id (r_job r)) = Inr r0 \<and> get s' (j_id (r_job r)) = Inr r'
         \<and> j_status (r_job r') = j_status (r_job r) \<and> j_result (r_job r') = j_result (r_job r)
         \<and> r_params r' = r_params r0 \<and> r_api_key r' = r_api_key r0
         \<and> j_created (r_job r') = j_created (r_job r0))
      \<and> (\<forall>k. k \<noteq> j_id (r_job r) \<longrightarrow> get s' k = get s k)"
    and update_total: "get s (j_id (r_job r)) = Inr r0 \<Longrightarrow> \<exists>s'. update s r = Inr s'"
begin

definition status_of :: "'s \<Rightarrow> string \<Rightarrow> job_status option" where
  "status_of s jid = (case get s jid of Inl _ \<Rightarrow> None | Inr r \<Rightarrow> Some (j_status (r_job r)))"

lemma status_of_create:
  "create s r = Inr s' \<Longrightarrow>
   status_of s' = (status_of s)(j_id (r_job r) \<mapsto> j_status (r_job r))"
  using create_get [of s r s'] by (auto simp: status_of_def fun_eq_iff)

lemma status_of_update:
  "update s r = Inr s' \<Longrightarrow>
   status_of s' = (status_of s)(j_id (r_job r) \<mapsto> j_status (r_job r))"
  using update_get [of s r s'] by (auto simp: status_of_def fun_eq_iff)

text \<open>Read, change, write back: the pattern of every transition. It always succeeds on a
  record that is there, changes the status to the one chosen and keeps the owner and the
  parameters.\<close>

lemma read_modify_write:
  assumes "get s jid = Inr r" "j_id (r_job r') = jid"
  shows "\<exists>s'. update s r' = Inr s' \<and> status_of s' = (status_of s)(jid \<mapsto> j_status (r_job r'))
     \<and> (\<exists>r2. get s' jid = Inr r2 \<and> r_api_key r2 = r_api_key r \<and> r_params r2 = r_params r)"
proof -
  obtain s' where u: "update s r' = Inr s'" using update_total [of s r' r] assms by auto
  from update_get [OF u] assms show ?thesis
    using status_of_update [OF u] u by auto
qed

end

lemma find_map_upd:
  assumes "\<And>w. c_id (f w) = c_id w"
  shows "find (\<lambda>w. c_id w = k) (map f t) = map_option f (find (\<lambda>w. c_id w = k) t)"
  using assms by (induction t) auto

lemma update_row_id [simp]: "c_id (update_row r w) = c_id w"
  by (simp add: update_row_def Let_def)

lemma find_append: "find P (xs @ ys) = (case find P xs of None \<Rightarrow> find P ys | Some x \<Rightarrow> Some x)"
  by (induction xs) auto

lemma find_in: "\<exists>w\<in>set t. P w \<Longrightarrow> \<exists>w. find P t = Some w \<and> P w"
  by (induction t) auto

lemma store_Get_id: "store_Get t jid = Inr r \<Longrightarrow> j_id (r_job r) = jid"
  by (auto simp: store_Get_def scanRecord_def split: option.splits dest: find_member)

lemma store_Create_Get:
  assumes "store_Create t r = Inr t'"
  shows "store_Get t' k = (if k = j_id (r_job r) then Inr (scanRecord (insert_row r)) else store_Get t k)"
proof -
  have t': "t' = t @ [insert_row r]" and new: "\<forall>w\<in>set t. c_id w \<noteq> j_id (r_job r)"
    using assms by (auto simp: store_Create_def split: if_splits)
  have "find (\<lambda>w. c_id w = j_id (r_job r)) t = None" using new by (simp add: find_None_iff)
  then show ?thesis
    by (auto simp: store_Get_def t' find_append insert_row_def Let_def split: option.splits)
qed

lemma store_Update_Get:
  assumes "store_Update t r = Inr t'"
  shows "store_Get t' k = (if k = j_id (r_job r)
    then (case find (\<lambda>w. c_id w = k) t of None \<Rightarrow> Inl (Domain CodeJobNotFound [])
          | Some w \<Rightarrow> Inr (scanRecord (update_row r w)))
    else store_Get t k)"
proof -
  let ?f = "\<lambda>w. if c_id w = j_id (r_job r) then update_row r w else w"
  have t': "t' = map ?f t" using assms by (auto simp: store_Update_def split: if_splits)
  have "find (\<lambda>w. c_id w = k) t' = map_option ?f (find (\<lambda>w. c_id w = k) t)"
    unfolding t' by (rule find_map_upd) simp
  then show ?thesis by (auto simp: store_Get_def split: option.splits dest: find_member)
qed

interpretation js: job_store store_Create store_Update store_Get
proof
  fix s :: "'r table" and r :: "'r jrec" and s'
  assume u: "store_Update s r = Inr s'"
  then obtain w where w: "find (\<lambda>w. c_id w = j_id (r_job r)) s = Some w"
    using find_in by (fastforce simp: store_Update_def split: if_splits)
  show "(\<exists>r0 r'. store_Get s (j_id (r_job r)) = Inr r0 \<and> store_Get s' (j_id (r_job r)) = Inr r'
         \<and> j_status (r_job r') = j_status (r_job r) \<and> j_result (r_job r') = j_result (r_job r)
         \<and> r_params r' = r_params r0 \<and> r_api_key r' = r_api_key r0
         \<and> j_created (r_job r') = j_created (r_job r0))
      \<and> (\<forall>k. k \<noteq> j_id (r_job r) \<longrightarrow> store_Get s' k = store_Get s k)"
    using w by (auto simp: store_Update_Get [OF u])
      (auto simp: store_Get_def scanRecord_def update_row_def Let_def)
next
  fix s :: "'r table" and r r0 :: "'r jrec"
  assume "store_Get s (j_id (r_job r)) = Inr r0"
  then show "\<exists>s'. store_Update s r = Inr s'"
    by (auto simp: store_Get_def store_Update_def find_Some_iff split: option.splits)
qed (auto simp: store_Get_id store_Create_Get scanRecord_def insert_row_def Let_def)

text \<open>An instant as the database gives it back, cut to its millisecond.\<close>

definition to_milli :: "int \<Rightarrow> int" where "to_milli t = FromMilli (UnixMilli t)"

text \<open>C8: what the database gives back after a job is created and later updated, column by column: the
  identity, owner, parameters, priority, source, file name, size and creation time are those it was created
  with, whatever the updating copy says; status, model, revision, seconds of audio, start, end, error code
  and result are those of the update, instants cut to the millisecond; position, stage and progress are not
  stored.\<close>

theorem update_keeps_immutable_columns:
  assumes "store_Create t r = Inr t1" "j_id (r_job r2) = j_id (r_job r)" "store_Update t1 r2 = Inr t2"
  shows "store_Get t2 (j_id (r_job r)) = Inr
    \<lparr>r_job = \<lparr>j_id = j_id (r_job r), j_status = j_status (r_job r2), j_position = 0, j_stage = [], j_percent = 0,
       j_model = j_model (r_job r2), j_model_rev = j_model_rev (r_job r2), j_filename = j_filename (r_job r),
       j_source = j_source (r_job r), j_created = to_milli (j_created (r_job r)),
       j_started = map_option to_milli (j_started (r_job r2)), j_finished = map_option to_milli (j_finished (r_job r2)),
       j_result = j_result (r_job r2), j_error = map_option (\<lambda>e. (fst e, [])) (j_error (r_job r2))\<rparr>,
     r_params = r_params r, r_priority = r_priority r, r_api_key = r_api_key r, r_audio_bytes = r_audio_bytes r,
     r_audio_seconds = r_audio_seconds r2\<rparr>"
proof -
  have "\<forall>w\<in>set t. c_id w \<noteq> j_id (r_job r)" and "t1 = t @ [insert_row r]"
    using assms(1) by (auto simp: store_Create_def split: if_splits)
  then have "find (\<lambda>w. c_id w = j_id (r_job r)) t1 = Some (insert_row r)"
    by (auto simp: find_append find_None_iff insert_row_def Let_def split: option.splits dest: find_member)
  then show ?thesis
    using assms(2) by (simp add: store_Update_Get [OF assms(3)])
      (simp add: scanRecord_def update_row_def insert_row_def Let_def option.map_comp comp_def to_milli_def [abs_def])
qed

definition demo_req :: "nat request" where
  "demo_req = params_Request \<lparr>p_model = ''m'', p_language = [], p_channel_mode = [], p_decoding = [],
        p_paths = 0, p_diarize = False, p_speakers = 0, p_punctuate = False, p_itn = False,
        p_hotwords = [], p_dicts = [], p_score = 0, p_strict = False, p_source = ''api'',
        p_webhook = []\<rparr> (Some 1) ''key''"

definition demo_rec :: "string \<Rightarrow> int \<Rightarrow> nat jrec" where
  "demo_rec jid now = NewRecord (\<lambda>a::nat. (''a.wav'', 7)) jid demo_req 0 now"

lemma demo_rec_simps [simp]: "j_id (r_job (demo_rec jid now)) = jid" "j_created (r_job (demo_rec jid now)) = now"
  "j_status (r_job (demo_rec jid now)) = JobQueued" "r_api_key (demo_rec jid now) = ''key''"
  by (simp_all add: demo_rec_def demo_req_def params_Request_def)

theorem update_keeps_immutable_columns_witness:
  "\<exists>g. store_Get (map (update_row ((demo_rec ''a'' 5)\<lparr>r_api_key := ''other'', r_audio_seconds := 3\<rparr>)) [insert_row (demo_rec ''a'' 1500000)]) ''a'' = Inr g
     \<and> r_api_key g = ''key'' \<and> j_created (r_job g) = 1000000 \<and> r_audio_seconds g = 3"
proof -
  let ?r = "demo_rec ''a'' 1500000" and ?r2 = "(demo_rec ''a'' 5)\<lparr>r_api_key := ''other'', r_audio_seconds := 3\<rparr>"
  have 1: "store_Create [] ?r = Inr [insert_row ?r]" by (simp add: store_Create_def)
  have 2: "store_Update [insert_row ?r] ?r2 = Inr (map (update_row ?r2) [insert_row ?r])"
    by (simp add: store_Update_def insert_row_def Let_def)
  have "to_milli 1500000 = 1000000" by (simp add: to_milli_def UnixMilli_def FromMilli_def)
  with update_keeps_immutable_columns [OF 1 _ 2] show ?thesis by simp
qed

text \<open>The row of a job under whatever transitions are written, by whom and in whatever order; a write for
  a job that is not there fails and changes nothing.\<close>

definition store_writes :: "'r table \<Rightarrow> 'r jrec list \<Rightarrow> 'r table" where
  "store_writes = foldl (\<lambda>t r. case store_Update t r of Inl _ \<Rightarrow> t | Inr t' \<Rightarrow> t')"

text \<open>The columns no statement but the INSERT writes.\<close>

definition same_origin :: "'r jrec \<Rightarrow> 'r jrec \<Rightarrow> bool" where
  "same_origin g h \<longleftrightarrow> j_id (r_job g) = j_id (r_job h) \<and> r_params g = r_params h \<and> r_api_key g = r_api_key h
     \<and> r_priority g = r_priority h \<and> r_audio_bytes g = r_audio_bytes h \<and> j_filename (r_job g) = j_filename (r_job h)
     \<and> j_source (r_job g) = j_source (r_job h) \<and> j_created (r_job g) = j_created (r_job h)"

lemma same_origin_trans: "same_origin f g \<Longrightarrow> same_origin g h \<Longrightarrow> same_origin f h"
  by (simp add: same_origin_def)

lemma same_origin_refl [simp]: "same_origin g g"
  by (simp add: same_origin_def)

lemma store_Update_origin:
  assumes "store_Get t k = Inr g" "store_Update t r = Inr t'"
  shows "\<exists>h. store_Get t' k = Inr h \<and> same_origin h g"
  using assms(1) unfolding store_Update_Get [OF assms(2)]
  by (auto simp: store_Get_def same_origin_def scanRecord_def update_row_def Let_def split: option.splits)

lemma store_writes_origin: "store_Get t k = Inr g \<Longrightarrow> \<exists>h. store_Get (store_writes t rs) k = Inr h \<and> same_origin h g"
proof (induction rs arbitrary: t g)
  case (Cons r rs)
  show ?case
  proof (cases "store_Update t r")
    case (Inl e)
    then show ?thesis using Cons.IH [OF Cons.prems] by (simp add: store_writes_def)
  next
    case (Inr t')
    from store_Update_origin [OF Cons.prems Inr] obtain h where h: "store_Get t' k = Inr h" "same_origin h g" by blast
    from Cons.IH [OF h(1)] h(2) Inr show ?thesis by (auto simp: store_writes_def intro: same_origin_trans)
  qed
qed (simp add: store_writes_def)

lemma store_FailStale_origin: "store_Get t k = Inr g \<Longrightarrow> \<exists>h. store_Get (fst (store_FailStale t now)) k = Inr h \<and> same_origin h g"
  by (auto simp: store_Get_def store_FailStale_def find_map_upd same_origin_def scanRecord_def split: option.splits)

text \<open>C7: nothing a request asked for is lost across a restart. Whatever transitions are written after the job
  is stored, and once the restart has failed the jobs that were running, the record found under its id
  rebuilds the accepted request around the reopened audio, and has the priority, the file name and the
  size of the audio it was accepted with.\<close>

theorem request_survives_restart:
  assumes "store_Create t (NewRecord meta jid req prio now) = Inr t1"
  shows "\<exists>g. store_Get (fst (store_FailStale (store_writes t1 rs) later)) jid = Inr g
    \<and> (\<forall>audio. params_Request (r_params g) audio (r_api_key g) = req\<lparr>rq_audio := audio\<rparr>)
    \<and> r_priority g = prio \<and> j_source (r_job g) = rq_source req \<and> j_created (r_job g) = to_milli now
    \<and> (j_filename (r_job g), r_audio_bytes g) = (case rq_audio req of None \<Rightarrow> ([], 0) | Some a \<Rightarrow> meta a)"
proof -
  let ?r = "NewRecord meta jid req prio now"
  have get: "store_Get t1 jid = Inr (scanRecord (insert_row ?r))" using store_Create_Get [OF assms, of jid] by simp
  have row: "r_params (scanRecord (insert_row ?r)) = ParamsOf req" "r_api_key (scanRecord (insert_row ?r)) = rq_api_key req"
      "r_priority (scanRecord (insert_row ?r)) = prio" "j_source (r_job (scanRecord (insert_row ?r))) = rq_source req"
      "j_created (r_job (scanRecord (insert_row ?r))) = to_milli now"
      "(j_filename (r_job (scanRecord (insert_row ?r))), r_audio_bytes (scanRecord (insert_row ?r)))
        = (case rq_audio req of None \<Rightarrow> ([], 0) | Some a \<Rightarrow> meta a)"
    by (simp_all add: scanRecord_def insert_row_def Let_def to_milli_def split: option.splits)
  from store_writes_origin [OF get] obtain h where h: "store_Get (store_writes t1 rs) jid = Inr h"
    "same_origin h (scanRecord (insert_row ?r))" by blast
  from store_FailStale_origin [OF h(1)] obtain g where "store_Get (fst (store_FailStale (store_writes t1 rs) later)) jid = Inr g"
    "same_origin g h" by blast
  moreover have "same_origin g (scanRecord (insert_row ?r))" using calculation(2) h(2) by (rule same_origin_trans)
  then have "r_params g = ParamsOf req" "r_api_key g = rq_api_key req" "r_priority g = prio" "j_source (r_job g) = rq_source req"
      "j_created (r_job g) = to_milli now"
      "(j_filename (r_job g), r_audio_bytes g) = (case rq_audio req of None \<Rightarrow> ([], 0) | Some a \<Rightarrow> meta a)"
    unfolding same_origin_def using row by simp_all
  ultimately show ?thesis by (simp add: params_Request_ParamsOf)
qed

theorem request_survives_restart_witness:
  "\<exists>g. store_Get (fst (store_FailStale (store_writes [insert_row (demo_rec ''a'' 1500000)]
        [(demo_rec ''a'' 5)\<lparr>r_api_key := ''other''\<rparr>, demo_rec ''b'' 6]) 9)) ''a'' = Inr g
     \<and> r_api_key g = ''key'' \<and> p_model (r_params g) = ''m''"
proof -
  have "store_Create [] (NewRecord (\<lambda>a::nat. (''a.wav'', 7)) ''a'' demo_req 0 1500000) = Inr [insert_row (demo_rec ''a'' 1500000)]"
    by (simp add: store_Create_def demo_rec_def)
  from request_survives_restart [OF this, of "[(demo_rec ''a'' 5)\<lparr>r_api_key := ''other''\<rparr>, demo_rec ''b'' 6]" 9]
  obtain g where g: "store_Get (fst (store_FailStale (store_writes [insert_row (demo_rec ''a'' 1500000)]
        [(demo_rec ''a'' 5)\<lparr>r_api_key := ''other''\<rparr>, demo_rec ''b'' 6]) 9)) ''a'' = Inr g"
    "params_Request (r_params g) (Some (1::nat)) (r_api_key g) = demo_req\<lparr>rq_audio := Some 1\<rparr>"
    by blast
  from arg_cong [OF g(2), of rq_api_key] arg_cong [OF g(2), of rq_model] show ?thesis
    using g(1) by (auto simp: params_Request_def demo_req_def)
qed

text \<open>C9: after a crash, \<open>FailStale\<close> leaves no job running, counts those it failed, and
  touches no other job; in particular the queued ones are still resumable.\<close>

theorem fail_stale_spares_queued:
  "let (t', n) = store_FailStale t now in
     (\<forall>k. js.status_of t' k = (case js.status_of t k of Some JobRunning \<Rightarrow> Some JobFailed | s \<Rightarrow> s))
     \<and> store_Pending t' = store_Pending t \<and> n = length (filter (\<lambda>w. c_status w = JobRunning) t)"
proof -
  let ?f = "\<lambda>w :: 'a row. if c_status w = JobRunning
    then w\<lparr>c_status := JobFailed, c_error := Some (CodeOther ''server_restart''),
           c_finished := Some (UnixMilli now)\<rparr> else w"
  have "find (\<lambda>w. c_id w = k) (map ?f t) = map_option ?f (find (\<lambda>w. c_id w = k) t)" for k
    by (rule find_map_upd) simp
  then have "js.status_of (map ?f t) k =
      (case js.status_of t k of Some JobRunning \<Rightarrow> Some JobFailed | s \<Rightarrow> s)" for k
    by (auto simp: js.status_of_def store_Get_def scanRecord_def split: option.splits job_status.splits)
  moreover have "filter (\<lambda>w. c_status w = JobQueued) (map ?f t) = filter (\<lambda>w. c_status w = JobQueued) t"
    by (induction t) auto
  ultimately show ?thesis by (simp add: store_FailStale_def store_Pending_def)
qed

subsection \<open>The history listing and its cursor\<close>

record job_filter =
  f_status :: "job_status list"
  f_model :: string
  f_source :: string
  f_since :: "int option"
  f_limit :: int
  f_cursor :: string
  f_key :: string
  f_admin :: bool
  f_omit :: bool

definition encodeCursor :: "'r job \<Rightarrow> string" where
  "encodeCursor j = b64_encode (FormatInt (UnixMilli (j_created j)) @ CHR '':'' # j_id j)"

definition decodeCursor :: "string \<Rightarrow> gerr + (int \<times> string)" where
  "decodeCursor cursor =
     (let invalid = Domain CodeInvalidRequest ''cursor'' in
      case b64_decode cursor of
        None \<Rightarrow> Inl invalid
      | Some raw \<Rightarrow>
          let createdAt = takeWhile (\<lambda>c. c \<noteq> CHR '':'') raw; rest = drop (length createdAt) raw in
          if rest = [] \<or> tl rest = [] then Inl invalid
          else (case ParseInt createdAt of None \<Rightarrow> Inl invalid | Some ms \<Rightarrow> Inr (ms, tl rest)))"

text \<open>The WHERE clause without the cursor.\<close>

definition row_matches :: "job_filter \<Rightarrow> 'r row \<Rightarrow> bool" where
  "row_matches f w \<longleftrightarrow> (f_admin f \<or> c_api_key w = nullString (f_key f))
     \<and> (f_status f = [] \<or> c_status w \<in> set (f_status f))
     \<and> (f_model f = [] \<or> c_model w = f_model f)
     \<and> (f_source f = [] \<or> c_source w = f_source f)
     \<and> (case f_since f of None \<Rightarrow> True | Some s \<Rightarrow> UnixMilli s \<le> c_created w)"

definition row_key :: "'r row \<Rightarrow> int \<times> string" where
  "row_key w = (c_created w, c_id w)"

definition page_limit :: "int \<Rightarrow> nat" where
  "page_limit n = nat (let l = (if n \<le> 0 then 50 else n) in if l > 200 then 200 else l)"

definition list_page :: "'r table \<Rightarrow> job_filter \<Rightarrow> (int \<times> string) option \<Rightarrow> 'r job list \<times> string" where
  "list_page t f cur =
     (let limit = page_limit (f_limit f);
          after = (\<lambda>w. case cur of None \<Rightarrow> True
             | Some (ca, i) \<Rightarrow> c_created w < ca \<or> (c_created w = ca \<and> c_id w < i));
          rows = take (limit + 1)
            (rev (sort_key row_key (filter (\<lambda>w. row_matches f w \<and> after w) t)));
          scan = (if f_omit f then scanRecordSummary else scanRecord);
          out = map (\<lambda>w. r_job (scan w)) (take limit rows)
      in (out, if length rows > limit then encodeCursor (last out) else []))"

definition store_List :: "'r table \<Rightarrow> job_filter \<Rightarrow> gerr + ('r job list \<times> string)" where
  "store_List t f =
     (if f_cursor f = [] then Inr (list_page t f None)
      else case decodeCursor (f_cursor f) of
        Inl e \<Rightarrow> Inl e | Inr cur \<Rightarrow> Inr (list_page t f (Some cur)))"

text \<open>A client following the cursors, with a bound on the number of requests.\<close>

fun list_pages :: "nat \<Rightarrow> 'r table \<Rightarrow> job_filter \<Rightarrow> 'r job list option" where
  "list_pages 0 t f = None"
| "list_pages (Suc n) t f =
     (case store_List t f of
        Inl _ \<Rightarrow> None
      | Inr (out, next) \<Rightarrow>
          if next = [] then Some out
          else map_option ((@) out) (list_pages n t (f\<lparr>f_cursor := next\<rparr>)))"

lemma decode_encode_cursor:
  assumes "j_id j \<noteq> []" "\<bar>UnixMilli (j_created j)\<bar> < 2 ^ 63"
  shows "decodeCursor (encodeCursor j) = Inr (UnixMilli (j_created j), j_id j)"
proof -
  let ?n = "FormatInt (UnixMilli (j_created j))"
  have "takeWhile (\<lambda>c. c \<noteq> CHR '':'') (?n @ CHR '':'' # j_id j) = ?n"
    using FormatInt_notin [of "CHR '':''"] is_digit_sign by (subst takeWhile_append2) auto
  moreover have "ParseInt ?n = Some (UnixMilli (j_created j))"
    using assms(2) by (intro ParseInt_FormatInt) auto
  ultimately show ?thesis
    using assms(1) by (simp add: decodeCursor_def encodeCursor_def b64_decode_encode Let_def)
qed

lemma encodeCursor_neq_Nil: "encodeCursor j \<noteq> []"
  using b64_decode_encode [of "FormatInt (UnixMilli (j_created j)) @ CHR '':'' # j_id j"]
  by (auto simp: encodeCursor_def b64_decode_def)

text \<open>The rows a filter selects, newest first; with distinct ids their keys strictly fall.\<close>

definition listed :: "'r table \<Rightarrow> job_filter \<Rightarrow> 'r row list" where
  "listed t f = rev (sort_key row_key (filter (row_matches f) t))"

lemma listed_strict:
  assumes "distinct (map c_id t)"
  shows "sorted_wrt (\<lambda>a b. row_key b < row_key a) (listed t f)"
proof -
  let ?s = "sort_key row_key (filter (row_matches f) t)"
  have "distinct (map c_id (filter (row_matches f) t))" using assms by (rule distinct_map_filter)
  then have "inj_on c_id (set (filter (row_matches f) t))" "distinct (filter (row_matches f) t)"
    by (simp_all add: distinct_map)
  then have "distinct (map row_key ?s)"
    by (auto simp: distinct_map inj_on_def row_key_def)
  moreover have "sorted (map row_key ?s)" by simp
  ultimately have "sorted_wrt (<) (map row_key ?s)" by (simp add: strict_sorted_iff)
  then show ?thesis by (simp add: listed_def sorted_wrt_rev sorted_wrt_map)
qed

lemma filter_after:
  assumes "sorted_wrt (\<lambda>a b. row_key b < row_key a) (xs @ p # ys)"
  shows "filter (\<lambda>w. row_key w < row_key p) (xs @ p # ys) = ys"
proof -
  have "filter (\<lambda>w. row_key w < row_key p) xs = []"
    using assms by (auto simp: sorted_wrt_append filter_empty_conv)
  moreover have "filter (\<lambda>w. row_key w < row_key p) ys = ys"
    using assms by (auto simp: sorted_wrt_append filter_id_conv)
  ultimately show ?thesis by simp
qed

definition scan_of :: "job_filter \<Rightarrow> 'r row \<Rightarrow> 'r job" where
  "scan_of f w = r_job ((if f_omit f then scanRecordSummary else scanRecord) w)"

lemma scan_of_key [simp]: "j_id (scan_of f w) = c_id w" "UnixMilli (j_created (scan_of f w)) = c_created w"
  by (simp_all add: scan_of_def scanRecordSummary_def scanRecord_def Let_def)

definition cursor_at :: "'r row list \<Rightarrow> job_filter \<Rightarrow> string" where
  "cursor_at seen f = (if seen = [] then [] else encodeCursor (scan_of f (last seen)))"

lemma row_matches_cursor [simp]: "row_matches (f\<lparr>f_cursor := c\<rparr>) = row_matches f"
  by (simp add: fun_eq_iff row_matches_def)

lemma scan_of_cursor [simp]: "scan_of (f\<lparr>f_cursor := c\<rparr>) = scan_of f"
  by (simp add: fun_eq_iff scan_of_def)

lemma list_page_cursor [simp]: "list_page t (f\<lparr>f_cursor := c\<rparr>) cur = list_page t f cur"
  by (simp add: list_page_def)

lemma store_List_page:
  assumes t: "distinct (map c_id t)" "\<forall>w\<in>set t. c_id w \<noteq> [] \<and> \<bar>c_created w\<bar> < 2 ^ 63"
    and l: "listed t f = seen @ rest"
  defines "n \<equiv> page_limit (f_limit f)"
  shows "store_List t (f\<lparr>f_cursor := cursor_at seen f\<rparr>) =
    Inr (map (scan_of f) (take n rest),
         if length rest > n then encodeCursor (scan_of f (last (take n rest))) else [])"
proof -
  let ?P = "\<lambda>w. seen = [] \<or> row_key w < row_key (last seen)"
  have n: "0 < n" by (simp add: n_def page_limit_def Let_def)
  have rows: "rev (sort_key row_key (filter (\<lambda>w. row_matches f w \<and> ?P w) t)) = rest"
  proof -
    have "filter (\<lambda>w. row_matches f w \<and> ?P w) t = filter ?P (filter (row_matches f) t)"
      by (simp add: conj_commute)
    then have "rev (sort_key row_key (filter (\<lambda>w. row_matches f w \<and> ?P w) t)) = filter ?P (listed t f)"
      by (simp add: listed_def rev_filter flip: filter_sort)
    also have "\<dots> = rest"
    proof (cases "seen = []")
      case False
      then have split: "listed t f = butlast seen @ last seen # rest" by (simp add: l)
      then have "sorted_wrt (\<lambda>a b. row_key b < row_key a) (butlast seen @ last seen # rest)"
        using listed_strict [OF t(1), of f] by simp
      from filter_after [OF this] show ?thesis using False by (simp only: split) simp
    qed (simp add: l)
    finally show ?thesis .
  qed
  let ?cur = "if seen = [] then None else Some (row_key (last seen))"
  have cur: "store_List t (f\<lparr>f_cursor := cursor_at seen f\<rparr>) = Inr (list_page t f ?cur)"
  proof (cases "seen = []")
    case False
    then have "last seen \<in> set (listed t f)" by (simp add: l)
    then have "last seen \<in> set t" by (simp add: listed_def)
    then have "decodeCursor (cursor_at seen f) = Inr (row_key (last seen))"
      using t(2) False decode_encode_cursor [of "scan_of f (last seen)"] by (simp add: cursor_at_def row_key_def)
    then show ?thesis using False by (simp add: store_List_def cursor_at_def encodeCursor_neq_Nil)
  qed (simp add: store_List_def cursor_at_def)
  have after: "(\<lambda>w. case ?cur of None \<Rightarrow> True
      | Some (ca, i) \<Rightarrow> c_created w < ca \<or> (c_created w = ca \<and> c_id w < i)) = ?P"
    by (auto simp: fun_eq_iff row_key_def)
  have scan: "scan_of f = (\<lambda>w. r_job ((if f_omit f then scanRecordSummary else scanRecord) w))"
    by (simp add: fun_eq_iff scan_of_def)
  have "list_page t f ?cur = (map (scan_of f) (take n (take (n + 1) rest)),
      if length (take (n + 1) rest) > n then encodeCursor (last (map (scan_of f) (take n (take (n + 1) rest)))) else [])"
    unfolding list_page_def after Let_def rows n_def scan by (rule refl)
  moreover have "last (map (scan_of f) (take n rest)) = scan_of f (last (take n rest))" if "length rest > n"
    using that n by (intro last_map) auto
  ultimately show ?thesis by (auto simp: cur min_def)
qed

lemma list_pages_from:
  assumes t: "distinct (map c_id t)" "\<forall>w\<in>set t. c_id w \<noteq> [] \<and> \<bar>c_created w\<bar> < 2 ^ 63"
    and "listed t f = seen @ rest" "length rest < fuel"
  shows "list_pages fuel t (f\<lparr>f_cursor := cursor_at seen f\<rparr>) = Some (map (scan_of f) rest)"
  using assms(3,4)
proof (induction fuel arbitrary: seen rest)
  case (Suc fuel)
  let ?n = "page_limit (f_limit f)"
  have n: "0 < ?n" by (simp add: page_limit_def Let_def)
  note page = store_List_page [OF t Suc.prems(1)]
  show ?case
  proof (cases "length rest > ?n")
    case False
    then show ?thesis by (simp add: page)
  next
    case True
    let ?seen' = "seen @ take ?n rest" and ?rest' = "drop ?n rest"
    have "take ?n rest \<noteq> []" using True n by auto
    then have cur: "cursor_at ?seen' f = encodeCursor (scan_of f (last (take ?n rest)))"
      by (simp add: cursor_at_def)
    have "list_pages fuel t (f\<lparr>f_cursor := cursor_at ?seen' f\<rparr>) = Some (map (scan_of f) ?rest')"
      by (rule Suc.IH) (use Suc.prems True n in auto)
    then show ?thesis using True
      by (simp add: page cur encodeCursor_neq_Nil flip: map_append)
  qed
qed simp

text \<open>C10: paging through the history with the returned cursors visits every job the filter
  selects exactly once, newest first, whatever the page size, however many jobs share a
  creation time, and whichever requests the bound of one more than the number of rows allows.\<close>

theorem pagination_complete:
  fixes t :: "'r table"
  assumes "distinct (map c_id t)" "\<forall>w\<in>set t. c_id w \<noteq> [] \<and> \<bar>c_created w\<bar> < 2 ^ 63"
    and "f_cursor f = []"
  shows "list_pages (Suc (length t)) t f =
    Some (map (scan_of f) (rev (sort_key row_key (filter (row_matches f) t))))"
proof -
  have "list_pages (Suc (length t)) t (f\<lparr>f_cursor := cursor_at ([] :: 'r row list) f\<rparr>) = Some (map (scan_of f) (listed t f))"
    by (rule list_pages_from [OF assms(1,2)]) (simp_all add: listed_def less_Suc_eq_le)
  moreover have "f\<lparr>f_cursor := cursor_at ([] :: 'r row list) f\<rparr> = f" using assms(3) by (simp add: cursor_at_def)
  ultimately show ?thesis by (simp add: listed_def)
qed

definition demo_filter :: job_filter where
  "demo_filter = \<lparr>f_status = [], f_model = [], f_source = [], f_since = None, f_limit = 1,
     f_cursor = [], f_key = ''key'', f_admin = False, f_omit = False\<rparr>"

theorem pagination_complete_witness:
  "map_option (map j_id) (list_pages (Suc (Suc (Suc 0)))
     [insert_row (demo_rec ''a'' 1000000), insert_row (demo_rec ''b'' 1000000)] demo_filter)
   = Some [''b'', ''a'']"
proof -
  let ?t = "[insert_row (demo_rec ''a'' 1000000), insert_row (demo_rec ''b'' 1000000)]"
  have rows: "c_id (insert_row (demo_rec k 1000000)) = k" "c_created (insert_row (demo_rec k 1000000)) = 1"
    "c_api_key (insert_row (demo_rec k 1000000)) = Some ''key''" for k
    by (simp_all add: insert_row_def Let_def UnixMilli_def nullString_def)
  have "list_pages (Suc (length ?t)) ?t demo_filter =
    Some (map (scan_of demo_filter) (rev (sort_key row_key (filter (row_matches demo_filter) ?t))))"
    by (rule pagination_complete) (simp_all add: rows demo_filter_def)
  moreover have "filter (row_matches demo_filter) ?t = ?t"
    by (simp add: row_matches_def demo_filter_def rows nullString_def)
  ultimately show ?thesis by (simp add: row_key_def rows less_char_def)
qed

end
