(* ===== verification/Queue.thy ===== *)
theory Queue
  imports Spool Hub JobStore
begin

section \<open>The job queue (internal/job/queue.go)\<close>

text \<open>
  The queue owns the waiting items, the running ones and the admission counter; it drives the
  store, the spool and the hub. Items are shared by pointer in the code and named here by their
  job id: \<open>q_canceled\<close>, \<open>q_cancelfn\<close> and \<open>q_ctx\<close> are the ids whose item is
  marked cancelled, has its cancel function set, and has had it called. Every definition is one
  critical section of the queue's mutex, one call of the store, the spool or the hub, or a
  composition of these in the code's order.
\<close>

datatype audio = Audio audio_src string int

fun au_src :: "audio \<Rightarrow> audio_src" where "au_src (Audio s _ _) = s"
fun au_meta :: "audio \<Rightarrow> string \<times> int" where "au_meta (Audio _ f n) = (f, n)"

record item =
  it_id :: string
  it_req :: "audio request"
  it_prio :: int
  it_enq :: int

record 'r queue =
  q_items :: "item list"
  q_running :: "string \<rightharpoonup> item"
  q_stopped :: bool
  q_admitted :: int
  q_size :: int
  q_canceled :: "string set"
  q_cancelfn :: "string set"
  q_ctx :: "string set"
  q_has_spool :: bool
  q_store :: "'r table"
  q_spool :: spool
  q_hub :: "'r hub"

definition q_New :: "int \<Rightarrow> bool \<Rightarrow> 'r table \<Rightarrow> spool \<Rightarrow> 'r hub \<Rightarrow> 'r queue" where
  "q_New sz has_spool t sp h = \<lparr>q_items = [], q_running = Map.empty, q_stopped = False, q_admitted = 0,
     q_size = (if sz < 1 then 1 else sz), q_canceled = {}, q_cancelfn = {}, q_ctx = {},
     q_has_spool = has_spool, q_store = t, q_spool = sp, q_hub = h\<rparr>"

definition q_Depth :: "'r queue \<Rightarrow> nat" where
  "q_Depth q = length (q_items q)"

subsection \<open>Admission\<close>

definition q_reserve :: "'r queue \<Rightarrow> gerr + 'r queue" where
  "q_reserve q =
     (if q_stopped q then Inl (Domain CodeDraining [])
      else if int (length (q_items q)) + q_admitted q \<ge> q_size q then Inl (Domain CodeQueueFull [])
      else Inr (q\<lparr>q_admitted := q_admitted q + 1\<rparr>))"

definition q_resume :: "'r queue \<Rightarrow> 'r queue" where
  "q_resume q = q\<lparr>q_admitted := q_admitted q + 1\<rparr>"

definition q_unreserve :: "'r queue \<Rightarrow> 'r queue" where
  "q_unreserve q = (if q_admitted q > 0 then q\<lparr>q_admitted := q_admitted q - 1\<rparr> else q)"

text \<open>Highest priority first, then oldest first; the sort is stable.\<close>

definition item_key :: "item \<Rightarrow> int \<times> int" where
  "item_key it = (- it_prio it, it_enq it)"

definition q_sort :: "item list \<Rightarrow> item list" where
  "q_sort = sort_key item_key"

definition q_enqueue :: "'r queue \<Rightarrow> item \<Rightarrow> 'r queue" where
  "q_enqueue q it = (let q1 = q_unreserve q in q1\<lparr>q_items := q_sort (q_items q1 @ [it])\<rparr>)"

fun index_of :: "string \<Rightarrow> item list \<Rightarrow> nat \<Rightarrow> nat" where
  "index_of jid [] i = 0"
| "index_of jid (it # its) i = (if it_id it = jid then i + 1 else index_of jid its (i + 1))"

definition q_Position :: "'r queue \<Rightarrow> string \<Rightarrow> nat" where
  "q_Position q jid = index_of jid (q_items q) 0"

definition q_publish :: "'r queue \<Rightarrow> 'r job \<Rightarrow> 'r queue" where
  "q_publish q j = q\<lparr>q_hub := hub_Publish (q_hub q) j\<rparr>"

text \<open>\<open>Submit\<close>: \<open>io\<close> is what adopting the audio ends with, an error or the bytes written, and
  \<open>rm_ok\<close> what the operating system answers to a removal.\<close>

definition q_Submit ::
  "(string \<Rightarrow> bool) \<Rightarrow> gerr + int \<Rightarrow> 'r queue \<Rightarrow> string \<Rightarrow> audio request \<Rightarrow> int \<Rightarrow> int
     \<Rightarrow> 'r queue \<times> (gerr + 'r job)" where
  "q_Submit rm_ok io q jid req prio now =
     (case q_reserve q of
        Inl e \<Rightarrow> (q, Inl e)
      | Inr q1 \<Rightarrow>
        if \<not> q_has_spool q1 then (q_unreserve q1, Inl (Domain CodeInternal []))
        else
          let sz = (case rq_audio req of None \<Rightarrow> 0 | Some a \<Rightarrow> snd (au_meta a));
              src = (case rq_audio req of None \<Rightarrow> NoAudio | Some a \<Rightarrow> au_src a);
              name = (case rq_audio req of None \<Rightarrow> [] | Some a \<Rightarrow> fst (au_meta a)) in
          (case spool_Reserve (q_spool q1) jid sz of
             Inl e \<Rightarrow> (q_unreserve q1, Inl e)
           | Inr sp1 \<Rightarrow>
             (case spool_Adopt (case io of Inl e \<Rightarrow> Some e | Inr _ \<Rightarrow> None) sp1 jid src of
                Inl e \<Rightarrow> (q_unreserve (q1\<lparr>q_spool := spool_Release sp1 jid\<rparr>), Inl e)
              | Inr sp2 \<Rightarrow>
                let adopted = (if src = OwnFile then sz else case io of Inl _ \<Rightarrow> sz | Inr n \<Rightarrow> n);
                    req' = req\<lparr>rq_audio := Some (Audio OwnFile name adopted)\<rparr>;
                    rec = NewRecord au_meta jid req' prio now in
                (case store_Create (q_store q1) rec of
                   Inl _ \<Rightarrow> (q_unreserve (q1\<lparr>q_spool := spool_Remove rm_ok sp2 jid\<rparr>),
                             Inl (Domain CodeInternal []))
                 | Inr t \<Rightarrow>
                   let it = \<lparr>it_id = jid, it_req = req', it_prio = prio, it_enq = now\<rparr>;
                       q2 = q_enqueue (q1\<lparr>q_spool := sp2, q_store := t\<rparr>) it;
                       j = (r_job rec)\<lparr>j_position := q_Position q2 jid\<rparr>
                   in (q_publish q2 j, Inr j)))))"

subsection \<open>Transitions\<close>

text \<open>\<open>transition\<close> reads the record, changes it, writes it back and publishes it. The
  store's calls carry a context and do nothing once it is cancelled (\<open>ctx_ok\<close> is false);
  errors of the store are only logged. The read and the write are separate steps.\<close>

definition q_read :: "bool \<Rightarrow> 'r queue \<Rightarrow> item \<Rightarrow> 'r jrec" where
  "q_read ctx_ok q it =
     (if ctx_ok then (case store_Get (q_store q) (it_id it) of
        Inr r \<Rightarrow> r
      | Inl _ \<Rightarrow> NewRecord au_meta (it_id it) (it_req it) (it_prio it) (it_enq it))
      else NewRecord au_meta (it_id it) (it_req it) (it_prio it) (it_enq it))"

definition q_write :: "bool \<Rightarrow> 'r queue \<Rightarrow> 'r jrec \<Rightarrow> 'r queue" where
  "q_write ctx_ok q r =
     (if ctx_ok then q\<lparr>q_store := (case store_Update (q_store q) r of Inl _ \<Rightarrow> q_store q | Inr t \<Rightarrow> t)\<rparr>
      else q)"

definition q_transition :: "bool \<Rightarrow> 'r queue \<Rightarrow> item \<Rightarrow> ('r jrec \<Rightarrow> 'r jrec) \<Rightarrow> 'r queue \<times> 'r jrec" where
  "q_transition ctx_ok q it apply_f =
     (let rec = apply_f (q_read ctx_ok q it)
      in (q_publish (q_write ctx_ok q rec) (r_job rec), rec))"

definition set_running :: "int \<Rightarrow> 'r jrec \<Rightarrow> 'r jrec" where
  "set_running started r = r\<lparr>r_job := (r_job r)\<lparr>j_status := JobRunning, j_started := Some started\<rparr>\<rparr>"

definition set_canceled :: "int \<Rightarrow> 'r jrec \<Rightarrow> 'r jrec" where
  "set_canceled finished r = r\<lparr>r_job := (r_job r)\<lparr>j_status := JobCanceled, j_finished := Some finished\<rparr>\<rparr>"

text \<open>A runner's result: the transcript, the model that made it and the audio's duration.\<close>

type_synonym 'r outcome = "('r \<times> string \<times> real) option"

definition set_finished :: "bool \<Rightarrow> int \<Rightarrow> 'r outcome \<Rightarrow> gerr option \<Rightarrow> 'r jrec \<Rightarrow> 'r jrec" where
  "set_finished draining finished result runErr r =
     (let j = (r_job r)\<lparr>j_finished := Some finished\<rparr> in
      case runErr of
        None \<Rightarrow>
          (case result of
             None \<Rightarrow> r\<lparr>r_job := j\<lparr>j_status := JobSucceeded, j_result := None\<rparr>\<rparr>
           | Some (res, model, dur) \<Rightarrow>
               r\<lparr>r_job := j\<lparr>j_status := JobSucceeded, j_result := Some res, j_model := model\<rparr>,
                 r_audio_seconds := dur\<rparr>)
      | Some DeadlineExceeded \<Rightarrow>
          r\<lparr>r_job := j\<lparr>j_status := JobFailed, j_error := Some (CodeProcessingTimeout, [])\<rparr>\<rparr>
      | Some Canceled \<Rightarrow>
          if draining then r\<lparr>r_job := j\<lparr>j_status := JobFailed, j_error := Some (CodeDraining, [])\<rparr>\<rparr>
          else r\<lparr>r_job := j\<lparr>j_status := JobCanceled\<rparr>\<rparr>
      | Some e \<Rightarrow> r\<lparr>r_job := j\<lparr>j_status := JobFailed, j_error := AsError (Some e)\<rparr>\<rparr>)"

subsection \<open>Workers\<close>

datatype 'r popped = MustWait | Stopping | Popped item "'r queue"

definition q_next :: "'r queue \<Rightarrow> 'r popped" where
  "q_next q =
     (if q_items q = [] \<and> \<not> q_stopped q then MustWait
      else if q_stopped q then Stopping
      else case q_items q of
        [] \<Rightarrow> MustWait
      | it # its \<Rightarrow> Popped it (q\<lparr>q_items := its, q_running := (q_running q)(it_id it \<mapsto> it)\<rparr>))"

text \<open>\<open>run\<close>: the first section installs the cancel function and reads the flag; a job
  cancelled by then is left alone. The transition to running is a step of its own.\<close>

definition q_run_check :: "'r queue \<Rightarrow> item \<Rightarrow> 'r queue \<times> bool" where
  "q_run_check q it = (q\<lparr>q_cancelfn := insert (it_id it) (q_cancelfn q)\<rparr>, it_id it \<in> q_canceled q)"

definition q_run_start :: "bool \<Rightarrow> 'r queue \<Rightarrow> item \<Rightarrow> int \<Rightarrow> 'r queue" where
  "q_run_start expired q it started =
     fst (q_transition (it_id it \<notin> q_ctx q \<and> \<not> expired) q it (set_running started))"

definition q_finish_begin :: "'r queue \<Rightarrow> item \<Rightarrow> 'r queue \<times> bool" where
  "q_finish_begin q it = (q\<lparr>q_running := (q_running q)(it_id it := None)\<rparr>, it_id it \<in> q_canceled q)"

text \<open>\<open>finish\<close>: the second result is the job the notifier is told about, where it is.\<close>

definition q_finish_end ::
  "(string \<Rightarrow> bool) \<Rightarrow> 'r queue \<Rightarrow> item \<Rightarrow> 'r outcome \<Rightarrow> gerr option \<Rightarrow> int \<Rightarrow> 'r queue \<times> 'r job option" where
  "q_finish_end rm_ok q it result runErr finished =
     (case q_transition True q it (set_finished (q_stopped q) finished result runErr) of
        (q2, rec) \<Rightarrow>
          (q2\<lparr>q_spool := spool_Remove rm_ok (q_spool q2) (it_id it)\<rparr>,
           if rq_webhook (it_req it) \<noteq> [] then Some (r_job rec) else None))"

definition q_finish ::
  "(string \<Rightarrow> bool) \<Rightarrow> 'r queue \<Rightarrow> item \<Rightarrow> 'r outcome \<Rightarrow> gerr option \<Rightarrow> int \<Rightarrow> 'r queue \<times> 'r job option" where
  "q_finish rm_ok q it result runErr finished =
     (case q_finish_begin q it of (q1, canceled) \<Rightarrow>
        if canceled then (q1, None) else q_finish_end rm_ok q1 it result runErr finished)"

text \<open>One job from its removal from the line to its end: what the runner answers is a
  parameter, and nothing else interleaves.\<close>

definition q_run ::
  "(string \<Rightarrow> bool) \<Rightarrow> 'r queue \<Rightarrow> item \<Rightarrow> int \<Rightarrow> 'r outcome \<Rightarrow> gerr option \<Rightarrow> int \<Rightarrow> 'r queue \<times> 'r job option" where
  "q_run rm_ok q it started result runErr finished =
     (case q_run_check q it of (q1, canceled) \<Rightarrow>
        if canceled then (q1, None)
        else q_finish rm_ok (q_run_start False q1 it started) it result runErr finished)"

subsection \<open>Cancellation\<close>

text \<open>The first section of \<open>Cancel\<close>: take the job out of the line, or find it running, mark
  it, and call its cancel function if it has one.\<close>

fun take_item :: "string \<Rightarrow> item list \<Rightarrow> (item \<times> item list) option" where
  "take_item jid [] = None"
| "take_item jid (it # its) =
     (if it_id it = jid then Some (it, its)
      else map_option (\<lambda>(x, r). (x, it # r)) (take_item jid its))"

definition q_cancel_begin :: "'r queue \<Rightarrow> string \<Rightarrow> ('r queue \<times> item) option" where
  "q_cancel_begin q jid =
     (let mark = (\<lambda>q'. q'\<lparr>q_canceled := insert jid (q_canceled q'),
            q_ctx := (if jid \<in> q_cancelfn q' then insert jid (q_ctx q') else q_ctx q')\<rparr>) in
      case take_item jid (q_items q) of
        Some (it, rest) \<Rightarrow> Some (mark (q\<lparr>q_items := rest\<rparr>), it)
      | None \<Rightarrow> (case q_running q jid of Some it \<Rightarrow> Some (mark q, it) | None \<Rightarrow> None))"

definition q_cancelStored :: "(string \<Rightarrow> bool) \<Rightarrow> 'r queue \<Rightarrow> string \<Rightarrow> int \<Rightarrow> 'r queue \<times> gerr option" where
  "q_cancelStored rm_ok q jid finished =
     (case store_Get (q_store q) jid of
        Inl e \<Rightarrow> (q, Some e)
      | Inr r \<Rightarrow>
        if Terminal (j_status (r_job r)) then (q, None)
        else let r' = set_canceled finished r in
          (case store_Update (q_store q) r' of
             Inl _ \<Rightarrow> (q, Some (Domain CodeInternal []))
           | Inr t \<Rightarrow>
             let q1 = q_publish (q\<lparr>q_store := t\<rparr>) (r_job r') in
             (q1\<lparr>q_spool := spool_Remove rm_ok (q_spool q1) jid\<rparr>, None)))"

definition q_cancel_end :: "bool \<Rightarrow> (string \<Rightarrow> bool) \<Rightarrow> 'r queue \<Rightarrow> item \<Rightarrow> string \<Rightarrow> int \<Rightarrow> 'r queue" where
  "q_cancel_end ctx_ok rm_ok q it jid finished =
     (let q2 = fst (q_transition ctx_ok q it (set_canceled finished))
      in q2\<lparr>q_spool := spool_Remove rm_ok (q_spool q2) jid\<rparr>)"

definition q_Cancel :: "bool \<Rightarrow> (string \<Rightarrow> bool) \<Rightarrow> 'r queue \<Rightarrow> string \<Rightarrow> int \<Rightarrow> 'r queue \<times> gerr option" where
  "q_Cancel ctx_ok rm_ok q jid finished =
     (case q_cancel_begin q jid of
        None \<Rightarrow> if ctx_ok then q_cancelStored rm_ok q jid finished else (q, Some Canceled)
      | Some (q1, it) \<Rightarrow> (q_cancel_end ctx_ok rm_ok q1 it jid finished, None))"

subsection \<open>Restart and shutdown\<close>

definition q_failRecovered :: "'r queue \<Rightarrow> 'r jrec \<Rightarrow> int \<Rightarrow> 'r queue" where
  "q_failRecovered q r finished =
     (let r' = r\<lparr>r_job := (r_job r)\<lparr>j_status := JobFailed, j_finished := Some finished,
                   j_error := Some (CodeOther ''audio_missing'', [])\<rparr>\<rparr> in
      case store_Update (q_store q) r' of Inl _ \<Rightarrow> q | Inr t \<Rightarrow> q\<lparr>q_store := t\<rparr>)"

text \<open>\<open>Recover\<close> over the pending records; a job's audio opens when its file is in the spool
  directory.\<close>

definition recover_one ::
  "int \<Rightarrow> 'r queue \<times> (string \<rightharpoonup> int) \<Rightarrow> 'r jrec \<Rightarrow> 'r queue \<times> (string \<rightharpoonup> int)" where
  "recover_one now st r =
     (let (q, live) = st; jid = j_id (r_job r) in
      if spool_Name jid \<notin> sp_files (q_spool q) then (q_failRecovered q r now, live)
      else
        let audio = Audio OwnFile (j_filename (r_job r)) (r_audio_bytes r);
            it = \<lparr>it_id = jid, it_req = params_Request (r_params r) (Some audio) (r_api_key r),
                  it_prio = r_priority r, it_enq = j_created (r_job r)\<rparr>
        in (q_enqueue (q_resume q) it, live(jid \<mapsto> r_audio_bytes r)))"

definition q_Recover :: "'r queue \<Rightarrow> int \<Rightarrow> 'r queue \<times> (string \<rightharpoonup> int)" where
  "q_Recover q now = foldl (recover_one now) (q, Map.empty) (store_Pending (q_store q))"

definition q_stop :: "'r queue \<Rightarrow> 'r queue" where
  "q_stop q = (if q_stopped q then q else q\<lparr>q_stopped := True\<rparr>)"

text \<open>After the caller's grace: every running item with a cancel function has it called.\<close>

definition q_cancelRunning :: "'r queue \<Rightarrow> 'r queue" where
  "q_cancelRunning q = q\<lparr>q_ctx := q_ctx q \<union> (dom (q_running q) \<inter> q_cancelfn q)\<rparr>"

end
