(* ===== verification/QueueInv.thy ===== *)
theory QueueInv
  imports Queue
begin

section \<open>Admission, order and the worker line\<close>

text \<open>
  The queue's own state machine: callers that reserve a place and later enqueue or give the
  place back, workers that take, start and finish items, clients that cancel, and shutdown, in
  any interleaving. Beside the queue the state counts the reservations outstanding and the
  jobs carried over from a previous process, which are let in past the limit.
\<close>

lemmas q_op_defs = q_reserve_def q_resume_def q_unreserve_def q_enqueue_def q_run_check_def
  q_finish_begin_def q_stop_def q_cancelRunning_def

inductive q_step :: "'r queue \<times> nat \<times> nat \<Rightarrow> 'r queue \<times> nat \<times> nat \<Rightarrow> bool" where
  reserve: "q_reserve q = Inr q' \<Longrightarrow> q_step (q, n, c) (q', Suc n, c)"
| resume: "q_step (q, n, c) (q_resume q, Suc n, Suc c)"
| unreserve: "q_step (q, Suc n, c) (q_unreserve q, n, c)"
| enqueue: "it_id it \<notin> it_id ` set (q_items q) \<Longrightarrow> q_running q (it_id it) = None \<Longrightarrow>
    q_step (q, Suc n, c) (q_enqueue q it, n, c)"
| pop: "q_next q = Popped it q' \<Longrightarrow> q_step (q, n, c) (q', n, c)"
| check: "q_step (q, n, c) (fst (q_run_check q it), n, c)"
| finish: "q_step (q, n, c) (fst (q_finish_begin q it), n, c)"
| cancel: "q_cancel_begin q jid = Some (q', it) \<Longrightarrow> q_step (q, n, c) (q', n, c)"
| stop: "q_step (q, n, c) (q_stop q, n, c)"
| cut: "q_step (q, n, c) (q_cancelRunning q, n, c)"
| services: "q_step (q, n, c) (q\<lparr>q_store := t, q_spool := sp, q_hub := h\<rparr>, n, c)"

inductive q_reach :: "'r queue \<times> nat \<times> nat \<Rightarrow> bool" where
  init: "q_reach (q_New sz hs t sp h, 0, 0)"
| step: "q_reach s \<Longrightarrow> q_step s s' \<Longrightarrow> q_reach s'"

definition line_ok :: "'r queue \<Rightarrow> bool" where
  "line_ok q \<longleftrightarrow> sorted (map item_key (q_items q)) \<and> distinct (map it_id (q_items q))
     \<and> (\<forall>it\<in>set (q_items q). q_running q (it_id it) = None)
     \<and> (\<forall>k it. q_running q k = Some it \<longrightarrow> it_id it = k)"

definition q_inv :: "'r queue \<times> nat \<times> nat \<Rightarrow> bool" where
  "q_inv s \<longleftrightarrow> (case s of (q, n, c) \<Rightarrow>
     q_admitted q = int n \<and> 0 < q_size q
     \<and> int (length (q_items q)) + int n \<le> q_size q + int c \<and> line_ok q)"

lemma q_sort_simps [simp]: "set (q_sort xs) = set xs" "length (q_sort xs) = length xs"
  "sorted (map item_key (q_sort xs))"
  by (simp_all add: q_sort_def)

lemma q_sort_distinct: "distinct (map f (q_sort xs)) = distinct (map f xs)"
proof -
  have "mset (map f (q_sort xs)) = mset (map f xs)" by (simp add: q_sort_def)
  then show ?thesis by (rule mset_eq_imp_distinct_iff)
qed

lemma take_item_Some:
  assumes "take_item jid its = Some (it, rest)"
  shows "\<exists>pre post. its = pre @ it # post \<and> rest = pre @ post \<and> it_id it = jid
     \<and> jid \<notin> it_id ` set pre"
  using assms
proof (induction its arbitrary: rest)
  case (Cons x xs)
  show ?case
  proof (cases "it_id x = jid")
    case True
    with Cons.prems show ?thesis by (intro exI [of _ "[]"] exI [of _ xs]) auto
  next
    case False
    with Cons.prems obtain r where r: "take_item jid xs = Some (it, r)" "rest = x # r" by auto
    from Cons.IH [OF r(1)] obtain pre post where
      "xs = pre @ it # post" "r = pre @ post" "it_id it = jid" "jid \<notin> it_id ` set pre" by blast
    with False r(2) show ?thesis by (intro exI [of _ "x # pre"] exI [of _ post]) auto
  qed
qed simp

lemma take_item_None [simp]: "take_item jid its = None \<longleftrightarrow> jid \<notin> it_id ` set its"
  by (induction its) auto

lemma line_ok_drop:
  assumes "line_ok q" "q_items q = pre @ it # post" "q_items q' = pre @ post"
    and "\<forall>k. k \<noteq> it_id it \<longrightarrow> q_running q' k = q_running q k"
    and "\<forall>x. q_running q' (it_id it) = Some x \<longrightarrow> it_id x = it_id it"
  shows "line_ok q'"
proof -
  have "distinct (map it_id (pre @ it # post))" using assms(1,2) by (simp add: line_ok_def)
  then have "x \<in> set (pre @ post) \<Longrightarrow> it_id x \<noteq> it_id it" for x
    by (auto simp: image_iff)
  then have "\<forall>x\<in>set (pre @ post). q_running q' (it_id x) = q_running q (it_id x)"
    using assms(4) by blast
  moreover have "it_id x = k" if "q_running q' k = Some x" for k x
  proof (cases "k = it_id it")
    case True
    with assms(5) that show ?thesis by blast
  next
    case False
    with assms(4) that have "q_running q k = Some x" by simp
    with assms(1) show ?thesis unfolding line_ok_def by blast
  qed
  moreover have "sorted (map item_key (pre @ post))" "distinct (map it_id (pre @ post))"
    "\<forall>x\<in>set (pre @ post). q_running q (it_id x) = None"
    using assms(1,2) by (auto simp: line_ok_def sorted_append)
  ultimately show ?thesis unfolding line_ok_def assms(3) by auto
qed

lemma line_ok_cong: "q_items q' = q_items q \<Longrightarrow> q_running q' = q_running q \<Longrightarrow> line_ok q' = line_ok q"
  by (simp add: line_ok_def)

lemma q_next_Popped:
  "q_next q = Popped it q' \<longleftrightarrow> \<not> q_stopped q \<and> (\<exists>its. q_items q = it # its \<and>
     q' = q\<lparr>q_items := its, q_running := (q_running q)(it_id it \<mapsto> it)\<rparr>)"
  by (auto simp: q_next_def split: list.splits)

lemma q_step_inv: "q_step s s' \<Longrightarrow> q_inv s \<Longrightarrow> q_inv s'"
proof (induction rule: q_step.induct)
  case (reserve q q' n c)
  then show ?case by (auto simp: q_inv_def q_reserve_def line_ok_def split: if_splits)
next
  case (enqueue it q n c)
  then show ?case
    by (auto simp: q_inv_def line_ok_def q_enqueue_def q_unreserve_def Let_def q_sort_distinct)
next
  case (pop q it q' n c)
  then obtain its where q: "q_items q = it # its"
    "q' = q\<lparr>q_items := its, q_running := (q_running q)(it_id it \<mapsto> it)\<rparr>"
    by (auto simp: q_next_Popped)
  have "line_ok q'" by (rule line_ok_drop [where pre = "[]" and q = q]) (use q pop in \<open>auto simp: q_inv_def\<close>)
  with q pop show ?case by (auto simp: q_inv_def)
next
  case (cancel q jid q' it n c)
  show ?case
  proof (cases "take_item jid (q_items q)")
    case None
    with cancel show ?thesis
      by (auto simp: q_inv_def q_cancel_begin_def Let_def line_ok_def split: option.splits)
  next
    case (Some p)
    then obtain rest where ti: "take_item jid (q_items q) = Some (fst p, rest)"
      by (cases p) auto
    from take_item_Some [OF this] obtain pre post where
      pp: "q_items q = pre @ fst p # post" "rest = pre @ post" by blast
    have q': "q_items q' = pre @ post" "q_running q' = q_running q" "q_size q' = q_size q"
      "q_admitted q' = q_admitted q"
      using cancel(1) ti pp by (auto simp: q_cancel_begin_def Let_def)
    have "line_ok q'"
      by (rule line_ok_drop [OF _ pp(1) q'(1)]) (use q' cancel in \<open>auto simp: q_inv_def line_ok_def\<close>)
    with q' pp cancel show ?thesis by (auto simp: q_inv_def)
  qed
qed (auto simp: q_inv_def line_ok_def q_op_defs)

lemma q_reach_inv: "q_reach s \<Longrightarrow> q_inv s"
  by (induction rule: q_reach.induct)
    (auto simp: q_inv_def q_New_def line_ok_def dest: q_step_inv)

text \<open>C11: whatever callers, workers, cancellations and shutdown interleave, the waiting jobs and
  the reservations handed out together never exceed the queue's size by more than the jobs
  carried over from the previous process; the admission counter is exact, no job is in line
  twice, and none is both waiting and running.\<close>

theorem queue_admission_bound:
  assumes "q_reach (q, n, c)"
  shows "q_admitted q = int n \<and> int (length (q_items q)) + int n \<le> q_size q + int c
    \<and> distinct (map it_id (q_items q))
    \<and> (\<forall>it\<in>set (q_items q). q_running q (it_id it) = None)"
  using q_reach_inv [OF assms] by (auto simp: q_inv_def line_ok_def)

lemma q_reach_reserve: "q_reach (q, n, c) \<Longrightarrow> q_reserve q = Inr q' \<Longrightarrow> q_reach (q', Suc n, c)"
  by (erule q_reach.step) (rule q_step.reserve)

lemma q_reach_enqueue: "q_reach (q, Suc n, c) \<Longrightarrow> it_id it \<notin> it_id ` set (q_items q) \<Longrightarrow>
    q_running q (it_id it) = None \<Longrightarrow> q_reach (q_enqueue q it, n, c)"
  by (erule q_reach.step) (rule q_step.enqueue)

definition demo_item :: "string \<Rightarrow> int \<Rightarrow> int \<Rightarrow> item" where
  "demo_item jid prio enq = \<lparr>it_id = jid,
     it_req = params_Request \<lparr>p_model = ''m'', p_language = [], p_channel_mode = [], p_decoding = [],
        p_paths = 0, p_diarize = False, p_speakers = 0, p_punctuate = False, p_itn = False,
        p_hotwords = [], p_dicts = [], p_score = 0, p_strict = False, p_source = ''api'',
        p_webhook = []\<rparr> (Some (Audio Detachable ''a.wav'' 7)) ''key'', it_prio = prio, it_enq = enq\<rparr>"

definition demo_queue :: "nat queue" where
  "demo_queue = q_New 1 True [] (spool_New 10 {}) (NewHub 4)"

definition demo_busy :: "nat queue" where
  "demo_busy = q_enqueue (demo_queue\<lparr>q_admitted := 1\<rparr>) (demo_item ''a'' 0 5)"

lemma demo_queue_reserve: "q_reserve demo_queue = Inr (demo_queue\<lparr>q_admitted := 1\<rparr>)"
  by (simp add: q_reserve_def demo_queue_def q_New_def)

lemma demo_queue_reach: "q_reach (demo_queue, 0, 0)"
  unfolding demo_queue_def by (rule q_reach.init)

lemma demo_busy_reach: "q_reach (demo_busy, 0, 0)"
  unfolding demo_busy_def
  by (rule q_reach_enqueue [OF q_reach_reserve [OF demo_queue_reach demo_queue_reserve]])
    (simp_all add: demo_queue_def q_New_def)

theorem queue_admission_bound_witness:
  "q_admitted demo_busy = 0 \<and> length (q_items demo_busy) = 1 \<and> 1 \<le> q_size demo_busy
   \<and> q_reserve demo_busy = Inl (Domain CodeQueueFull [])"
proof -
  have "length (q_items demo_busy) = 1"
    by (simp add: demo_busy_def q_enqueue_def q_unreserve_def Let_def demo_queue_def q_New_def)
  moreover have "q_size demo_busy = 1" "\<not> q_stopped demo_busy"
    by (simp_all add: demo_busy_def q_enqueue_def q_unreserve_def Let_def demo_queue_def q_New_def)
  ultimately show ?thesis
    using queue_admission_bound [OF demo_busy_reach] by (simp add: q_reserve_def)
qed

text \<open>C12: a worker takes the best waiting job: nothing waiting has a higher priority, nothing of
  the same priority was enqueued earlier, it is marked running in the same step, and the rest of
  the line keeps its order. Once shutdown has begun no job is taken, and the line stays as it is.\<close>

theorem worker_takes_best:
  assumes "q_reach (q, n, c)"
  shows "case q_next q of
      Popped it q' \<Rightarrow> \<not> q_stopped q \<and> q_items q = it # q_items q' \<and> q_running q' (it_id it) = Some it
        \<and> (\<forall>x\<in>set (q_items q'). it_prio x < it_prio it \<or> it_prio x = it_prio it \<and> it_enq it \<le> it_enq x)
    | Stopping \<Rightarrow> q_stopped q
    | MustWait \<Rightarrow> q_items q = [] \<and> \<not> q_stopped q"
proof (cases "q_next q")
  case (Popped it q')
  then obtain its where q: "\<not> q_stopped q" "q_items q = it # its"
    "q' = q\<lparr>q_items := its, q_running := (q_running q)(it_id it \<mapsto> it)\<rparr>"
    by (auto simp: q_next_Popped)
  have "sorted (map item_key (it # its))"
    using q_reach_inv [OF assms] q(2) by (simp add: q_inv_def line_ok_def)
  then have "\<forall>x\<in>set its. item_key it \<le> item_key x" by simp
  with q Popped show ?thesis by (auto simp: item_key_def)
qed (auto simp: q_next_def split: if_splits list.splits)

theorem worker_takes_best_witness:
  "\<exists>q'. q_next demo_busy = Popped (demo_item ''a'' 0 5) q' \<and> q_items q' = []"
proof -
  have "q_next demo_busy = Popped (demo_item ''a'' 0 5)
      (demo_busy\<lparr>q_items := [], q_running := [''a'' \<mapsto> demo_item ''a'' 0 5]\<rparr>)"
    by (simp add: q_next_def demo_busy_def q_enqueue_def q_unreserve_def Let_def demo_queue_def
        q_New_def q_sort_def demo_item_def)
  moreover note worker_takes_best [OF demo_busy_reach]
  ultimately show ?thesis by simp
qed

end
