(* ===== verification/QueueLife.thy ===== *)
theory QueueLife
  imports QueueInv
begin

section \<open>The life of a job: submission, cancellation, recovery\<close>

text \<open>
  What the operations of the queue do to the line, the store, the spool and the hub together:
  a submission that happens completely or not at all, a cancellation against every state a job
  can be in, its races with a job that starts or finishes, and recovery followed by the sweep.
  The statements about the store rest on the contract \<open>job_store\<close>.
\<close>

subsection \<open>Submission\<close>

lemma index_of_bounds:
  "jid \<in> it_id ` set its \<Longrightarrow>
    i < index_of jid its i \<and> index_of jid its i \<le> i + length its \<and> it_id (its ! (index_of jid its i - i - 1)) = jid"
proof (induction its arbitrary: i)
  case (Cons x its)
  show ?case
  proof (cases "it_id x = jid")
    case False
    with Cons have "jid \<in> it_id ` set its" by auto
    from Cons.IH [OF this, of "Suc i"] have b: "Suc i < index_of jid its (Suc i)"
      "index_of jid its (Suc i) \<le> Suc i + length its"
      "it_id (its ! (index_of jid its (Suc i) - Suc i - 1)) = jid" by auto
    then have "index_of jid its (Suc i) - i - 1 = Suc (index_of jid its (Suc i) - Suc i - 1)" by linarith
    with b False show ?thesis by simp
  qed simp
qed simp

lemma q_unreserve_reserved [simp]: "0 \<le> q_admitted q \<Longrightarrow> q_unreserve (q\<lparr>q_admitted := q_admitted q + 1\<rparr>) = q"
  by (simp add: q_unreserve_def)

lemma spool_Release_Reserve:
  "spool_Reserve s jid n = Inr s' \<Longrightarrow> spool_Release s' jid = s"
  by (cases s) (auto simp: spool_Reserve_def spool_Release_def fun_upd_idem split: if_splits)

lemma spool_Remove_Adopt:
  assumes "spool_Reserve s jid n = Inr s1" "spool_Adopt e s1 jid src = Inr s2"
    "spool_Name jid \<notin> sp_files s" "rm_ok (spool_Name jid)"
  shows "spool_Remove rm_ok s2 jid = s"
proof -
  have "s2 = s1 \<or> s2 = s1\<lparr>sp_files := insert (spool_Name jid) (sp_files s1)\<rparr>"
    using assms(2) by (auto simp: spool_Adopt_def split: audio_src.splits option.splits)
  moreover have "sp_files s1 = sp_files s" using assms(1) by (auto simp: spool_Reserve_def split: if_splits)
  ultimately have "s2\<lparr>sp_files := sp_files s2 - {spool_Name jid}\<rparr> = s1" using assms(3) by auto
  then show ?thesis using assms(1,4) by (simp add: spool_Remove_def spool_Release_Reserve)
qed

lemma q_publish_frame [simp]:
  "q_items (q_publish q j) = q_items q" "q_running (q_publish q j) = q_running q"
  "q_admitted (q_publish q j) = q_admitted q" "q_store (q_publish q j) = q_store q"
  "q_spool (q_publish q j) = q_spool q" "q_canceled (q_publish q j) = q_canceled q"
  "q_ctx (q_publish q j) = q_ctx q" "q_cancelfn (q_publish q j) = q_cancelfn q"
  "q_stopped (q_publish q j) = q_stopped q" "q_hub (q_publish q j) = hub_Publish (q_hub q) j"
  by (simp_all add: q_publish_def)

text \<open>C13: a submission happens completely or not at all. When it fails, at whatever step, the
  queue, the store, the spool with its files and its budget and the hub are what they were. When
  it succeeds, exactly one job joins the line, with the caller's priority and audio of its own,
  at the position it is told; its row is queued, its bytes are held and its file is there.\<close>

theorem submit_all_or_nothing:
  fixes q q' :: "'r queue"
  assumes "q_Submit rm_ok io q jid req prio now = (q', res)"
    and "0 \<le> q_admitted q" "spool_Name jid \<notin> sp_files (q_spool q)" "rm_ok (spool_Name jid)"
    and "rq_audio req = Some (Audio src name sz)" "src = Detachable \<or> src = OtherSource"
  shows "case res of
      Inl e \<Rightarrow> q' = q
    | Inr j \<Rightarrow> \<exists>it. mset (q_items q') = add_mset it (mset (q_items q)) \<and> it_id it = jid \<and> it_prio it = prio
        \<and> rq_audio (it_req it) = Some (Audio OwnFile name (case io of Inl _ \<Rightarrow> sz | Inr n \<Rightarrow> n))
        \<and> q_admitted q' = q_admitted q \<and> int (length (q_items q')) \<le> q_size q
        \<and> 1 \<le> j_position j \<and> it_id (q_items q' ! (j_position j - 1)) = jid
        \<and> js.status_of (q_store q') = (js.status_of (q_store q))(jid \<mapsto> JobQueued)
        \<and> sp_held (q_spool q') jid = Some sz \<and> spool_Name jid \<in> sp_files (q_spool q')"
proof (cases "q_reserve q")
  case (Inl e)
  with assms(1) show ?thesis by (auto simp: q_Submit_def)
next
  case res: (Inr q1)
  then have q1: "q1 = q\<lparr>q_admitted := q_admitted q + 1\<rparr>"
    and room: "int (length (q_items q)) + q_admitted q < q_size q"
    by (auto simp: q_reserve_def split: if_splits)
  show ?thesis
  proof (cases "q_has_spool q \<and> (\<exists>sp1. spool_Reserve (q_spool q) jid sz = Inr sp1)")
    case False
    then show ?thesis using assms(1,2,5) res q1
      by (auto simp: q_Submit_def split: sum.splits if_splits)
  next
    case True
    then obtain sp1 where sp1: "spool_Reserve (q_spool q) jid sz = Inr sp1" by blast
    let ?io = "case io of Inl e \<Rightarrow> Some e | Inr _ \<Rightarrow> None"
    show ?thesis
    proof (cases "spool_Adopt ?io sp1 jid src")
      case (Inl e)
      with assms(1,2,5) res q1 sp1 True show ?thesis
        by (auto simp: q_Submit_def spool_Release_Reserve [OF sp1])
    next
      case ad: (Inr sp2)
      let ?req = "req\<lparr>rq_audio := Some (Audio OwnFile name (case io of Inl _ \<Rightarrow> sz | Inr n \<Rightarrow> n))\<rparr>"
      let ?rec = "NewRecord au_meta jid ?req prio now"
      have src: "src \<noteq> OwnFile" using assms(6) by auto
      show ?thesis
      proof (cases "store_Create (q_store q) ?rec")
        case (Inl e)
        with assms(1,2,5) res q1 sp1 True ad src
          spool_Remove_Adopt [where rm_ok = rm_ok, OF sp1 ad assms(3,4)] show ?thesis
          by (auto simp: q_Submit_def Let_def)
      next
        case cr: (Inr t)
        let ?it = "\<lparr>it_id = jid, it_req = ?req, it_prio = prio, it_enq = now\<rparr>"
        let ?q2 = "q_enqueue (q1\<lparr>q_spool := sp2, q_store := t\<rparr>) ?it"
        have q': "q' = q_publish ?q2 ((r_job ?rec)\<lparr>j_position := q_Position ?q2 jid\<rparr>)"
          and r': "res = Inr ((r_job ?rec)\<lparr>j_position := q_Position ?q2 jid\<rparr>)"
          using assms(1,5) res q1 sp1 True ad src cr by (auto simp: q_Submit_def Let_def)
        have f: "q_items ?q2 = q_sort (q_items q @ [?it])" "q_admitted ?q2 = q_admitted q"
          "q_store ?q2 = t" "q_spool ?q2 = sp2"
          using q1 assms(2) by (simp_all add: q_enqueue_def q_unreserve_def Let_def)
        have "jid \<in> it_id ` set (q_items ?q2)" unfolding f by simp
        from index_of_bounds [OF this, of 0] have pos: "1 \<le> q_Position ?q2 jid"
          "it_id (q_items ?q2 ! (q_Position ?q2 jid - 1)) = jid" by (simp_all add: q_Position_def)
        have sp: "sp_held sp2 jid = Some sz" "spool_Name jid \<in> sp_files sp2"
          using sp1 ad assms(6)
          by (auto simp: spool_Reserve_def spool_Adopt_def split: if_splits option.splits)
        have st: "js.status_of t = (js.status_of (q_store q))(jid \<mapsto> JobQueued)"
          using js.status_of_create [OF cr] by simp
        show ?thesis using pos sp st room assms(2) unfolding r' q'
          by (intro sum.case(2) [THEN iffD2] exI [of _ ?it]) (simp add: f q_sort_def)
      qed
    qed
  qed
qed

theorem submit_all_or_nothing_witness:
  "\<exists>q' j. q_Submit (\<lambda>_. True) (Inr 7) demo_queue ''a'' (it_req (demo_item ''a'' 0 5)) 0 5 = (q', Inr j)
     \<and> sp_held (q_spool q') ''a'' = Some 7 \<and> js.status_of (q_store q') ''a'' = Some JobQueued
     \<and> length (q_items q') = 1"
proof -
  let ?s = "q_Submit (\<lambda>_. True) (Inr 7) demo_queue ''a'' (it_req (demo_item ''a'' 0 5)) 0 5"
  have a: "rq_audio (it_req (demo_item ''a'' 0 5)) = Some (Audio Detachable ''a.wav'' 7)"
    by (simp add: demo_item_def params_Request_def)
  have d: "q_spool demo_queue = spool_New 10 {}" "q_admitted demo_queue = 0" "q_store demo_queue = []"
    "q_has_spool demo_queue" "q_items demo_queue = []" "\<not> q_stopped demo_queue" "q_size demo_queue = 1"
    by (simp_all add: demo_queue_def q_New_def)
  have "\<exists>j. snd ?s = Inr j"
    by (simp add: q_Submit_def demo_queue_reserve a d Let_def spool_Reserve_def spool_New_def
        spool_Adopt_def store_Create_def)
  then obtain q' j where s: "?s = (q', Inr j)" by (cases ?s) auto
  from submit_all_or_nothing [OF s _ _ _ a] have "sp_held (q_spool q') ''a'' = Some 7
     \<and> js.status_of (q_store q') ''a'' = Some JobQueued \<and> size (mset (q_items q')) = 1"
    by (auto simp: d spool_New_def)
  with s show ?thesis by auto
qed

subsection \<open>Transitions over the store contract\<close>

lemma q_transition_frame [simp]:
  "q_items (fst (q_transition ctx_ok q it f)) = q_items q"
  "q_running (fst (q_transition ctx_ok q it f)) = q_running q"
  "q_admitted (fst (q_transition ctx_ok q it f)) = q_admitted q"
  "q_spool (fst (q_transition ctx_ok q it f)) = q_spool q"
  "q_canceled (fst (q_transition ctx_ok q it f)) = q_canceled q"
  "q_ctx (fst (q_transition ctx_ok q it f)) = q_ctx q"
  "q_stopped (fst (q_transition ctx_ok q it f)) = q_stopped q"
  "q_cancelfn (fst (q_transition ctx_ok q it f)) = q_cancelfn q"
  by (simp_all add: q_transition_def q_write_def Let_def)

text \<open>Writing back a record read under its id, with the status \<open>s\<close>.\<close>

lemma q_write_status:
  assumes "j_id (r_job r) = jid"
  shows "js.status_of (q_store (q_write True q r)) =
    (if js.status_of (q_store q) jid = None then js.status_of (q_store q)
     else (js.status_of (q_store q))(jid \<mapsto> j_status (r_job r)))"
proof (cases "store_Update (q_store q) r")
  case (Inr t)
  from js.status_of_update [OF Inr] js.update_get [OF Inr] assms show ?thesis
    by (auto simp: q_write_def Inr js.status_of_def)
next
  case (Inl e)
  have "js.status_of (q_store q) jid = None"
    using Inl js.update_total [of "q_store q" r] assms
    by (auto simp: js.status_of_def split: sum.splits)
  with Inl show ?thesis by (simp add: q_write_def)
qed

lemma q_read_id [simp]: "j_id (r_job (q_read ctx_ok q it)) = it_id it"
  by (auto simp: q_read_def store_Get_id split: sum.splits)

lemma q_transition_status:
  assumes "\<And>r. j_id (r_job (f r)) = j_id (r_job r)" "\<And>r. j_status (r_job (f r)) = s"
  shows "js.status_of (q_store (fst (q_transition True q it f))) =
    (if js.status_of (q_store q) (it_id it) = None then js.status_of (q_store q)
     else (js.status_of (q_store q))(it_id it \<mapsto> s))"
  using q_write_status [of "f (q_read True q it)" "it_id it" q] assms
  by (simp add: q_transition_def Let_def)

lemma q_transition_dead [simp]: "q_store (fst (q_transition False q it f)) = q_store q"
  by (simp add: q_transition_def q_write_def Let_def)

lemma set_status_simps [simp]:
  "j_id (r_job (set_canceled t r)) = j_id (r_job r)" "j_status (r_job (set_canceled t r)) = JobCanceled"
  "j_id (r_job (set_running t r)) = j_id (r_job r)" "j_status (r_job (set_running t r)) = JobRunning"
  by (simp_all add: set_canceled_def set_running_def)

lemma set_finished_id [simp]: "j_id (r_job (set_finished d t res e r)) = j_id (r_job r)"
  by (auto simp: set_finished_def Let_def split: option.splits gerr.splits)

lemma set_finished_status:
  "j_status (r_job (set_finished d t res e r)) =
    (case e of None \<Rightarrow> JobSucceeded | Some Canceled \<Rightarrow> if d then JobFailed else JobCanceled
     | Some _ \<Rightarrow> JobFailed)"
  by (auto simp: set_finished_def Let_def split: option.splits gerr.splits)

subsection \<open>Cancellation\<close>

definition q_holds :: "'r queue \<Rightarrow> string \<Rightarrow> bool" where
  "q_holds q jid \<longleftrightarrow> jid \<in> it_id ` set (q_items q) \<or> q_running q jid \<noteq> None"

lemma q_cancel_begin_None: "q_cancel_begin q jid = None \<longleftrightarrow> \<not> q_holds q jid"
proof (cases "take_item jid (q_items q)")
  case None
  then have "jid \<notin> it_id ` set (q_items q)" by simp
  then show ?thesis by (simp add: q_cancel_begin_def q_holds_def Let_def None split: option.split)
next
  case (Some p)
  then have "take_item jid (q_items q) \<noteq> None" by simp
  then have "q_holds q jid" by (simp add: q_holds_def)
  then show ?thesis by (simp add: q_cancel_begin_def Let_def Some split: prod.split)
qed

lemma q_cancel_begin_Some:
  assumes "q_cancel_begin q jid = Some (q1, it)" "line_ok q"
  shows "it_id it = jid \<and> q_items q1 = filter (\<lambda>x. it_id x \<noteq> jid) (q_items q)
    \<and> q_running q1 = q_running q \<and> q_store q1 = q_store q \<and> q_spool q1 = q_spool q
    \<and> q_hub q1 = q_hub q \<and> q_canceled q1 = insert jid (q_canceled q)
    \<and> q_ctx q1 = (if jid \<in> q_cancelfn q then insert jid (q_ctx q) else q_ctx q)"
proof (cases "take_item jid (q_items q)")
  case None
  then have "filter (\<lambda>x. it_id x \<noteq> jid) (q_items q) = q_items q" by (auto simp: filter_id_conv)
  with assms show ?thesis
    by (auto simp: q_cancel_begin_def Let_def line_ok_def None split: option.splits)
next
  case (Some p)
  then have ti: "take_item jid (q_items q) = Some (it, snd p)" "p = (it, snd p)"
    using assms(1) by (cases p, auto simp: q_cancel_begin_def Let_def)+
  from take_item_Some [OF ti(1)] obtain pre post where
    pp: "q_items q = pre @ it # post" "snd p = pre @ post" "it_id it = jid" by blast
  have "distinct (map it_id (pre @ it # post))" using assms(2) pp(1) by (simp add: line_ok_def)
  then have "\<forall>x\<in>set (pre @ post). it_id x \<noteq> jid" using pp(3) by (auto simp: image_iff)
  then have "filter (\<lambda>x. it_id x \<noteq> jid) pre = pre" "filter (\<lambda>x. it_id x \<noteq> jid) post = post"
    by (auto simp: filter_id_conv)
  with pp assms(1) ti show ?thesis by (auto simp: q_cancel_begin_def Let_def)
qed

lemma q_cancelStored_spec:
  "(case js.status_of (q_store q) jid of
      None \<Rightarrow> q_cancelStored rm_ok q jid t = (q, Some (Domain CodeJobNotFound []))
    | Some s \<Rightarrow> snd (q_cancelStored rm_ok q jid t) = None
        \<and> (if Terminal s then fst (q_cancelStored rm_ok q jid t) = q
           else js.status_of (q_store (fst (q_cancelStored rm_ok q jid t))) = (js.status_of (q_store q))(jid \<mapsto> JobCanceled)))
   \<and> q_items (fst (q_cancelStored rm_ok q jid t)) = q_items q"
proof (cases "store_Get (q_store q) jid")
  case (Inl e)
  then have "e = Domain CodeJobNotFound []" by (auto simp: store_Get_def split: option.splits)
  with Inl show ?thesis by (simp add: q_cancelStored_def js.status_of_def)
next
  case (Inr r)
  then have id: "j_id (r_job r) = jid" by (rule store_Get_id)
  then obtain t' where u: "store_Update (q_store q) (set_canceled t r) = Inr t'"
    using js.update_total [of "q_store q" "set_canceled t r" r] Inr by auto
  from js.status_of_update [OF u] id Inr u show ?thesis
    by (auto simp: q_cancelStored_def js.status_of_def Let_def)
qed

text \<open>Once a job is marked as cancelled, it stays so, whatever callers, workers and shutdown do.\<close>

lemma q_step_canceled: "q_step s s' \<Longrightarrow> q_canceled (fst s) \<subseteq> q_canceled (fst s')"
proof (induction rule: q_step.induct)
  case (pop q it q' n c)
  then show ?case by (auto simp: q_next_Popped)
next
  case (cancel q jid q' it n c)
  then show ?case by (auto simp: q_cancel_begin_def Let_def split: option.splits)
qed (auto simp: q_op_defs Let_def split: if_splits)

lemma q_later_canceled: "q_step\<^sup>*\<^sup>* s s' \<Longrightarrow> q_canceled (fst s) \<subseteq> q_canceled (fst s')"
  by (induction rule: rtranclp_induct) (auto dest: q_step_canceled)

lemma canceled_writes_nothing:
  assumes "it_id it \<in> q_canceled q"
  shows "q_store (fst (q_finish rm_ok q it res e t)) = q_store q \<and> snd (q_finish rm_ok q it res e t) = None"
    "q_store (fst (q_run rm_ok q it st res e t)) = q_store q \<and> snd (q_run rm_ok q it st res e t) = None"
  using assms by (auto simp: q_finish_def q_finish_begin_def q_run_def q_run_check_def)

text \<open>C14: cancelling under a live request context, against every state a job can be in. A job that is
  waiting or running is taken out of the line (the others keep their order) and its row, if it has one,
  ends canceled; whatever happens in the queue afterwards, a worker that then comes to run or to finish
  that job writes nothing to the store and tells no webhook. A job the queue does not hold is canceled in
  the store unless it is already over, in which case nothing at all changes; an unknown id is reported as
  such. (A job whose worker has passed the check of \<open>finish\<close> before the cancellation is one the queue
  no longer holds: what that worker still writes is the subject of \<open>finish_overwrites_cancel\<close>.)\<close>

theorem cancel_contract:
  assumes "q_reach (q, n, c)" "q_Cancel True rm_ok q jid now = (q', r)"
  shows "q_items q' = filter (\<lambda>x. it_id x \<noteq> jid) (q_items q)
    \<and> (if q_holds q jid then r = None
         \<and> js.status_of (q_store q') = (if js.status_of (q_store q) jid = None then js.status_of (q_store q)
              else (js.status_of (q_store q))(jid \<mapsto> JobCanceled))
         \<and> (\<forall>s it res e st t. q_step\<^sup>*\<^sup>* (q', n, c) s \<and> it_id it = jid \<longrightarrow>
              q_store (fst (q_finish rm_ok (fst s) it res e t)) = q_store (fst s) \<and> snd (q_finish rm_ok (fst s) it res e t) = None
              \<and> q_store (fst (q_run rm_ok (fst s) it st res e t)) = q_store (fst s) \<and> snd (q_run rm_ok (fst s) it st res e t) = None)
       else case js.status_of (q_store q) jid of
         None \<Rightarrow> r = Some (Domain CodeJobNotFound []) \<and> q' = q
       | Some s \<Rightarrow> r = None \<and> (if Terminal s then q' = q
           else js.status_of (q_store q') = (js.status_of (q_store q))(jid \<mapsto> JobCanceled)))"
proof (cases "q_cancel_begin q jid")
  case None
  then have nh: "\<not> q_holds q jid" by (simp add: q_cancel_begin_None)
  then have "filter (\<lambda>x. it_id x \<noteq> jid) (q_items q) = q_items q"
    by (auto simp: q_holds_def filter_id_conv)
  with nh None assms(2) q_cancelStored_spec [where q = q and jid = jid and rm_ok = rm_ok and t = now] show ?thesis
    by (auto simp: q_Cancel_def split: option.splits)
next
  case (Some p)
  then obtain q1 it where p: "q_cancel_begin q jid = Some (q1, it)" by (cases p) auto
  have "line_ok q" using q_reach_inv [OF assms(1)] by (simp add: q_inv_def)
  from q_cancel_begin_Some [OF p this] have f: "it_id it = jid"
    "q_items q1 = filter (\<lambda>x. it_id x \<noteq> jid) (q_items q)" "q_store q1 = q_store q"
    "q_canceled q1 = insert jid (q_canceled q)" by auto
  have h: "q_holds q jid" using p q_cancel_begin_None [of q jid] by auto
  have q': "q' = q_cancel_end True rm_ok q1 it jid now" "r = None"
    using assms(2) p by (auto simp: q_Cancel_def)
  have st: "js.status_of (q_store q') = (if js.status_of (q_store q) jid = None then js.status_of (q_store q)
      else (js.status_of (q_store q))(jid \<mapsto> JobCanceled))"
    using q_transition_status [of "set_canceled now" JobCanceled q1 it] f(1,3)
    by (simp add: q' q_cancel_end_def Let_def)
  have "jid \<in> q_canceled q'" using f(4) by (simp add: q' q_cancel_end_def Let_def)
  then have later: "jid \<in> q_canceled (fst s)" if "q_step\<^sup>*\<^sup>* (q', n, c) s" for s
    using q_later_canceled [OF that] by auto
  have "\<forall>s it res e st t. q_step\<^sup>*\<^sup>* (q', n, c) s \<and> it_id it = jid \<longrightarrow>
      q_store (fst (q_finish rm_ok (fst s) it res e t)) = q_store (fst s) \<and> snd (q_finish rm_ok (fst s) it res e t) = None
      \<and> q_store (fst (q_run rm_ok (fst s) it st res e t)) = q_store (fst s) \<and> snd (q_run rm_ok (fst s) it st res e t) = None"
    using later canceled_writes_nothing by blast
  with h f(2) st q'(2) show ?thesis by (simp add: q' q_cancel_end_def Let_def)
qed

theorem cancel_contract_witness:
  "q_items (fst (q_Cancel True (\<lambda>_. True) demo_busy ''a'' 9)) = []
   \<and> snd (q_Cancel True (\<lambda>_. True) demo_busy ''a'' 9) = None
   \<and> snd (q_Cancel True (\<lambda>_. True) demo_busy ''zz'' 9) = Some (Domain CodeJobNotFound [])"
proof -
  have i: "q_items demo_busy = [demo_item ''a'' 0 5]" "q_running demo_busy = Map.empty" "q_store demo_busy = []"
    by (simp_all add: demo_busy_def q_enqueue_def q_unreserve_def Let_def demo_queue_def q_New_def q_sort_def)
  have a: "it_id (demo_item ''a'' 0 5) = ''a''" by (simp add: demo_item_def)
  have h: "q_holds demo_busy ''a''" "\<not> q_holds demo_busy ''zz''" by (simp_all add: q_holds_def i a)
  have s: "js.status_of ([] :: nat table) ''zz'' = None" by (simp add: js.status_of_def store_Get_def)
  let ?x = "q_Cancel True (\<lambda>_. True) demo_busy ''a'' 9" and ?y = "q_Cancel True (\<lambda>_. True) demo_busy ''zz'' 9"
  obtain q1 r1 q2 r2 where e: "?x = (q1, r1)" "?y = (q2, r2)" by (metis surj_pair)
  from cancel_contract [OF demo_busy_reach e(1)] h have "q_items q1 = []" "r1 = None" by (simp_all add: i a)
  moreover from cancel_contract [OF demo_busy_reach e(2)] h s have "r2 = Some (Domain CodeJobNotFound [])"
    by (simp add: i)
  ultimately show ?thesis by (simp add: e)
qed

subsection \<open>Races with a start and with an end\<close>

lemma publish_live:
  assumes "\<not> Terminal (j_status j)"
  shows "\<exists>t. h_topics (hub_Publish h j) (j_id j) = Some t \<and> t_last t = j"
  using assms by (auto simp: hub_Publish_def publish_topic_def Let_def split: option.splits prod.splits)

text \<open>A state with the job \<open>a\<close> running and its row at a given status, and one with it waiting.\<close>

definition demo_running :: "job_status \<Rightarrow> nat queue" where
  "demo_running st = demo_busy\<lparr>q_items := [], q_running := [''a'' \<mapsto> demo_item ''a'' 0 5],
     q_store := [(insert_row (demo_rec ''a'' 5))\<lparr>c_status := st\<rparr>]\<rparr>"

lemma demo_item_id [simp]: "it_id (demo_item jid p e) = jid" by (simp add: demo_item_def)

lemma demo_running_simps:
  "q_running (demo_running st) = [''a'' \<mapsto> demo_item ''a'' 0 5]" "q_canceled (demo_running st) = {}"
  "js.status_of (q_store (demo_running st)) ''a'' = Some st"
  by (simp_all add: demo_running_def demo_busy_def q_enqueue_def q_unreserve_def Let_def demo_queue_def
      q_New_def js.status_of_def store_Get_def insert_row_def scanRecord_def)

lemma demo_running_reach: "q_reach (demo_running st, 0, 0)"
proof -
  let ?q1 = "demo_busy\<lparr>q_items := [], q_running := [''a'' \<mapsto> demo_item ''a'' 0 5]\<rparr>"
  have "q_next demo_busy = Popped (demo_item ''a'' 0 5) ?q1"
    by (simp add: q_next_def demo_busy_def q_enqueue_def q_unreserve_def Let_def demo_queue_def
        q_New_def q_sort_def demo_item_def)
  from q_reach.step [OF demo_busy_reach q_step.pop [OF this]] have r: "q_reach (?q1, 0, 0)" .
  have "demo_running st = ?q1\<lparr>q_store := [(insert_row (demo_rec ''a'' 5))\<lparr>c_status := st\<rparr>],
      q_spool := q_spool ?q1, q_hub := q_hub ?q1\<rparr>" by (simp add: demo_running_def)
  then show ?thesis using q_reach.step [OF r q_step.services] by metis
qed

text \<open>A cancellation that meets a job being started. The worker has read the flag (not
  cancelled) and its cancel function is in place; whether the cancellation comes before the
  worker reads the row, between its read and its write, or after, the row ends canceled: the
  cancelled context makes the late write fail. The hub has no such guard: when the worker
  publishes last, the stream of the canceled job is live again with a running event.\<close>

theorem cancel_races_start:
  fixes q :: "'r queue" and rm_ok t s
  assumes reach: "q_reach (q, n, c)" and run: "q_running q jid = Some it"
    and check: "q_run_check q it = (q1, False)" and row: "js.status_of (q_store q) jid \<noteq> None"
  defines "late \<equiv> (let q2 = fst (q_Cancel True rm_ok q1 jid t) in q_run_start False q2 it s)"
    and "between \<equiv> (let r = set_running s (q_read (jid \<notin> q_ctx q1) q1 it);
                         q2 = fst (q_Cancel True rm_ok q1 jid t)
                     in q_publish (q_write (jid \<notin> q_ctx q2) q2 r) (r_job r))"
    and "early \<equiv> fst (q_Cancel True rm_ok (q_run_start False q1 it s) jid t)"
  shows "js.status_of (q_store late) jid = Some JobCanceled
    \<and> js.status_of (q_store between) jid = Some JobCanceled
    \<and> js.status_of (q_store early) jid = Some JobCanceled
    \<and> (\<exists>tp. h_topics (q_hub late) jid = Some tp \<and> j_status (t_last tp) = JobRunning)
    \<and> (\<exists>tp. h_topics (q_hub between) jid = Some tp \<and> j_status (t_last tp) = JobRunning)"
proof -
  have lo: "line_ok q" using q_reach_inv [OF reach] by (simp add: q_inv_def)
  then have id: "it_id it = jid" using run by (auto simp: line_ok_def)
  have q1: "q1 = q\<lparr>q_cancelfn := insert jid (q_cancelfn q)\<rparr>" using check id by (auto simp: q_run_check_def)
  have lo1: "line_ok q1" using lo by (simp add: line_ok_def q1)
  have hold: "q_cancel_begin x jid \<noteq> None" if "q_running x = q_running q" for x :: "'r queue"
    using run that by (simp add: q_cancel_begin_None q_holds_def)
  have C: "js.status_of (q_store (fst (q_Cancel True rm_ok x jid t))) jid = Some JobCanceled
      \<and> jid \<in> q_ctx (fst (q_Cancel True rm_ok x jid t))"
    if x: "q_running x = q_running q" "q_items x = q_items q" "jid \<in> q_cancelfn x"
      "js.status_of (q_store x) jid \<noteq> None" for x :: "'r queue"
  proof -
    obtain x1 i where b: "q_cancel_begin x jid = Some (x1, i)" using hold [OF x(1)] by auto
    have "line_ok x" using lo x(1,2) by (simp add: line_ok_def)
    from q_cancel_begin_Some [OF b this] have f: "it_id i = jid" "q_store x1 = q_store x"
      "q_ctx x1 = insert jid (q_ctx x)" using x(3) by auto
    show ?thesis using q_transition_status [of "set_canceled t" JobCanceled x1 i] f x(4)
      by (auto simp: q_Cancel_def b q_cancel_end_def Let_def)
  qed
  have c1: "js.status_of (q_store (fst (q_Cancel True rm_ok q1 jid t))) jid = Some JobCanceled"
      "jid \<in> q_ctx (fst (q_Cancel True rm_ok q1 jid t))"
    using C [of q1] row by (simp_all add: q1)
  have "js.status_of (q_store (q_run_start False q1 it s)) jid \<noteq> None"
    using q_transition_status [of "set_running s" JobRunning q1 it] row id
    by (cases "jid \<in> q_ctx q1") (auto simp: q_run_start_def q1)
  then have early: "js.status_of (q_store early) jid = Some JobCanceled"
    unfolding early_def using C [of "q_run_start False q1 it s"] by (simp add: q_run_start_def q1)
  have late: "js.status_of (q_store late) jid = Some JobCanceled"
    using c1 id by (simp add: late_def q_run_start_def Let_def)
  have between: "js.status_of (q_store between) jid = Some JobCanceled"
    using c1 by (simp add: between_def q_write_def Let_def)
  have pub: "\<exists>tp. h_topics (hub_Publish h (r_job (set_running s r))) jid = Some tp
      \<and> j_status (t_last tp) = JobRunning" if "j_id (r_job r) = jid" for h and r :: "'r jrec"
    using publish_live [of "r_job (set_running s r)" h] that by auto
  show ?thesis using late between early pub id
    by (simp add: late_def between_def q_run_start_def q_transition_def Let_def)
qed

theorem cancel_races_start_witness:
  "\<exists>q1. q_run_check (demo_running JobQueued) (demo_item ''a'' 0 5) = (q1, False)
     \<and> js.status_of (q_store (q_run_start False (fst (q_Cancel True (\<lambda>_. True) q1 ''a'' 9))
          (demo_item ''a'' 0 5) 8)) ''a'' = Some JobCanceled"
proof -
  let ?q1 = "fst (q_run_check (demo_running JobQueued) (demo_item ''a'' 0 5))"
  have c: "q_run_check (demo_running JobQueued) (demo_item ''a'' 0 5) = (?q1, False)"
    by (simp add: q_run_check_def demo_running_simps)
  have "js.status_of (q_store (q_run_start False (fst (q_Cancel True (\<lambda>_. True) ?q1 ''a'' 9))
          (demo_item ''a'' 0 5) 8)) ''a'' = Some JobCanceled"
    using cancel_races_start [OF demo_running_reach _ c, of "''a''" "\<lambda>_. True" 9 8]
    by (simp add: demo_running_simps Let_def)
  with c show ?thesis by blast
qed

text \<open>A cancellation that meets a job being finished. Once the worker has taken the job out
  of the running set, \<open>Cancel\<close> finds it only in the store, writes canceled there and tells
  the client it succeeded; the worker then writes its own outcome over the terminal status.\<close>

theorem finish_overwrites_cancel:
  fixes q :: "'r queue" and rm_ok t res f
  assumes reach: "q_reach (q, n, c)" and run: "q_running q jid = Some it"
    and fin: "q_finish_begin q it = (q1, False)" and row: "js.status_of (q_store q) jid = Some JobRunning"
  defines "x \<equiv> q_Cancel True rm_ok q1 jid t"
  defines "y \<equiv> q_finish_end rm_ok (fst x) it res None f"
  shows "snd x = None \<and> js.status_of (q_store (fst x)) jid = Some JobCanceled
    \<and> js.status_of (q_store (fst y)) jid = Some JobSucceeded"
proof -
  have lo: "line_ok q" using q_reach_inv [OF reach] by (simp add: q_inv_def)
  then have id: "it_id it = jid" using run by (auto simp: line_ok_def)
  have q1: "q1 = q\<lparr>q_running := (q_running q)(jid := None)\<rparr>" using fin id by (auto simp: q_finish_begin_def)
  have "jid \<notin> it_id ` set (q_items q)" using lo run by (auto simp: line_ok_def)
  then have "q_cancel_begin q1 jid = None" by (simp add: q_cancel_begin_None q_holds_def q1)
  then have x: "snd x = None" "js.status_of (q_store (fst x)) jid = Some JobCanceled"
    using q_cancelStored_spec [where q = q1 and jid = jid and rm_ok = rm_ok and t = t] row by (simp_all add: x_def q_Cancel_def q1 Terminal_def)
  have "js.status_of (q_store (fst (q_transition True (fst x) it
      (set_finished (q_stopped (fst x)) f res None)))) jid = Some JobSucceeded"
    using q_transition_status [of "set_finished (q_stopped (fst x)) f res None" JobSucceeded "fst x" it] x(2) id
    by (simp add: set_finished_status)
  with x show ?thesis by (simp add: y_def q_finish_end_def split: prod.split) (metis fst_conv)
qed

theorem finish_overwrites_cancel_witness:
  "\<exists>q1. q_finish_begin (demo_running JobRunning) (demo_item ''a'' 0 5) = (q1, False)
     \<and> snd (q_Cancel True (\<lambda>_. True) q1 ''a'' 9) = None
     \<and> js.status_of (q_store (fst (q_finish_end (\<lambda>_. True) (fst (q_Cancel True (\<lambda>_. True) q1 ''a'' 9))
          (demo_item ''a'' 0 5) (Some (1, ''m'', 2)) None 10))) ''a'' = Some JobSucceeded"
proof -
  let ?q1 = "fst (q_finish_begin (demo_running JobRunning) (demo_item ''a'' 0 5))"
  have c: "q_finish_begin (demo_running JobRunning) (demo_item ''a'' 0 5) = (?q1, False)"
    by (simp add: q_finish_begin_def demo_running_simps)
  from finish_overwrites_cancel [OF demo_running_reach _ c, of "''a''" "\<lambda>_. True" 9 "Some (1, ''m'', 2)" 10] c
  show ?thesis by (intro exI [of _ ?q1]) (simp add: demo_running_simps)
qed

text \<open>A cancellation whose request context is cancelled on the way (the client hung up)
  still takes the job out of the line, removes its audio and reports success, but the row keeps
  its status: a waiting job stays queued in the store with nothing to run it.\<close>

theorem dead_context_strands_row:
  fixes q :: "'r queue" and rm_ok t jid
  assumes "q_reach (q, n, c)" "q_holds q jid" "rm_ok (spool_Name jid)"
  defines "x \<equiv> q_Cancel False rm_ok q jid t"
  shows "snd x = None \<and> jid \<notin> it_id ` set (q_items (fst x)) \<and> q_store (fst x) = q_store q
    \<and> spool_Name jid \<notin> sp_files (q_spool (fst x))"
proof -
  have lo: "line_ok q" using q_reach_inv [OF assms(1)] by (simp add: q_inv_def)
  obtain q1 it where b: "q_cancel_begin q jid = Some (q1, it)"
    using assms(2) q_cancel_begin_None [of q jid] by (cases "q_cancel_begin q jid") auto
  from q_cancel_begin_Some [OF b lo] have f: "q_items q1 = filter (\<lambda>x. it_id x \<noteq> jid) (q_items q)"
    "q_store q1 = q_store q" by auto
  have "sp_files (spool_Remove rm_ok s jid) = sp_files s - {spool_Name jid}" for s
    using assms(3) by (auto simp: spool_Remove_def spool_Release_def Let_def split: option.splits)
  with f show ?thesis by (auto simp: x_def q_Cancel_def b q_cancel_end_def Let_def)
qed

theorem dead_context_strands_row_witness:
  "snd (q_Cancel False (\<lambda>_. True) (demo_running JobQueued) ''a'' 9) = None
   \<and> js.status_of (q_store (fst (q_Cancel False (\<lambda>_. True) (demo_running JobQueued) ''a'' 9))) ''a'' = Some JobQueued"
  using dead_context_strands_row [OF demo_running_reach, of JobQueued "''a''" "\<lambda>_. True" 9]
  by (simp add: demo_running_simps q_holds_def)

subsection \<open>Recovery and the sweep\<close>

lemma q_enqueue_resume:
  assumes "0 \<le> q_admitted q"
  shows "q_items (q_enqueue (q_resume q) it) = q_sort (q_items q @ [it])"
    "q_admitted (q_enqueue (q_resume q) it) = q_admitted q"
    "q_store (q_enqueue (q_resume q) it) = q_store q" "q_spool (q_enqueue (q_resume q) it) = q_spool q"
  using assms by (simp_all add: q_enqueue_def q_resume_def q_unreserve_def Let_def)

lemma q_failRecovered_frame [simp]:
  "q_items (q_failRecovered q r t) = q_items q" "q_admitted (q_failRecovered q r t) = q_admitted q"
  "q_spool (q_failRecovered q r t) = q_spool q"
  by (auto simp: q_failRecovered_def Let_def split: sum.splits)

lemma q_failRecovered_status:
  "js.status_of (q_store (q_failRecovered q r t)) =
    (if js.status_of (q_store q) (j_id (r_job r)) = None then js.status_of (q_store q)
     else (js.status_of (q_store q))(j_id (r_job r) \<mapsto> JobFailed))"
proof -
  let ?r = "r\<lparr>r_job := (r_job r)\<lparr>j_status := JobFailed, j_finished := Some t,
              j_error := Some (CodeOther ''audio_missing'', [])\<rparr>\<rparr>"
  have "q_store (q_failRecovered q r t) = q_store (q_write True q ?r)"
    by (simp add: q_failRecovered_def q_write_def Let_def split: sum.split)
  with q_write_status [of ?r "j_id (r_job r)" q] show ?thesis by simp
qed

definition recovered_item :: "'r jrec \<Rightarrow> item" where
  "recovered_item r = \<lparr>it_id = j_id (r_job r),
     it_req = params_Request (r_params r) (Some (Audio OwnFile (j_filename (r_job r)) (r_audio_bytes r))) (r_api_key r),
     it_prio = r_priority r, it_enq = j_created (r_job r)\<rparr>"

lemma recovered_item_id [simp]: "it_id (recovered_item r) = j_id (r_job r)"
  by (simp add: recovered_item_def)

lemma recover_one_alt:
  "recover_one now (q, live) r =
    (if spool_Name (j_id (r_job r)) \<notin> sp_files (q_spool q) then (q_failRecovered q r now, live)
     else (q_enqueue (q_resume q) (recovered_item r), live(j_id (r_job r) \<mapsto> r_audio_bytes r)))"
  by (simp add: recover_one_def recovered_item_def Let_def)

lemma recover_fold:
  assumes "0 \<le> q_admitted q" "foldl (recover_one now) (q, live) rs = (q', live')"
    "distinct (map (\<lambda>r. j_id (r_job r)) rs)"
  defines "have_audio \<equiv> \<lambda>r. spool_Name (j_id (r_job r)) \<in> sp_files (q_spool q)"
  shows "q_spool q' = q_spool q \<and> q_admitted q' = q_admitted q
    \<and> mset (q_items q') = mset (q_items q) + mset (map recovered_item (filter have_audio rs))
    \<and> dom live' = dom live \<union> (\<lambda>r. j_id (r_job r)) ` set (filter have_audio rs)
    \<and> (\<forall>k. js.status_of (q_store q') k =
         (if js.status_of (q_store q) k \<noteq> None \<and> k \<in> (\<lambda>r. j_id (r_job r)) ` set (filter (Not \<circ> have_audio) rs)
          then Some JobFailed else js.status_of (q_store q) k))"
  using assms(1-3) unfolding have_audio_def
proof (induction rs arbitrary: q live)
  case (Cons r rs)
  let ?id = "\<lambda>r :: 'a jrec. j_id (r_job r)"
  obtain q1 live1 where one: "recover_one now (q, live) r = (q1, live1)" by (cases "recover_one now (q, live) r")
  show ?case
  proof (cases "spool_Name (?id r) \<in> sp_files (q_spool q)")
    case True
    then have q1: "q1 = q_enqueue (q_resume q) (recovered_item r)" "live1 = live(?id r \<mapsto> r_audio_bytes r)"
      using one by (auto simp: recover_one_alt)
    note f = q_enqueue_resume [OF Cons.prems(1), of "recovered_item r", folded q1(1)]
    have "0 \<le> q_admitted q1" "foldl (recover_one now) (q1, live1) rs = (q', live')" "distinct (map ?id rs)"
      using Cons.prems one f by auto
    note IH = Cons.IH [OF this]
    have "dom live1 = insert (?id r) (dom live)" by (simp add: q1(2))
    with IH True show ?thesis by (auto simp: f q_sort_def)
  next
    case False
    then have q1: "q1 = q_failRecovered q r now" "live1 = live" using one by (auto simp: recover_one_alt)
    have "0 \<le> q_admitted q1" "foldl (recover_one now) (q1, live1) rs = (q', live')" "distinct (map ?id rs)"
      using Cons.prems one by (auto simp: q1)
    note IH = Cons.IH [OF this]
    show ?thesis using IH False q_failRecovered_status [of q r now] by (auto simp: q1)
  qed
qed simp

lemma sweep_keeps_live:
  "n \<in> sp_files (fst st) \<Longrightarrow> n = spool_Name jid \<Longrightarrow> jid \<noteq> [] \<Longrightarrow> live jid \<noteq> None \<Longrightarrow>
    n \<in> sp_files (fst (foldl (sweep_entry rm_ok live) st es))"
proof (induction es arbitrary: st)
  case (Cons e es)
  have "n \<in> sp_files (fst (sweep_entry rm_ok live st e))"
    using Cons.prems by (cases st; cases e)
      (auto dest: spool_Reserve_files simp: spool_JobID_Name split: option.splits sum.splits)
  then show ?case using Cons by simp
qed simp

lemma Pending_ids:
  "distinct (map c_id t) \<Longrightarrow> distinct (map (\<lambda>r. j_id (r_job r)) (store_Pending t))"
proof -
  assume d: "distinct (map c_id t)"
  have "map (\<lambda>r. j_id (r_job r)) (store_Pending t) =
      map c_id (sort_key (\<lambda>w. (c_created w, c_id w)) (filter (\<lambda>w. c_status w = JobQueued) t))"
    by (simp add: store_Pending_def scanRecord_def)
  moreover have "mset (map c_id (sort_key (\<lambda>w. (c_created w, c_id w)) (filter (\<lambda>w. c_status w = JobQueued) t)))
      = mset (map c_id (filter (\<lambda>w. c_status w = JobQueued) t))" by simp
  ultimately show ?thesis using d
    by (metis (no_types, lifting) distinct_map_filter mset_eq_imp_distinct_iff)
qed

lemma Pending_status: "r \<in> set (store_Pending t) \<Longrightarrow> js.status_of t (j_id (r_job r)) \<noteq> None"
  by (fastforce simp: store_Pending_def js.status_of_def store_Get_def scanRecord_def find_None_iff
      split: option.splits)

text \<open>C15: after a restart no accepted job is lost. Recovery in front of the sweep puts every
  queued job whose audio survived back in line, with the request it was accepted with, past the
  queue's size if need be and without using up admissions; the sweep that follows, given what
  recovery says is live, deletes none of their files. Every queued job whose audio is gone is
  failed; no other row changes its status.\<close>

theorem recover_then_sweep_loses_nothing:
  fixes q :: "'r queue" and rm_ok es
  assumes "0 \<le> q_admitted q" "q_items q = []" "distinct (map c_id (q_store q))"
    and "\<forall>w\<in>set (q_store q). c_id w \<noteq> []" "q_Recover q now = (q', live)"
  defines "pending \<equiv> store_Pending (q_store q)"
    and "have_audio \<equiv> \<lambda>r. spool_Name (j_id (r_job r)) \<in> sp_files (q_spool q)"
    and "swept \<equiv> fst (spool_Sweep rm_ok live (q_spool q') es)"
  shows "mset (q_items q') = mset (map recovered_item (filter have_audio pending))
    \<and> q_admitted q' = q_admitted q
    \<and> (\<forall>it\<in>set (q_items q'). spool_Name (it_id it) \<in> sp_files swept)
    \<and> (\<forall>k. js.status_of (q_store q') k =
         (if k \<in> (\<lambda>r. j_id (r_job r)) ` set (filter (Not \<circ> have_audio) pending)
          then Some JobFailed else js.status_of (q_store q) k))"
proof -
  note R = recover_fold [OF assms(1) assms(5) [unfolded q_Recover_def] Pending_ids [OF assms(3)],
      folded pending_def have_audio_def]
  have ms: "mset (q_items q') = mset (map recovered_item (filter have_audio pending))"
    using R assms(2) by simp
  have st: "js.status_of (q_store q') k =
         (if k \<in> (\<lambda>r. j_id (r_job r)) ` set (filter (Not \<circ> have_audio) pending)
          then Some JobFailed else js.status_of (q_store q) k)" for k
    using R unfolding pending_def by (auto dest: Pending_status split: if_splits)
  have "spool_Name (it_id it) \<in> sp_files swept" if "it \<in> set (q_items q')" for it
  proof -
    have "it \<in># mset (q_items q')" using that by simp
    then obtain r where r: "r \<in> set pending" "have_audio r" "it = recovered_item r"
      unfolding ms by auto
    have "j_id (r_job r) \<noteq> []" using r(1) assms(4)
      by (auto simp: pending_def store_Pending_def scanRecord_def)
    moreover have "live (j_id (r_job r)) \<noteq> None" using R r(1,2) by (auto simp: set_eq_iff dom_def)
    moreover have "spool_Name (j_id (r_job r)) \<in> sp_files (q_spool q')"
      using R r(2) by (simp add: have_audio_def)
    ultimately show ?thesis
      unfolding swept_def spool_Sweep_def r(3) recovered_item_id
      by (intro sweep_keeps_live [OF _ refl]) simp_all
  qed
  with ms st R show ?thesis by blast
qed

definition demo_restart :: "nat queue" where
  "demo_restart = q_New 1 True [insert_row (demo_rec ''a'' 5), insert_row (demo_rec ''b'' 6)]
     (spool_New 10 {''job-a.audio'', ''job-x.audio''}) (NewHub 4)"

theorem recover_then_sweep_loses_nothing_witness:
  "\<exists>q' live. q_Recover demo_restart 9 = (q', live)
     \<and> js.status_of (q_store q') ''b'' = Some JobFailed \<and> js.status_of (q_store q') ''a'' = Some JobQueued
     \<and> map it_id (q_items q') = [''a'']"
proof -
  obtain q' live where R: "q_Recover demo_restart 9 = (q', live)" by (cases "q_Recover demo_restart 9")
  have d: "q_admitted demo_restart = 0" "q_items demo_restart = []"
    "q_store demo_restart = [insert_row (demo_rec ''a'' 5), insert_row (demo_rec ''b'' 6)]"
    "sp_files (q_spool demo_restart) = {''job-a.audio'', ''job-x.audio''}"
    by (simp_all add: demo_restart_def q_New_def spool_New_def)
  have i: "c_id (insert_row (demo_rec jid t)) = jid" "c_status (insert_row (demo_rec jid t)) = JobQueued" for jid t
    by (simp_all add: insert_row_def Let_def)
  have pend: "mset (store_Pending (q_store demo_restart)) =
      {#scanRecord (insert_row (demo_rec ''a'' 5)), scanRecord (insert_row (demo_rec ''b'' 6))#}"
    by (simp add: store_Pending_def d i)
  have pset: "set (store_Pending (q_store demo_restart)) =
      {scanRecord (insert_row (demo_rec ''a'' 5)), scanRecord (insert_row (demo_rec ''b'' 6))}"
    using arg_cong [OF pend, of set_mset] by simp
  have j: "j_id (r_job (scanRecord (insert_row (demo_rec jid t)))) = jid" for jid t
    by (simp add: scanRecord_def i)
  have st: "js.status_of (q_store demo_restart) ''a'' = Some JobQueued"
      "js.status_of (q_store demo_restart) ''b'' = Some JobQueued"
    by (simp_all add: d js.status_of_def store_Get_def i scanRecord_def)
  have T: "mset (q_items q') = mset (map recovered_item (filter
       (\<lambda>r. spool_Name (j_id (r_job r)) \<in> sp_files (q_spool demo_restart)) (store_Pending (q_store demo_restart))))"
    "\<forall>k. js.status_of (q_store q') k = (if k \<in> (\<lambda>r. j_id (r_job r)) ` set (filter
       (Not \<circ> (\<lambda>r. spool_Name (j_id (r_job r)) \<in> sp_files (q_spool demo_restart))) (store_Pending (q_store demo_restart)))
     then Some JobFailed else js.status_of (q_store demo_restart) k)"
    using recover_then_sweep_loses_nothing [OF _ _ _ _ R, where rm_ok = "\<lambda>_. True" and es = "[]"]
    by (simp_all add: d i)
  have "mset (q_items q') = {#recovered_item (scanRecord (insert_row (demo_rec ''a'' 5)))#}"
    unfolding T(1) by (simp add: pend [unfolded d] j d spool_Name_def)
  then have "q_items q' = [recovered_item (scanRecord (insert_row (demo_rec ''a'' 5)))]" by simp
  moreover have "js.status_of (q_store q') ''b'' = Some JobFailed" "js.status_of (q_store q') ''a'' = Some JobQueued"
    using T(2) st by (auto simp: pset [unfolded d] j d spool_Name_def image_iff)
  ultimately show ?thesis using R by (simp add: j)
qed

end
