(* ===== verification/Variant.thy ===== *)
theory Variant
  imports Core "HOL-Library.Word"
begin

section \<open>Recogniser variants and hotword support (internal/asr/variant.go, hotwords.go)\<close>

text \<open>
  The part of a recogniser's configuration a request may ask for, the key its instance has in
  the pool, and what may reach the loader at all. The strings of a variant are its bytes. The
  hash (SHA-256, written in hexadecimal) and the printing of a float32 are parameters.
\<close>

record variant =
  v_method :: string
  v_paths :: int
  v_hotwords :: string
  v_score :: "32 word"

text \<open>The score is a float32, kept as its bits: what is zero, and what is not a number.\<close>

definition zero32 :: "32 word \<Rightarrow> bool" where
  "zero32 b \<longleftrightarrow> uint b mod 2 ^ 31 = 0"

definition nan32 :: "32 word \<Rightarrow> bool" where
  "nan32 b \<longleftrightarrow> uint b mod 2 ^ 31 > 2139095040"

definition variant_Zero :: "variant \<Rightarrow> bool" where
  "variant_Zero v \<longleftrightarrow> v_method v = [] \<and> v_paths v = 0 \<and> v_hotwords v = [] \<and> zero32 (v_score v)"

text \<open>What is written to the hash: every part after its length and a zero byte.\<close>

definition key_part :: "string \<Rightarrow> string" where
  "key_part p = FormatInt (int (length p)) @ CHR 0x00 # p"

definition key_bytes :: "(32 word \<Rightarrow> string) \<Rightarrow> variant \<Rightarrow> string" where
  "key_bytes fmt v =
     concat (map key_part [v_method v, FormatInt (v_paths v), v_hotwords v, fmt (v_score v)])"

definition variant_Key :: "(string \<Rightarrow> string) \<Rightarrow> (32 word \<Rightarrow> string) \<Rightarrow> variant \<Rightarrow> string" where
  "variant_Key sha_hex fmt v = (if variant_Zero v then [] else take 12 (sha_hex (key_bytes fmt v)))"

fun commas :: "string list \<Rightarrow> string" where
  "commas [] = []"
| "commas [s] = s"
| "commas (s # ss) = s @ '','' @ commas ss"

definition variant_String :: "variant \<Rightarrow> string" where
  "variant_String v =
     (if variant_Zero v then []
      else commas ((if v_method v \<noteq> [] then [v_method v] else [])
        @ (if v_paths v > 0 then [''paths='' @ FormatInt (v_paths v)] else [])
        @ (if v_hotwords v \<noteq> []
           then [''hotwords='' @ FormatInt (int (length (filter (\<lambda>c. c = CHR 0x0A) (v_hotwords v))) + 1)]
           else [])))"

definition variantKey :: "(string \<Rightarrow> string) \<Rightarrow> (32 word \<Rightarrow> string) \<Rightarrow> string \<Rightarrow> variant \<Rightarrow> string" where
  "variantKey sha_hex fmt mid v =
     (if variant_Zero v then mid else mid @ ''!'' @ variant_Key sha_hex fmt v)"

lemma key_part_inj:
  assumes "key_part p @ r = key_part q @ s"
  shows "p = q \<and> r = s"
proof -
  have n: "CHR 0x00 \<notin> set (FormatInt i)" for i by (rule FormatInt_notin) (simp_all add: is_digit_def)
  have "FormatInt (int (length p)) @ CHR 0x00 # (p @ r) = FormatInt (int (length q)) @ CHR 0x00 # (q @ s)"
    using assms by (simp add: key_part_def)
  from takeWhile_dropWhile_at [OF n n this] show ?thesis by (auto simp: FormatInt_inj)
qed

text \<open>No two configurations share the bytes their key is computed from, so that two requests
  share a recogniser only when they ask for the same thing (or the hash collides); and only the
  request that asks for nothing gets the base instance.\<close>

theorem variant_key_separates:
  assumes "inj_on fmt {b. \<not> nan32 b}" "\<not> nan32 (v_score v)" "\<not> nan32 (v_score w)"
  shows "(key_bytes fmt v = key_bytes fmt w \<longleftrightarrow> v = w)
    \<and> (\<forall>sha mid. variantKey sha fmt mid v = mid \<longleftrightarrow> variant_Zero v)"
proof
  show "key_bytes fmt v = key_bytes fmt w \<longleftrightarrow> v = w"
  proof
    assume "key_bytes fmt v = key_bytes fmt w"
    then have "key_part (v_method v) @ key_part (FormatInt (v_paths v)) @ key_part (v_hotwords v)
          @ key_part (fmt (v_score v)) @ []
      = key_part (v_method w) @ key_part (FormatInt (v_paths w)) @ key_part (v_hotwords w)
          @ key_part (fmt (v_score w)) @ []"
      by (simp add: key_bytes_def)
    then have "v_method v = v_method w \<and> FormatInt (v_paths v) = FormatInt (v_paths w)
      \<and> v_hotwords v = v_hotwords w \<and> fmt (v_score v) = fmt (v_score w)"
      by (metis key_part_inj)
    then have "v_method v = v_method w \<and> v_paths v = v_paths w \<and> v_hotwords v = v_hotwords w
        \<and> v_score v = v_score w"
      using inj_onD [OF assms(1)] assms(2,3) by (simp add: FormatInt_inj)
    then show "v = w" by (cases v; cases w) simp
  qed simp
qed (simp add: variantKey_def)

theorem variant_key_separates_witness:
  "key_bytes (FormatInt \<circ> uint) \<lparr>v_method = ''ab'', v_paths = 4, v_hotwords = [], v_score = 0\<rparr>
     \<noteq> key_bytes (FormatInt \<circ> uint) \<lparr>v_method = ''a'', v_paths = 4, v_hotwords = ''b'', v_score = 0\<rparr>"
proof -
  have "inj_on (FormatInt \<circ> uint) {b :: 32 word. \<not> nan32 b}" by (auto simp: inj_on_def FormatInt_inj intro: word_uint_eqI)
  from variant_key_separates [OF this, of "\<lparr>v_method = ''ab'', v_paths = 4, v_hotwords = [], v_score = 0\<rparr>"
      "\<lparr>v_method = ''a'', v_paths = 4, v_hotwords = ''b'', v_score = 0\<rparr>"]
  show ?thesis by (simp add: nan32_def)
qed

subsection \<open>The phrases as the recogniser reads them\<close>

datatype modeling_unit = UnitBPE | UnitChar | UnitCJKChar | UnitCJKCharBPE | UnitOther string

fun spaceOutRunes :: "runes \<Rightarrow> runes" where
  "spaceOutRunes [] = []"
| "spaceOutRunes [r] = [r]"
| "spaceOutRunes (r # rs) = r # 32 # spaceOutRunes rs"

fun hotword_lines :: "modeling_unit \<Rightarrow> runes list \<Rightarrow> gerr + runes list" where
  "hotword_lines u [] = Inr []"
| "hotword_lines u (w # ws) =
     (let w = trim_space w in
      if w = [] then hotword_lines u ws
      else if 10 \<in> set w \<or> 13 \<in> set w then Inl (Domain CodeInvalidRequest ''hotwords'')
      else (case hotword_lines u ws of
              Inl e \<Rightarrow> Inl e
            | Inr ls \<Rightarrow> Inr ((if u = UnitCJKChar then spaceOutRunes w else w) # ls)))"

definition hotword_Buffer :: "modeling_unit \<Rightarrow> runes list \<Rightarrow> gerr + runes" where
  "hotword_Buffer u ws = (case hotword_lines u ws of
     Inl e \<Rightarrow> Inl e | Inr ls \<Rightarrow> Inr (if ls = [] then [] else join [10] ls))"

definition unavailable :: "gerr option" where
  "unavailable = Some (Domain CodeCapabilityUnavailable [])"

definition HotwordsSupport :: "string \<Rightarrow> modeling_unit \<Rightarrow> string \<Rightarrow> bool \<Rightarrow> gerr option" where
  "HotwordsSupport family u method hasBPE =
     (if family = ''streaming_transducer'' then unavailable
      else if family \<noteq> ''transducer'' then unavailable
      else if method \<noteq> ''modified_beam_search'' then unavailable
      else case u of
        UnitCJKChar \<Rightarrow> None
      | UnitBPE \<Rightarrow> if hasBPE then None else unavailable
      | UnitCJKCharBPE \<Rightarrow> if hasBPE then None else unavailable
      | _ \<Rightarrow> unavailable)"

definition HotwordsCapability :: "string \<Rightarrow> modeling_unit \<Rightarrow> bool \<Rightarrow> bool" where
  "HotwordsCapability family u hasBPE \<longleftrightarrow> HotwordsSupport family u ''modified_beam_search'' hasBPE = None"

definition DecodingSupport :: "string \<Rightarrow> string \<Rightarrow> gerr option" where
  "DecodingSupport family method =
     (if method = [] \<or> method = ''greedy_search'' then None
      else if method = ''modified_beam_search'' then
        (if family \<noteq> ''transducer'' \<and> family \<noteq> ''streaming_transducer'' then unavailable else None)
      else unavailable)"

end
