(* ===== verification/Pool.thy ===== *)
theory Pool
  imports Variant
begin

section \<open>The model pool (internal/pool/pool.go)\<close>

text \<open>
  Entries are shared by pointer in the code: the map of serving entries, the draining list,
  the leases and the goroutines that load a model all refer to the same entry. They live here
  in a heap under their addresses. A recogniser is a handle; the loader answers with a fresh
  one, and \<open>p_closes\<close> records the calls of its \<open>Close\<close> in order. The map is an association
  list with distinct keys, whose order stands for the unspecified order in which Go ranges over
  it: the step relation may permute it at any time. Each definition is one critical section of
  the pool's mutex.
\<close>

datatype model_state = ModelAbsent | ModelDownloading | ModelDownloaded | ModelLoading | ModelReady | ModelDraining

text \<open>What the pool reads of a manifest.\<close>

record manifest =
  mf_revision :: string
  mf_rss :: int

record entry =
  e_id :: string
  e_base :: string
  e_manifest :: manifest
  e_rec :: "nat option"
  e_state :: model_state
  e_refs :: int
  e_pinned :: bool
  e_rss :: int
  e_used :: int
  e_ready :: bool
  e_loaderr :: "gerr option"

record pool =
  p_current :: "(string \<times> nat) list"
  p_draining :: "nat list"
  p_closed :: bool
  p_heap :: "nat \<Rightarrow> entry"
  p_next :: nat
  p_nrec :: nat
  p_closes :: "nat list"
  p_max_models :: int
  p_max_rss :: int
  p_ttl :: int
  p_max_variants :: int

definition no_manifest :: manifest where
  "no_manifest = \<lparr>mf_revision = [], mf_rss = 0\<rparr>"

definition new_entry :: "string \<Rightarrow> string \<Rightarrow> int \<Rightarrow> entry" where
  "new_entry key base now =
     \<lparr>e_id = key, e_base = base, e_manifest = no_manifest, e_rec = None, e_state = ModelLoading,
      e_refs = 0, e_pinned = False, e_rss = 0, e_used = now, e_ready = False, e_loaderr = None\<rparr>"

definition pool_New :: "int \<Rightarrow> int \<Rightarrow> int \<Rightarrow> int \<Rightarrow> pool" where
  "pool_New models rss ttl variants =
     \<lparr>p_current = [], p_draining = [], p_closed = False, p_heap = (\<lambda>_. new_entry [] [] 0), p_next = 0,
      p_nrec = 0, p_closes = [], p_max_models = (if models < 1 then 1 else models),
      p_max_rss = (if rss < 1 then 1024 else rss), p_ttl = ttl, p_max_variants = variants\<rparr>"

definition upd_entry :: "nat \<Rightarrow> (entry \<Rightarrow> entry) \<Rightarrow> pool \<Rightarrow> pool" where
  "upd_entry a f p = p\<lparr>p_heap := (p_heap p)(a := f (p_heap p a))\<rparr>"

definition alloc :: "entry \<Rightarrow> pool \<Rightarrow> nat \<times> pool" where
  "alloc e p = (p_next p, p\<lparr>p_heap := (p_heap p)(p_next p := e), p_next := Suc (p_next p)\<rparr>)"

definition del_current :: "string \<Rightarrow> pool \<Rightarrow> pool" where
  "del_current k p = p\<lparr>p_current := filter (\<lambda>(k', _). k' \<noteq> k) (p_current p)\<rparr>"

definition put_current :: "string \<Rightarrow> nat \<Rightarrow> pool \<Rightarrow> pool" where
  "put_current k a p = p\<lparr>p_current := filter (\<lambda>(k', _). k' \<noteq> k) (p_current p) @ [(k, a)]\<rparr>"

subsection \<open>Closing, retiring, evicting\<close>

definition closeLocked :: "nat \<Rightarrow> pool \<Rightarrow> pool" where
  "closeLocked a p = (case e_rec (p_heap p a) of
     None \<Rightarrow> p
   | Some h \<Rightarrow> upd_entry a (\<lambda>e. e\<lparr>e_rec := None\<rparr>) (p\<lparr>p_closes := p_closes p @ [h]\<rparr>))"

definition removeDraining :: "nat \<Rightarrow> pool \<Rightarrow> pool" where
  "removeDraining a p = p\<lparr>p_draining := remove1 a (p_draining p)\<rparr>"

definition retireLocked :: "nat \<Rightarrow> pool \<Rightarrow> pool" where
  "retireLocked a p =
     (let p1 = del_current (e_id (p_heap p a)) p in
      if e_refs (p_heap p a) = 0 then closeLocked a p1
      else let p2 = upd_entry a (\<lambda>e. e\<lparr>e_state := ModelDraining\<rparr>) p1
           in p2\<lparr>p_draining := p_draining p2 @ [a]\<rparr>)"

definition is_variant_of :: "string \<Rightarrow> entry \<Rightarrow> bool" where
  "is_variant_of base e \<longleftrightarrow> e_base e = base \<and> e_id e \<noteq> base"

definition retireVariants :: "string \<Rightarrow> pool \<Rightarrow> pool" where
  "retireVariants base p =
     foldl (\<lambda>p a. if is_variant_of base (p_heap p a) then retireLocked a p else p) p (map snd (p_current p))"

definition overLimit :: "pool \<Rightarrow> bool" where
  "overLimit p \<longleftrightarrow> int (length (p_current p)) > p_max_models p
     \<or> (\<Sum>(k, a)\<leftarrow>p_current p. e_rss (p_heap p a)) > p_max_rss p"

definition evictable :: "entry \<Rightarrow> bool" where
  "evictable e \<longleftrightarrow> \<not> (e_pinned e \<or> e_refs e > 0 \<or> e_state e \<noteq> ModelReady)"

text \<open>A variant goes before a base instance, the least recently used first.\<close>

definition lru_key :: "entry \<Rightarrow> bool \<times> int" where
  "lru_key e = (e_id e = e_base e, e_used e)"

definition lruVictim :: "pool \<Rightarrow> nat option" where
  "lruVictim p =
     (case sort_key (\<lambda>a. lru_key (p_heap p a)) (filter (\<lambda>a. evictable (p_heap p a)) (map snd (p_current p))) of
        [] \<Rightarrow> None | a # _ \<Rightarrow> Some a)"

fun evict_loop :: "nat \<Rightarrow> pool \<Rightarrow> pool" where
  "evict_loop 0 p = p"
| "evict_loop (Suc n) p =
     (if \<not> overLimit p then p
      else case lruVictim p of
        None \<Rightarrow> p
      | Some a \<Rightarrow> evict_loop n (closeLocked a (del_current (e_id (p_heap p a)) p)))"

text \<open>Each round takes one entry out of the map, so as many rounds as entries are enough.\<close>

definition evictLocked :: "pool \<Rightarrow> pool" where
  "evictLocked p = evict_loop (Suc (length (p_current p))) p"

subsection \<open>Acquire and release\<close>

text \<open>The first section of \<open>AcquireVariant\<close>: an error, a lease on the entry, the entry whose
  \<open>ready\<close> channel to wait for, or a placeholder claimed, to be loaded.\<close>

datatype acquired = AcqErr gerr | AcqLease nat pool | AcqWait nat | AcqLoad nat pool

definition acq_begin :: "pool \<Rightarrow> string \<Rightarrow> string \<Rightarrow> int \<Rightarrow> acquired" where
  "acq_begin p key base now =
     (if p_closed p then AcqErr (Domain CodeModelUnavailable [])
      else
        let load = (case alloc (new_entry key base now) p of (a, p1) \<Rightarrow> AcqLoad a (put_current key a p1)) in
        case map_of (p_current p) key of
          None \<Rightarrow> load
        | Some a \<Rightarrow>
            (case e_state (p_heap p a) of
               ModelReady \<Rightarrow> AcqLease a (upd_entry a (\<lambda>e. e\<lparr>e_refs := e_refs e + 1, e_used := now\<rparr>) p)
             | ModelLoading \<Rightarrow> AcqWait a
             | ModelDownloading \<Rightarrow> AcqWait a
             | _ \<Rightarrow> load))"

text \<open>A waiter whose entry's channel is closed: the load's error, or another round.\<close>

definition acq_woken :: "pool \<Rightarrow> nat \<Rightarrow> gerr option" where
  "acq_woken p a = e_loaderr (p_heap p a)"

text \<open>The last section: the load has ended with an error or with a manifest and a new
  recogniser. The lease, where there is one, is on the second result's entry.\<close>

definition fresh_rec :: "pool \<Rightarrow> nat \<times> pool" where
  "fresh_rec p = (p_nrec p, p\<lparr>p_nrec := Suc (p_nrec p)\<rparr>)"

definition acq_loaded :: "pool \<Rightarrow> nat \<Rightarrow> string \<Rightarrow> gerr + manifest \<Rightarrow> int \<Rightarrow> pool \<times> (gerr + nat)" where
  "acq_loaded p a key res now =
     (case res of
        Inl err \<Rightarrow>
          let p1 = upd_entry a (\<lambda>e. e\<lparr>e_loaderr := Some err, e_ready := True\<rparr>) p in
          (if map_of (p_current p1) key = Some a then del_current key p1 else p1, Inl err)
      | Inr man \<Rightarrow>
          (case fresh_rec p of (h, p1) \<Rightarrow>
           if map_of (p_current p1) key \<noteq> Some a then
             let p2 = p1\<lparr>p_closes := p_closes p1 @ [h]\<rparr> in
             (case map_of (p_current p2) key of
                Some b \<Rightarrow>
                  if e_state (p_heap p2 b) = ModelReady
                  then (upd_entry a (\<lambda>e. e\<lparr>e_ready := True\<rparr>)
                          (upd_entry b (\<lambda>e. e\<lparr>e_refs := e_refs e + 1, e_used := now\<rparr>) p2), Inr b)
                  else (upd_entry a (\<lambda>e. e\<lparr>e_loaderr := Some (Domain CodeModelUnavailable []), e_ready := True\<rparr>) p2,
                        Inl (Domain CodeModelUnavailable []))
              | None \<Rightarrow>
                  (upd_entry a (\<lambda>e. e\<lparr>e_loaderr := Some (Domain CodeModelUnavailable []), e_ready := True\<rparr>) p2,
                   Inl (Domain CodeModelUnavailable [])))
           else
             (evictLocked (upd_entry a (\<lambda>e. e\<lparr>e_rec := Some h, e_manifest := man, e_rss := mf_rss man,
                 e_state := ModelReady, e_refs := 1, e_used := now, e_ready := True\<rparr>) p1), Inr a)))"

definition pool_release :: "pool \<Rightarrow> nat \<Rightarrow> int \<Rightarrow> pool" where
  "pool_release p a now =
     (let p1 = upd_entry a (\<lambda>e. e\<lparr>e_refs := (if e_refs e - 1 < 0 then 0 else e_refs e - 1), e_used := now\<rparr>) p;
          p2 = (if e_state (p_heap p1 a) = ModelDraining \<and> e_refs (p_heap p1 a) = 0
                then removeDraining a (closeLocked a p1) else p1)
      in if overLimit p2 then evictLocked p2 else p2)"

subsection \<open>Hot swap, unload, sweep, shutdown\<close>

definition pool_Reload :: "pool \<Rightarrow> string \<Rightarrow> string \<Rightarrow> gerr + manifest \<Rightarrow> int \<Rightarrow> pool \<times> gerr option" where
  "pool_Reload p mid revision res now =
     (case res of
        Inl err \<Rightarrow> (p, Some err)
      | Inr man \<Rightarrow>
          (case fresh_rec p of (h, p1) \<Rightarrow>
           if revision \<noteq> [] \<and> mf_revision man \<noteq> revision
           then (p1\<lparr>p_closes := p_closes p1 @ [h]\<rparr>, Some (Domain CodeModelNotFound []))
           else
             let pinned = (case map_of (p_current p1) mid of None \<Rightarrow> False | Some o' \<Rightarrow> e_pinned (p_heap p1 o'));
                 fresh = \<lparr>e_id = mid, e_base = mid, e_manifest = man, e_rec = Some h, e_state = ModelReady,
                          e_refs = 0, e_pinned = pinned, e_rss = mf_rss man, e_used = now, e_ready = True,
                          e_loaderr = None\<rparr>;
                 p2 = (case map_of (p_current p1) mid of None \<Rightarrow> p1 | Some o' \<Rightarrow> retireLocked o' p1);
                 p3 = retireVariants mid p2
             in (case alloc fresh p3 of (a, p4) \<Rightarrow> (evictLocked (put_current mid a p4), None))))"

definition pool_Unload :: "pool \<Rightarrow> string \<Rightarrow> pool \<times> gerr option" where
  "pool_Unload p mid =
     (case map_of (p_current p) mid of
        None \<Rightarrow> (p, Some (Domain CodeModelNotFound []))
      | Some a \<Rightarrow> (retireVariants mid (retireLocked a p), None))"

definition pool_Pin :: "pool \<Rightarrow> string \<Rightarrow> bool \<Rightarrow> pool \<times> gerr option" where
  "pool_Pin p mid pinned =
     (case map_of (p_current p) mid of
        None \<Rightarrow> (p, Some (Domain CodeModelNotFound []))
      | Some a \<Rightarrow> (upd_entry a (\<lambda>e. e\<lparr>e_pinned := pinned\<rparr>) p, None))"

definition idle :: "int \<Rightarrow> pool \<Rightarrow> nat \<Rightarrow> bool" where
  "idle now p a \<longleftrightarrow> evictable (p_heap p a) \<and> now - e_used (p_heap p a) > p_ttl p"

definition pool_Sweep :: "pool \<Rightarrow> int \<Rightarrow> pool \<times> nat" where
  "pool_Sweep p now =
     (if p_ttl p \<le> 0 then (p, 0)
      else foldl (\<lambda>(p, n) (k, a). if idle now p a then (closeLocked a (del_current k p), Suc n) else (p, n))
             (p, 0) (p_current p))"

definition leasesOutstanding :: "pool \<Rightarrow> bool" where
  "leasesOutstanding p \<longleftrightarrow> (\<exists>a\<in>set (map snd (p_current p) @ p_draining p). e_refs (p_heap p a) > 0)"

text \<open>\<open>Close\<close>: the mark, and what is done once the leases are back or the time is over.\<close>

definition pool_close_begin :: "pool \<Rightarrow> pool" where
  "pool_close_begin p = p\<lparr>p_closed := True\<rparr>"

definition close_idle :: "pool \<Rightarrow> nat \<Rightarrow> pool" where
  "close_idle p a = (if e_refs (p_heap p a) = 0 then closeLocked a p else p)"

definition pool_close_end :: "pool \<Rightarrow> pool" where
  "pool_close_end p =
     (let p1 = (foldl close_idle p (map snd (p_current p)))\<lparr>p_current := []\<rparr>
      in foldl close_idle (p1\<lparr>p_draining := []\<rparr>) (p_draining p1))"

subsection \<open>Admission of variants and listing\<close>

definition admitVariant :: "pool \<Rightarrow> string \<Rightarrow> string \<Rightarrow> gerr option" where
  "admitVariant p base key =
     (if p_max_variants p \<le> 0 then unavailable
      else
        let vs = filter (\<lambda>a. is_variant_of base (p_heap p a)) (map snd (p_current p)) in
        if \<exists>a\<in>set vs. e_id (p_heap p a) = key then None
        else if int (length vs) \<ge> p_max_variants p then unavailable
        else None)"

text \<open>\<open>AcquireVariant\<close> up to its first wait: admission, then the first section.\<close>

definition AcquireVariant_begin ::
  "(string \<Rightarrow> string) \<Rightarrow> (32 word \<Rightarrow> string) \<Rightarrow> pool \<Rightarrow> string \<Rightarrow> variant \<Rightarrow> int \<Rightarrow> acquired" where
  "AcquireVariant_begin sha_hex fmt p mid v now =
     (let key = variantKey sha_hex fmt mid v in
      case (if variant_Zero v then None else admitVariant p mid key) of
        Some e \<Rightarrow> AcqErr e
      | None \<Rightarrow> acq_begin p key mid now)"

definition pool_Manifest :: "(string \<Rightarrow> gerr + manifest) \<Rightarrow> pool \<Rightarrow> string \<Rightarrow> gerr + manifest" where
  "pool_Manifest resolve p mid =
     (case map_of (p_current p) mid of
        Some a \<Rightarrow> if e_state (p_heap p a) = ModelReady then Inr (e_manifest (p_heap p a)) else resolve mid
      | None \<Rightarrow> resolve mid)"

end
