(* ===== verification/PoolSafe.thy ===== *)
theory PoolSafe
  imports Pool
begin

section \<open>Safety of the pool under any interleaving\<close>

text \<open>
  The pool with its leases and its loads in flight, as a step relation. A lease is the pair of
  the entry and the recogniser it was handed; \<open>W\<close> holds the placeholders being loaded. The
  invariant says who may hold a recogniser, and the theorems read off it that hot swap, eviction,
  unloading and shutdown never close a recogniser in use, never close one twice, and never
  lose one.
\<close>

type_synonym leases = "(nat \<times> nat option) multiset"

definition cur_ok :: "pool \<Rightarrow> nat set \<Rightarrow> bool" where
  "cur_ok p W \<longleftrightarrow> distinct (map fst (p_current p)) \<and>
     (\<forall>(k, a)\<in>set (p_current p). a < p_next p \<and> e_id (p_heap p a) = k
        \<and> (e_state (p_heap p a) = ModelReady \<and> e_rec (p_heap p a) \<noteq> None
           \<or> e_state (p_heap p a) = ModelLoading \<and> a \<in> W))"

definition load_ok :: "pool \<Rightarrow> nat set \<Rightarrow> bool" where
  "load_ok p W \<longleftrightarrow> (\<forall>a\<in>W. a < p_next p \<and> e_state (p_heap p a) = ModelLoading \<and> e_rec (p_heap p a) = None)"

definition lease_ok :: "pool \<Rightarrow> leases \<Rightarrow> bool" where
  "lease_ok p L \<longleftrightarrow> (\<forall>a. e_refs (p_heap p a) = int (count (image_mset fst L) a)) \<and>
     (\<forall>x\<in>#L. snd x \<noteq> None \<and> e_rec (p_heap p (fst x)) = snd x \<and> fst x < p_next p)"

definition drain_ok :: "pool \<Rightarrow> bool" where
  "drain_ok p \<longleftrightarrow> distinct (p_draining p) \<and>
     (\<forall>a\<in>set (p_draining p). a < p_next p \<and> e_state (p_heap p a) = ModelDraining
        \<and> e_refs (p_heap p a) > 0 \<and> e_rec (p_heap p a) \<noteq> None)"

definition rec_ok :: "pool \<Rightarrow> bool" where
  "rec_ok p \<longleftrightarrow> (\<forall>a h. e_rec (p_heap p a) = Some h \<longrightarrow> a < p_next p \<and> h < p_nrec p \<and> h \<notin> set (p_closes p))
     \<and> (\<forall>a b h. e_rec (p_heap p a) = Some h \<longrightarrow> e_rec (p_heap p b) = Some h \<longrightarrow> a = b)
     \<and> distinct (p_closes p) \<and> (\<forall>h\<in>set (p_closes p). h < p_nrec p)
     \<and> (\<forall>h<p_nrec p. h \<in> set (p_closes p) \<or> (\<exists>a. e_rec (p_heap p a) = Some h))"

definition kept :: "nat set \<Rightarrow> pool \<Rightarrow> bool" where
  "kept X p \<longleftrightarrow> \<not> p_closed p \<longrightarrow>
     (\<forall>a. e_rec (p_heap p a) \<noteq> None \<longrightarrow> a \<in> snd ` set (p_current p) \<or> a \<in> set (p_draining p) \<or> a \<in> X)"

text \<open>\<open>X\<close> holds the entries an operation has in its hands between two of its updates.\<close>

definition pinv :: "nat set \<Rightarrow> pool \<Rightarrow> leases \<Rightarrow> nat set \<Rightarrow> bool" where
  "pinv X p L W \<longleftrightarrow> cur_ok p W \<and> load_ok p W \<and> lease_ok p L \<and> drain_ok p \<and> rec_ok p \<and> kept X p"

lemmas pinv_defs = pinv_def cur_ok_def load_ok_def lease_ok_def drain_ok_def rec_ok_def kept_def

lemma pinvD:
  assumes "pinv X p L W"
  shows "cur_ok p W" "load_ok p W" "lease_ok p L" "drain_ok p" "rec_ok p" "kept X p"
  using assms by (simp_all add: pinv_def)

subsection \<open>Primitive updates\<close>

lemma cur_unique:
  assumes "cur_ok p W" "(k, a) \<in> set (p_current p)" "(k', b) \<in> set (p_current p)"
  shows "(k = k') = (a = b)"
proof
  assume "k = k'"
  with assms(2,3) show "a = b" using assms(1) unfolding cur_ok_def by (metis eq_key_imp_eq_value)
next
  assume "a = b"
  moreover have "e_id (p_heap p a) = k" "e_id (p_heap p b) = k'" using assms by (auto simp: cur_ok_def)
  ultimately show "k = k'" by simp
qed

lemma cur_okI:
  assumes "distinct (map fst (p_current p))"
    and "\<And>k a. (k, a) \<in> set (p_current p) \<Longrightarrow> a < p_next p \<and> e_id (p_heap p a) = k
        \<and> (e_state (p_heap p a) = ModelReady \<and> e_rec (p_heap p a) \<noteq> None
           \<or> e_state (p_heap p a) = ModelLoading \<and> a \<in> W)"
  shows "cur_ok p W"
  using assms unfolding cur_ok_def by blast

lemma cur_okD:
  "cur_ok p W \<Longrightarrow> (k, a) \<in> set (p_current p) \<Longrightarrow> a < p_next p \<and> e_id (p_heap p a) = k
     \<and> (e_state (p_heap p a) = ModelReady \<and> e_rec (p_heap p a) \<noteq> None
        \<or> e_state (p_heap p a) = ModelLoading \<and> a \<in> W)"
  unfolding cur_ok_def by blast

lemma cur_distinct: "cur_ok p W \<Longrightarrow> distinct (map fst (p_current p))"
  by (simp add: cur_ok_def)

text \<open>An update of one entry that is not serving does not matter to the map.\<close>

lemma cur_ok_other:
  assumes "cur_ok p W" "a \<notin> snd ` set (p_current p)" "p_heap q = (p_heap p)(a := e)"
    "p_current q = p_current p" "p_next q = p_next p"
  shows "cur_ok q W"
proof (rule cur_okI)
  fix k b
  assume kb: "(k, b) \<in> set (p_current q)"
  then have "b \<noteq> a" using assms(2,4) by force
  with cur_okD [OF assms(1)] kb assms show "b < p_next q \<and> e_id (p_heap q b) = k
        \<and> (e_state (p_heap q b) = ModelReady \<and> e_rec (p_heap q b) \<noteq> None
           \<or> e_state (p_heap q b) = ModelLoading \<and> b \<in> W)" by simp
qed (simp add: assms(4) cur_distinct [OF assms(1)])

lemma map_of_current: "cur_ok p W \<Longrightarrow> map_of (p_current p) k = Some a \<longleftrightarrow> (k, a) \<in> set (p_current p)"
  by (auto simp: cur_ok_def dest: map_of_SomeD)

lemma set_del_current: "set (p_current (del_current k p)) = {(k', a) \<in> set (p_current p). k' \<noteq> k}"
  by (auto simp: del_current_def)

lemma del_current_frame [simp]:
  "p_heap (del_current k p) = p_heap p" "p_next (del_current k p) = p_next p"
  "p_draining (del_current k p) = p_draining p" "p_closed (del_current k p) = p_closed p"
  "p_nrec (del_current k p) = p_nrec p" "p_closes (del_current k p) = p_closes p"
  "p_ttl (del_current k p) = p_ttl p"
  by (simp_all add: del_current_def)

lemma closeLocked_frame [simp]:
  "p_current (closeLocked a p) = p_current p" "p_next (closeLocked a p) = p_next p"
  "p_draining (closeLocked a p) = p_draining p" "p_closed (closeLocked a p) = p_closed p"
  "p_nrec (closeLocked a p) = p_nrec p" "p_ttl (closeLocked a p) = p_ttl p"
  by (auto simp: closeLocked_def upd_entry_def split: option.splits)

lemma closeLocked_heap:
  "p_heap (closeLocked a p) = (p_heap p)(a := (p_heap p a)\<lparr>e_rec := None\<rparr>)"
  by (auto simp: closeLocked_def upd_entry_def split: option.splits)

lemma distinct_filter_fst: "distinct (map fst xs) \<Longrightarrow> distinct (map fst (filter P xs))"
  by (rule distinct_map_filter)

lemma del_current_inv:
  assumes "pinv X p L W" "(k, a) \<in> set (p_current p)"
  shows "pinv (insert a X) (del_current k p) L W"
proof -
  note D = pinvD [OF assms(1)]
  have "cur_ok (del_current k p) W"
  proof (rule cur_okI)
    show "distinct (map fst (p_current (del_current k p)))"
      using cur_distinct [OF D(1)] by (simp add: del_current_def distinct_map_filter)
    fix k' b assume "(k', b) \<in> set (p_current (del_current k p))"
    then have "(k', b) \<in> set (p_current p)" by (simp add: set_del_current)
    from cur_okD [OF D(1) this] show "b < p_next (del_current k p) \<and> e_id (p_heap (del_current k p) b) = k'
        \<and> (e_state (p_heap (del_current k p) b) = ModelReady \<and> e_rec (p_heap (del_current k p) b) \<noteq> None
           \<or> e_state (p_heap (del_current k p) b) = ModelLoading \<and> b \<in> W)" by simp
  qed
  moreover have "kept (insert a X) (del_current k p)"
  proof -
    have "b \<in> snd ` set (p_current (del_current k p)) \<or> b = a" if "b \<in> snd ` set (p_current p)" for b
    proof -
      from that obtain k' where k': "(k', b) \<in> set (p_current p)" by auto
      show ?thesis
      proof (cases "k' = k")
        case True
        then show ?thesis using cur_unique [OF D(1) assms(2) k'] by simp
      next
        case False
        with k' have "(k', b) \<in> set (p_current (del_current k p))" by (simp add: set_del_current)
        then show ?thesis by force
      qed
    qed
    then show ?thesis using D(6) unfolding kept_def by fastforce
  qed
  moreover have "load_ok (del_current k p) W" using D(2) by (simp add: load_ok_def)
  moreover have "lease_ok (del_current k p) L" using D(3) by (simp add: lease_ok_def)
  moreover have "drain_ok (del_current k p)" using D(4) by (simp add: drain_ok_def)
  moreover have "rec_ok (del_current k p)" using D(5) by (simp add: rec_ok_def)
  ultimately show ?thesis by (simp add: pinv_def)
qed

lemma leased_rec: "lease_ok p L \<Longrightarrow> e_rec (p_heap p a) = None \<Longrightarrow> e_refs (p_heap p a) = 0"
proof -
  assume l: "lease_ok p L" and r: "e_rec (p_heap p a) = None"
  have "a \<notin># image_mset fst L" using l r by (auto simp: lease_ok_def)
  then have "count (image_mset fst L) a = 0" by (rule not_in_iff [THEN iffD1])
  with l show ?thesis by (simp add: lease_ok_def)
qed

lemma unleased: "lease_ok p L \<Longrightarrow> e_refs (p_heap p a) = 0 \<Longrightarrow> x \<in># L \<Longrightarrow> fst x \<noteq> a"
proof
  assume l: "lease_ok p L" "e_refs (p_heap p a) = 0" "x \<in># L" and "fst x = a"
  then have "a \<in># image_mset fst L" by auto
  then have "count (image_mset fst L) a > 0" by simp
  moreover have "int (count (image_mset fst L) a) = 0" using l(1,2) by (simp add: lease_ok_def)
  ultimately show False by linarith
qed

lemma closeLocked_rec:
  assumes "rec_ok p"
  shows "rec_ok (closeLocked a p)"
proof (cases "e_rec (p_heap p a)")
  case None
  then show ?thesis using assms by (simp add: closeLocked_def)
next
  case (Some h)
  have c: "p_closes (closeLocked a p) = p_closes p @ [h]"
    by (simp add: closeLocked_def Some upd_entry_def)
  show ?thesis
    using assms Some unfolding rec_ok_def
    by (simp add: closeLocked_heap c) (metis option.inject)
qed

lemma closeLocked_inv:
  assumes "pinv (insert a X) p L W" "e_refs (p_heap p a) = 0" "a \<notin> snd ` set (p_current p)"
  shows "pinv X (closeLocked a p) L W"
proof -
  note D = pinvD [OF assms(1)]
  have nd: "a \<notin> set (p_draining p)" using D(4) assms(2) by (auto simp: drain_ok_def)
  have "cur_ok (closeLocked a p) W"
    by (rule cur_ok_other [OF D(1) assms(3) closeLocked_heap]) simp_all
  moreover have "load_ok (closeLocked a p) W" using D(2) by (auto simp: load_ok_def closeLocked_heap)
  moreover have "lease_ok (closeLocked a p) L"
    using D(3) unleased [OF D(3) assms(2)] by (auto simp: lease_ok_def closeLocked_heap)
  moreover have "drain_ok (closeLocked a p)" using D(4) nd by (auto simp: drain_ok_def closeLocked_heap)
  moreover have "kept X (closeLocked a p)" using D(6) by (auto simp: kept_def closeLocked_heap)
  ultimately show ?thesis using closeLocked_rec [OF D(5)] by (simp add: pinv_def)
qed

lemma out_of_current:
  assumes "cur_ok p W" "(k, a) \<in> set (p_current p)"
  shows "a \<notin> snd ` set (p_current (del_current k p))"
proof
  assume "a \<in> snd ` set (p_current (del_current k p))"
  then obtain k' where "(k', a) \<in> set (p_current p)" "k' \<noteq> k" by (auto simp: set_del_current)
  with cur_unique [OF assms this(1)] show False by simp
qed

text \<open>Taking an entry nobody uses out of the map and closing it: what evicting, sweeping and
  retiring have in common.\<close>

lemma drop_inv:
  assumes "pinv X p L W" "(k, a) \<in> set (p_current p)" "e_refs (p_heap p a) = 0"
  shows "pinv X (closeLocked a (del_current k p)) L W"
proof (rule closeLocked_inv)
  show "pinv (insert a X) (del_current k p) L W" by (rule del_current_inv [OF assms(1,2)])
  show "a \<notin> snd ` set (p_current (del_current k p))"
    by (rule out_of_current [OF pinvD(1) [OF assms(1)] assms(2)])
qed (simp add: assms(3))

lemma retire_inv:
  assumes "pinv X p L W" "(k, a) \<in> set (p_current p)"
  shows "pinv X (retireLocked a p) L W"
proof -
  note D = pinvD [OF assms(1)]
  have k: "e_id (p_heap p a) = k" "a < p_next p" using D(1) assms(2) by (auto simp: cur_ok_def)
  show ?thesis
  proof (cases "e_refs (p_heap p a) = 0")
    case True
    then show ?thesis using drop_inv [OF assms True] k by (simp add: retireLocked_def Let_def)
  next
    case False
    then have rec: "e_rec (p_heap p a) \<noteq> None" using leased_rec [OF D(3)] by blast
    with D(1,2) assms(2) have rdy: "e_state (p_heap p a) = ModelReady" "a \<notin> W"
      by (auto simp: cur_ok_def load_ok_def)
    have pos: "e_refs (p_heap p a) > 0" using False D(3) by (auto simp: lease_ok_def)
    note E = pinvD [OF del_current_inv [OF assms]]
    have out: "a \<notin> snd ` set (p_current (del_current k p))"
      by (rule out_of_current [OF D(1) assms(2)])
    let ?q = "retireLocked a p"
    have q: "p_current ?q = p_current (del_current k p)" "p_draining ?q = p_draining p @ [a]"
      "p_heap ?q = (p_heap p)(a := (p_heap p a)\<lparr>e_state := ModelDraining\<rparr>)"
      "p_next ?q = p_next p" "p_closed ?q = p_closed p" "p_nrec ?q = p_nrec p" "p_closes ?q = p_closes p"
      using False k by (simp_all add: retireLocked_def Let_def upd_entry_def)
    have "cur_ok ?q W" by (rule cur_ok_other [OF E(1) out]) (simp_all add: q)
    moreover have "load_ok ?q W" using E(2) rdy by (auto simp: load_ok_def q)
    moreover have "lease_ok ?q L" using E(3) by (auto simp: lease_ok_def q)
    moreover have "drain_ok ?q" using E(4) pos rec k rdy by (auto simp: drain_ok_def q)
    moreover have "rec_ok ?q" using E(5) by (auto simp: rec_ok_def q)
    moreover have "kept X ?q" using E(6) by (auto simp: kept_def q)
    ultimately show ?thesis by (simp add: pinv_def)
  qed
qed

lemma retire_current: "p_current (retireLocked a p) = p_current (del_current (e_id (p_heap p a)) p)"
  by (simp add: retireLocked_def Let_def upd_entry_def)

subsection \<open>The operations\<close>

lemma retire_keeps_others:
  assumes "cur_ok p W" "(k, a) \<in> set (p_current p)" "(k', b) \<in> set (p_current p)" "b \<noteq> a"
  shows "(k', b) \<in> set (p_current (retireLocked a p))"
proof -
  have "e_id (p_heap p a) = k" using cur_okD [OF assms(1,2)] by simp
  moreover have "k' \<noteq> k" using cur_unique [OF assms(1) assms(3) assms(2)] assms(4) by simp
  ultimately show ?thesis using assms(3) by (simp add: retire_current set_del_current)
qed

lemma retire_fold_inv:
  assumes "pinv X p L W" "distinct as" "set as \<subseteq> snd ` set (p_current p)"
  shows "pinv X (foldl (\<lambda>p a. if is_variant_of base (p_heap p a) then retireLocked a p else p) p as) L W"
  using assms
proof (induction as arbitrary: p)
  case (Cons a as)
  show ?case
  proof (cases "is_variant_of base (p_heap p a)")
    case True
    obtain k where k: "(k, a) \<in> set (p_current p)" using Cons.prems(3) by auto
    have "set as \<subseteq> snd ` set (p_current (retireLocked a p))"
    proof
      fix b assume b: "b \<in> set as"
      then obtain k' where k': "(k', b) \<in> set (p_current p)" using Cons.prems(3) by auto
      have "b \<noteq> a" using Cons.prems(2) b by auto
      from retire_keeps_others [OF pinvD(1) [OF Cons.prems(1)] k k' this]
      show "b \<in> snd ` set (p_current (retireLocked a p))" by force
    qed
    with Cons.IH [OF retire_inv [OF Cons.prems(1) k]] Cons.prems(2) True show ?thesis by simp
  next
    case False
    with Cons show ?thesis by simp
  qed
qed simp

lemma cur_distinct_addrs: "cur_ok p W \<Longrightarrow> distinct (map snd (p_current p))"
proof -
  assume c: "cur_ok p W"
  have "distinct (p_current p)" using cur_distinct [OF c] by (simp add: distinct_map)
  moreover have "inj_on snd (set (p_current p))"
  proof (rule inj_onI)
    fix x y assume "x \<in> set (p_current p)" "y \<in> set (p_current p)" "snd x = snd y"
    with cur_unique [OF c, of "fst x" "snd x" "fst y" "snd y"] show "x = y"
      unfolding prod.collapse by (simp add: prod_eq_iff)
  qed
  ultimately show ?thesis by (simp add: distinct_map)
qed

lemma retireVariants_inv: "pinv X p L W \<Longrightarrow> pinv X (retireVariants base p) L W"
  unfolding retireVariants_def
  by (rule retire_fold_inv) (auto dest: pinvD(1) cur_distinct_addrs)

lemma lruVictim_Some:
  assumes "lruVictim p = Some a"
  shows "a \<in> snd ` set (p_current p) \<and> evictable (p_heap p a)
    \<and> (\<forall>b\<in>snd ` set (p_current p). evictable (p_heap p b) \<longrightarrow> lru_key (p_heap p a) \<le> lru_key (p_heap p b))"
proof -
  let ?c = "filter (\<lambda>a. evictable (p_heap p a)) (map snd (p_current p))"
  let ?s = "sort_key (\<lambda>a. lru_key (p_heap p a)) ?c"
  obtain r where s: "?s = a # r" using assms by (auto simp: lruVictim_def split: list.splits)
  have "set (a # r) = set ?c" unfolding s [symmetric] by simp
  moreover have "sorted (map (\<lambda>a. lru_key (p_heap p a)) (a # r))" unfolding s [symmetric] by simp
  ultimately show ?thesis by (auto simp: image_iff)
qed

lemma lruVictim_None: "lruVictim p = None \<longleftrightarrow> (\<forall>a\<in>snd ` set (p_current p). \<not> evictable (p_heap p a))"
proof -
  let ?c = "filter (\<lambda>a. evictable (p_heap p a)) (map snd (p_current p))"
  have "lruVictim p = None \<longleftrightarrow> sort_key (\<lambda>a. lru_key (p_heap p a)) ?c = []"
    by (simp add: lruVictim_def split: list.split)
  also have "\<dots> \<longleftrightarrow> ?c = []" by (metis length_0_conv length_sort)
  finally show ?thesis by (auto simp: filter_empty_conv)
qed

lemma leased_refs_nonneg: "lease_ok p L \<Longrightarrow> 0 \<le> e_refs (p_heap p a)"
  by (simp add: lease_ok_def)

lemma evictable_unleased: "lease_ok p L \<Longrightarrow> evictable (p_heap p a) \<Longrightarrow> e_refs (p_heap p a) = 0"
  using leased_refs_nonneg [of p L a] by (auto simp: evictable_def)

lemma evict_loop_inv: "pinv X p L W \<Longrightarrow> pinv X (evict_loop n p) L W"
proof (induction n arbitrary: p)
  case (Suc n)
  show ?case
  proof (cases "overLimit p \<and> lruVictim p \<noteq> None")
    case True
    then obtain a where a: "lruVictim p = Some a" by auto
    note D = pinvD [OF Suc.prems]
    from lruVictim_Some [OF a] obtain k where k: "(k, a) \<in> set (p_current p)" "evictable (p_heap p a)"
      by auto
    have "e_id (p_heap p a) = k" using cur_okD [OF D(1) k(1)] by simp
    with drop_inv [OF Suc.prems k(1) evictable_unleased [OF D(3) k(2)]] Suc.IH a True
    show ?thesis by simp
  next
    case False
    with Suc.prems show ?thesis by (auto split: option.split)
  qed
qed simp

lemma evict_inv: "pinv X p L W \<Longrightarrow> pinv X (evictLocked p) L W"
  unfolding evictLocked_def by (rule evict_loop_inv)

lemma sweep_fold_inv:
  assumes "pinv X p L W" "distinct xs" "set xs \<subseteq> set (p_current p)"
  shows "pinv X (fst (foldl (\<lambda>(p, n) (k, a). if idle now p a then (closeLocked a (del_current k p), Suc n) else (p, n))
      (p, n) xs)) L W"
  using assms
proof (induction xs arbitrary: p n)
  case (Cons x xs)
  obtain k a where x: "x = (k, a)" by (cases x)
  then have ka: "(k, a) \<in> set (p_current p)" using Cons.prems(3) by simp
  note D = pinvD [OF Cons.prems(1)]
  show ?case
  proof (cases "idle now p a")
    case True
    have "e_refs (p_heap p a) = 0" using True evictable_unleased [OF D(3)] by (simp add: idle_def)
    note I = drop_inv [OF Cons.prems(1) ka this]
    have "set xs \<subseteq> set (p_current (closeLocked a (del_current k p)))"
    proof
      fix y assume y: "y \<in> set xs"
      then have "y \<in> set (p_current p)" "y \<noteq> (k, a)" using Cons.prems x by auto
      then have "fst y \<noteq> k" using cur_unique [OF D(1) ka, of "fst y" "snd y"] by (auto simp: prod_eq_iff)
      with \<open>y \<in> set (p_current p)\<close> show "y \<in> set (p_current (closeLocked a (del_current k p)))"
        by (simp add: set_del_current split_beta)
    qed
    with Cons.IH [OF I, of "Suc n"] Cons.prems(2) True x show ?thesis by simp
  next
    case False
    with Cons.IH [OF Cons.prems(1), of n] Cons.prems x show ?thesis by simp
  qed
qed simp

lemma pool_sweep_inv [step_inv]: "pinv X p L W \<Longrightarrow> pinv X (fst (pool_Sweep p now)) L W"
  using sweep_fold_inv [of X p L W "p_current p" now 0]
  by (auto simp: pool_Sweep_def dest!: pinvD(1) cur_distinct simp: distinct_map)

lemma rec_ok_same:
  assumes "rec_ok p" "\<And>a. e_rec (p_heap q a) = e_rec (p_heap p a)" "p_next p \<le> p_next q"
    "p_nrec q = p_nrec p" "p_closes q = p_closes p"
  shows "rec_ok q"
  using assms(1) less_le_trans [OF _ assms(3)] unfolding rec_ok_def assms(2,4,5) by blast

text \<open>A new entry at a fresh address.\<close>

lemma alloc_fresh:
  assumes "pinv X p L W"
  shows "p_next p \<notin> snd ` set (p_current p)" "p_next p \<notin> set (p_draining p)" "p_next p \<notin> W"
    "\<And>x. x \<in># L \<Longrightarrow> fst x \<noteq> p_next p" "e_rec (p_heap p (p_next p)) = None"
    "e_refs (p_heap p (p_next p)) = 0"
proof -
  note D = pinvD [OF assms]
  show "p_next p \<notin> snd ` set (p_current p)" using cur_okD [OF D(1)] by fastforce
  show "p_next p \<notin> set (p_draining p)" using D(4) by (auto simp: drain_ok_def)
  show "p_next p \<notin> W" using D(2) by (auto simp: load_ok_def)
  show "\<And>x. x \<in># L \<Longrightarrow> fst x \<noteq> p_next p" using D(3) by (fastforce simp: lease_ok_def)
  show r: "e_rec (p_heap p (p_next p)) = None" using D(5) by (fastforce simp: rec_ok_def)
  show "e_refs (p_heap p (p_next p)) = 0" by (rule leased_rec [OF D(3) r])
qed

text \<open>Installing a placeholder, or an entry with a recogniser that is new.\<close>

lemma put_inv:
  assumes "pinv X p L W" "\<forall>(k', b)\<in>set (p_current p). k' = k \<longrightarrow> e_rec (p_heap p b) = None"
    and "e_id e = k" "e_refs e = 0"
    and "e_rec e = None \<and> e_state e = ModelLoading \<and> W' = insert (p_next p) W \<and> nr = p_nrec p
       \<or> e_rec e = Some (p_nrec p) \<and> e_state e = ModelReady \<and> W' = W \<and> nr = Suc (p_nrec p)"
  shows "pinv X (put_current k (p_next p) (snd (alloc e (p\<lparr>p_nrec := nr\<rparr>)))) L W'"
proof -
  note D = pinvD [OF assms(1)] and F = alloc_fresh [OF assms(1)]
  let ?q = "put_current k (p_next p) (snd (alloc e (p\<lparr>p_nrec := nr\<rparr>)))"
  have q: "p_current ?q = p_current (del_current k p) @ [(k, p_next p)]" "p_draining ?q = p_draining p"
    "p_heap ?q = (p_heap p)(p_next p := e)" "p_next ?q = Suc (p_next p)" "p_closed ?q = p_closed p"
    "p_nrec ?q = nr" "p_closes ?q = p_closes p"
    by (simp_all add: put_current_def alloc_def del_current_def)
  have "cur_ok ?q W'"
  proof (rule cur_okI)
    show "distinct (map fst (p_current ?q))"
      using cur_distinct [OF D(1)] unfolding q
      by (auto simp: del_current_def distinct_map_filter)
    fix k' b assume "(k', b) \<in> set (p_current ?q)"
    then consider "(k', b) \<in> set (p_current p)" "b \<noteq> p_next p" | "k' = k" "b = p_next p"
      unfolding q using F(1) by (force simp: set_del_current)
    then show "b < p_next ?q \<and> e_id (p_heap ?q b) = k'
        \<and> (e_state (p_heap ?q b) = ModelReady \<and> e_rec (p_heap ?q b) \<noteq> None
           \<or> e_state (p_heap ?q b) = ModelLoading \<and> b \<in> W')"
    proof cases
      case 1
      with cur_okD [OF D(1) 1(1)] assms(5) show ?thesis by (auto simp: q)
    next
      case 2
      with assms(3,5) show ?thesis by (auto simp: q)
    qed
  qed
  moreover have "load_ok ?q W'" using D(2) F(3) assms(5) by (auto simp: load_ok_def q less_SucI)
  moreover have "lease_ok ?q L" using D(3) F(4,6) assms(4) by (auto simp: lease_ok_def q less_SucI)
  moreover have "drain_ok ?q" using D(4) F(2) by (auto simp: drain_ok_def q less_SucI)
  moreover have "rec_ok ?q"
    using assms(5)
  proof
    assume "e_rec e = None \<and> e_state e = ModelLoading \<and> W' = insert (p_next p) W \<and> nr = p_nrec p"
    with F(5) show ?thesis
      by (intro rec_ok_same [OF D(5)]) (simp_all add: put_current_def alloc_def)
  next
    assume e: "e_rec e = Some (p_nrec p) \<and> e_state e = ModelReady \<and> W' = W \<and> nr = Suc (p_nrec p)"
    have lt: "e_rec (p_heap p b) = Some h \<Longrightarrow> h < p_nrec p" "h \<in> set (p_closes p) \<Longrightarrow> h < p_nrec p" for b h
      using D(5) unfolding rec_ok_def by blast+
    have R: "\<And>a h. e_rec (p_heap p a) = Some h \<Longrightarrow> a < p_next p"
      "\<And>a h. e_rec (p_heap p a) = Some h \<Longrightarrow> h \<notin> set (p_closes p)"
      "\<And>a b h. e_rec (p_heap p a) = Some h \<Longrightarrow> e_rec (p_heap p b) = Some h \<Longrightarrow> a = b"
      "distinct (p_closes p)"
      using D(5) unfolding rec_ok_def by blast+
    show ?thesis unfolding rec_ok_def q
    proof (intro conjI allI impI ballI)
      fix h assume "h < nr"
      show "h \<in> set (p_closes p) \<or> (\<exists>a. e_rec (((p_heap p)(p_next p := e)) a) = Some h)"
      proof (cases "h = p_nrec p")
        case True with e show ?thesis by auto
      next
        case False
        then have "h < p_nrec p" using \<open>h < nr\<close> e by simp
        with D(5) have "h \<in> set (p_closes p) \<or> (\<exists>a. e_rec (p_heap p a) = Some h)" unfolding rec_ok_def by blast
        then show ?thesis using F(5) by (metis fun_upd_apply option.distinct(1))
      qed
    next
      fix a h assume "e_rec (((p_heap p)(p_next p := e)) a) = Some h"
      then consider "a = p_next p" "h = p_nrec p" | "e_rec (p_heap p a) = Some h"
        using e by (auto split: if_splits)
      then show "h < nr" "h \<notin> set (p_closes p)" "a < Suc (p_next p)"
        using e R(1,2) lt by (cases; fastforce simp: less_SucI)+
    next
      fix a b h assume "e_rec (((p_heap p)(p_next p := e)) a) = Some h" "e_rec (((p_heap p)(p_next p := e)) b) = Some h"
      with e R(3) [of a h b] lt(1) [of a h] lt(1) [of b h] show "a = b" by (auto split: if_splits)
    qed (use R(4) lt e in \<open>auto simp: less_SucI\<close>)
  qed
  moreover have "kept X ?q"
  proof -
    have b_kept: "b \<in> snd ` set (p_current ?q)" if b: "b \<in> snd ` set (p_current p)" "e_rec (p_heap p b) \<noteq> None" for b
    proof -
      from b(1) obtain k' where "(k', b) \<in> set (p_current p)" by auto
      moreover from this b(2) assms(2) have "k' \<noteq> k" by auto
      ultimately have "(k', b) \<in> set (p_current ?q)" by (simp add: q set_del_current)
      then show ?thesis by force
    qed
    show ?thesis unfolding kept_def
    proof (intro impI allI)
      fix a assume nc: "\<not> p_closed ?q" and r: "e_rec (p_heap ?q a) \<noteq> None"
      show "a \<in> snd ` set (p_current ?q) \<or> a \<in> set (p_draining ?q) \<or> a \<in> X"
      proof (cases "a = p_next p")
        case True
        then show ?thesis by (simp add: q)
      next
        case False
        then have r': "e_rec (p_heap p a) \<noteq> None" using r by (simp add: q)
        then have "a \<in> snd ` set (p_current p) \<or> a \<in> set (p_draining p) \<or> a \<in> X"
          using D(6) nc unfolding kept_def q by blast
        then show ?thesis using b_kept [OF _ r'] unfolding q(2) by blast
      qed
    qed
  qed
  ultimately show ?thesis by (simp add: pinv_def)
qed

text \<open>Updates that leave every entry's identity, state and recogniser alone.\<close>

definition same_shape :: "pool \<Rightarrow> pool \<Rightarrow> bool" where
  "same_shape p q \<longleftrightarrow> p_current q = p_current p \<and> p_next q = p_next p
     \<and> p_closed q = p_closed p \<and> p_nrec q = p_nrec p \<and> p_closes q = p_closes p
     \<and> (\<forall>a. e_id (p_heap q a) = e_id (p_heap p a) \<and> e_state (p_heap q a) = e_state (p_heap p a)
          \<and> e_rec (p_heap q a) = e_rec (p_heap p a))"

lemma pinv_same:
  assumes "pinv X p L W" "same_shape p q" "p_draining q = p_draining p"
    "lease_ok q L'" "\<And>a. a \<in> set (p_draining p) \<Longrightarrow> e_refs (p_heap q a) > 0"
  shows "pinv X q L' W"
proof -
  note D = pinvD [OF assms(1)]
  have s: "p_current q = p_current p" "p_next q = p_next p" "p_closed q = p_closed p"
    "p_nrec q = p_nrec p" "p_closes q = p_closes p"
    "e_id (p_heap q a) = e_id (p_heap p a)" "e_state (p_heap q a) = e_state (p_heap p a)"
    "e_rec (p_heap q a) = e_rec (p_heap p a)" for a
    using assms(2) by (simp_all add: same_shape_def)
  have "cur_ok q W" using D(1) by (simp add: cur_ok_def s)
  moreover have "load_ok q W" using D(2) by (simp add: load_ok_def s)
  moreover have "drain_ok q" using D(4) assms(3,5) by (simp add: drain_ok_def s)
  moreover have "rec_ok q" by (rule rec_ok_same [OF D(5)]) (simp_all add: s)
  moreover have "kept X q" using D(6) by (simp add: kept_def s assms(3))
  ultimately show ?thesis using assms(4) by (simp add: pinv_def)
qed

lemma upd_flags_inv:
  assumes "pinv X p L W"
    and "\<And>e. e_id (f e) = e_id e \<and> e_state (f e) = e_state e \<and> e_rec (f e) = e_rec e \<and> e_refs (f e) = e_refs e"
  shows "pinv X (upd_entry a f p) L W"
proof (rule pinv_same [OF assms(1)])
  note D = pinvD [OF assms(1)]
  show "same_shape p (upd_entry a f p)" by (simp add: same_shape_def upd_entry_def assms(2))
  have U: "e_refs (p_heap (upd_entry a f p) b) = e_refs (p_heap p b)"
    "e_rec (p_heap (upd_entry a f p) b) = e_rec (p_heap p b)" "p_next (upd_entry a f p) = p_next p" for b
    by (simp_all add: upd_entry_def assms(2))
  then show "lease_ok (upd_entry a f p) L" using D(3) by (simp add: lease_ok_def)
  show "b \<in> set (p_draining p) \<Longrightarrow> e_refs (p_heap (upd_entry a f p) b) > 0" for b
    using D(4) unfolding U by (simp add: drain_ok_def)
qed (simp add: upd_entry_def)

lemma lease_inv:
  assumes "pinv X p L W" "e_rec (p_heap p a) = Some h"
  shows "pinv X (upd_entry a (\<lambda>e. e\<lparr>e_refs := e_refs e + 1, e_used := now\<rparr>) p) (add_mset (a, Some h) L) W"
proof (rule pinv_same [OF assms(1)])
  note D = pinvD [OF assms(1)]
  let ?q = "upd_entry a (\<lambda>e. e\<lparr>e_refs := e_refs e + 1, e_used := now\<rparr>) p"
  show "same_shape p ?q" by (simp add: same_shape_def upd_entry_def)
  have "a < p_next p" using D(5) assms(2) unfolding rec_ok_def by blast
  moreover have "e_refs (p_heap ?q b) = e_refs (p_heap p b) + (if b = a then 1 else 0)"
    "e_rec (p_heap ?q b) = e_rec (p_heap p b)" "p_next ?q = p_next p" for b by (simp_all add: upd_entry_def)
  ultimately show "lease_ok ?q (add_mset (a, Some h) L)" using D(3) assms(2) by (simp add: lease_ok_def)
  show "b \<in> set (p_draining p) \<Longrightarrow> e_refs (p_heap ?q b) > 0" for b
    using D(4) by (auto simp: drain_ok_def upd_entry_def)
qed (simp add: upd_entry_def)

lemma kept_drop: "kept (insert a X) p \<Longrightarrow> e_rec (p_heap p a) = None \<Longrightarrow> kept X p"
  unfolding kept_def insert_iff by metis

lemma unload_W:
  assumes "pinv X p L W" "a \<notin> snd ` set (p_current p)"
  shows "pinv X p L (W - {a})"
proof -
  note D = pinvD [OF assms(1)]
  have "cur_ok p (W - {a})"
  proof (rule cur_okI)
    fix k b assume kb: "(k, b) \<in> set (p_current p)"
    then have "b \<noteq> a" using assms(2) by force
    with cur_okD [OF D(1) kb] show "b < p_next p \<and> e_id (p_heap p b) = k
        \<and> (e_state (p_heap p b) = ModelReady \<and> e_rec (p_heap p b) \<noteq> None
           \<or> e_state (p_heap p b) = ModelLoading \<and> b \<in> W - {a})" by simp
  qed (rule cur_distinct [OF D(1)])
  moreover have "load_ok p (W - {a})" using D(2) by (simp add: load_ok_def)
  ultimately show ?thesis using D by (simp add: pinv_def)
qed

lemma discard_inv:
  assumes "pinv X p L W"
  shows "pinv X (p\<lparr>p_nrec := Suc (p_nrec p), p_closes := p_closes p @ [p_nrec p]\<rparr>) L W"
proof -
  note D = pinvD [OF assms]
  let ?q = "p\<lparr>p_nrec := Suc (p_nrec p), p_closes := p_closes p @ [p_nrec p]\<rparr>"
  have "rec_ok ?q" using D(5) unfolding rec_ok_def by (auto simp: less_Suc_eq)
  moreover have "cur_ok ?q W" "load_ok ?q W" "lease_ok ?q L" "drain_ok ?q" "kept X ?q"
    using D by (simp_all add: cur_ok_def load_ok_def lease_ok_def drain_ok_def kept_def)
  ultimately show ?thesis by (simp add: pinv_def)
qed

text \<open>A load that ends: the placeholder turns into a serving entry with one lease.\<close>

lemma install_inv:
  assumes "pinv X p L W" "a \<in> W" "(k, a) \<in> set (p_current p)"
    and f: "\<And>e. e_rec (f e) = Some (p_nrec p) \<and> e_id (f e) = e_id e \<and> e_state (f e) = ModelReady \<and> e_refs (f e) = 1"
  shows "pinv X (upd_entry a f (p\<lparr>p_nrec := Suc (p_nrec p)\<rparr>)) (add_mset (a, Some (p_nrec p)) L) (W - {a})"
proof -
  note D = pinvD [OF assms(1)]
  have ld: "a < p_next p" "e_state (p_heap p a) = ModelLoading" "e_rec (p_heap p a) = None"
    using D(2) assms(2) by (auto simp: load_ok_def)
  have z: "e_refs (p_heap p a) = 0" by (rule leased_rec [OF D(3) ld(3)])
  let ?q = "upd_entry a f (p\<lparr>p_nrec := Suc (p_nrec p)\<rparr>)"
  have q: "p_current ?q = p_current p" "p_draining ?q = p_draining p"
    "p_heap ?q = (p_heap p)(a := f (p_heap p a))" "p_next ?q = p_next p" "p_closed ?q = p_closed p"
    "p_nrec ?q = Suc (p_nrec p)" "p_closes ?q = p_closes p" by (simp_all add: upd_entry_def)
  have nd: "a \<notin> set (p_draining p)" using D(4) z by (auto simp: drain_ok_def)
  have "cur_ok ?q (W - {a})"
  proof (rule cur_okI)
    fix k' b assume "(k', b) \<in> set (p_current ?q)"
    then have "(k', b) \<in> set (p_current p)" by (simp add: q)
    from cur_okD [OF D(1) this] f show "b < p_next ?q \<and> e_id (p_heap ?q b) = k'
        \<and> (e_state (p_heap ?q b) = ModelReady \<and> e_rec (p_heap ?q b) \<noteq> None
           \<or> e_state (p_heap ?q b) = ModelLoading \<and> b \<in> W - {a})" by (auto simp: q)
  qed (simp add: q cur_distinct [OF D(1)])
  moreover have "load_ok ?q (W - {a})" using D(2) by (auto simp: load_ok_def q)
  moreover have "lease_ok ?q (add_mset (a, Some (p_nrec p)) L)"
  proof -
    have c: "count (image_mset fst L) a = 0" using D(3) z by (simp add: lease_ok_def)
    have "fst x \<noteq> a" if "x \<in># L" for x using unleased [OF D(3) z that] .
    with D(3) f ld(1) c show ?thesis by (auto simp: lease_ok_def q)
  qed
  moreover have "drain_ok ?q" using D(4) nd by (auto simp: drain_ok_def q)
  moreover have "rec_ok ?q"
  proof -
    have R: "\<And>a h. e_rec (p_heap p a) = Some h \<Longrightarrow> a < p_next p \<and> h < p_nrec p \<and> h \<notin> set (p_closes p)"
      "\<And>a b h. e_rec (p_heap p a) = Some h \<Longrightarrow> e_rec (p_heap p b) = Some h \<Longrightarrow> a = b"
      "distinct (p_closes p)" "\<And>h. h \<in> set (p_closes p) \<Longrightarrow> h < p_nrec p"
      "\<And>h. h < p_nrec p \<Longrightarrow> h \<in> set (p_closes p) \<or> (\<exists>a. e_rec (p_heap p a) = Some h)"
      using D(5) unfolding rec_ok_def by blast+
    have rc: "e_rec (p_heap ?q b) = (if b = a then Some (p_nrec p) else e_rec (p_heap p b))" for b
      using f by (simp add: q)
    show ?thesis unfolding rec_ok_def rc q(4,6,7)
    proof (intro conjI allI impI ballI)
      fix b h assume "(if b = a then Some (p_nrec p) else e_rec (p_heap p b)) = Some h"
      then show "b < p_next p" "h < Suc (p_nrec p)" "h \<notin> set (p_closes p)"
        using R(1) [of b h] R(4) [of h] ld(1) by (auto split: if_splits)
    next
      fix b c h assume "(if b = a then Some (p_nrec p) else e_rec (p_heap p b)) = Some h"
        "(if c = a then Some (p_nrec p) else e_rec (p_heap p c)) = Some h"
      then show "b = c" using R(1) [of b h] R(1) [of c h] R(2) [of b h c] by (auto split: if_splits)
    next
      fix h assume "h < Suc (p_nrec p)"
      then show "h \<in> set (p_closes p) \<or> (\<exists>b. (if b = a then Some (p_nrec p) else e_rec (p_heap p b)) = Some h)"
        using R(5) [of h] ld(3) by (metis less_Suc_eq option.distinct(1))
    qed (use R(3,4) in \<open>auto simp: less_SucI\<close>)
  qed
  moreover have "kept X ?q"
  proof -
    have "a \<in> snd ` set (p_current p)" using assms(3) by force
    with D(6) show ?thesis by (auto simp: kept_def q)
  qed
  ultimately show ?thesis by (simp add: pinv_def)
qed

lemma lease_ok_remove:
  assumes "lease_ok p L" "(a, r) \<in># L" "\<And>b. e_refs (p_heap q b) = e_refs (p_heap p b) - (if b = a then 1 else 0)"
    "\<And>b. e_rec (p_heap q b) = e_rec (p_heap p b)" "p_next q = p_next p"
  shows "lease_ok q (L - {#(a, r)#})"
proof -
  obtain L' where L: "L = add_mset (a, r) L'" using assms(2) by (metis insert_DiffM)
  show ?thesis using assms(1) unfolding L lease_ok_def assms(3-5) by auto
qed

lemma release_inv [step_inv]:
  assumes "pinv {} p L W" "(a, r) \<in># L"
  shows "pinv {} (pool_release p a now) (L - {#(a, r)#}) W"
proof -
  note D = pinvD [OF assms(1)]
  let ?f = "\<lambda>e. e\<lparr>e_refs := (if e_refs e - 1 < 0 then 0 else e_refs e - 1), e_used := now\<rparr>"
  define p1 where "p1 = upd_entry a ?f p"
  have "a \<in># image_mset fst L" using assms(2) by force
  then have "count (image_mset fst L) a > 0" by simp
  then have pos: "e_refs (p_heap p a) > 0" using D(3) by (simp add: lease_ok_def)
  have U: "e_refs (p_heap p1 b) = e_refs (p_heap p b) - (if b = a then 1 else 0)"
    "e_rec (p_heap p1 b) = e_rec (p_heap p b)" "e_state (p_heap p1 b) = e_state (p_heap p b)"
    "p_next p1 = p_next p" "p_draining p1 = p_draining p" for b
    using pos by (simp_all add: p1_def upd_entry_def)
  have sh: "same_shape p p1" by (simp add: same_shape_def p1_def upd_entry_def)
  have l1: "lease_ok p1 (L - {#(a, r)#})" by (rule lease_ok_remove [OF D(3) assms(2) U(1) U(2) U(4)])
  define p2 where "p2 = (if e_state (p_heap p1 a) = ModelDraining \<and> e_refs (p_heap p1 a) = 0
    then removeDraining a (closeLocked a p1) else p1)"
  have "pinv {} p2 (L - {#(a, r)#}) W"
  proof (cases "e_state (p_heap p a) = ModelDraining \<and> e_refs (p_heap p1 a) = 0")
    case False
    have "pinv {} p1 (L - {#(a, r)#}) W"
    proof (rule pinv_same [OF assms(1) sh U(5) l1])
      fix b assume b: "b \<in> set (p_draining p)"
      then have "e_refs (p_heap p b) > 0" "e_state (p_heap p b) = ModelDraining"
        using D(4) by (simp_all add: drain_ok_def)
      then show "e_refs (p_heap p1 b) > 0" using False U(1) [of a] U(1) [of b] pos by (cases "b = a") auto
    qed
    with False show ?thesis by (auto simp: p2_def U(3))
  next
    case True
    let ?q = "removeDraining a p1"
    have q: "p_current ?q = p_current p" "p_draining ?q = remove1 a (p_draining p)" "p_heap ?q = p_heap p1"
      "p_next ?q = p_next p" "p_closed ?q = p_closed p" "p_nrec ?q = p_nrec p" "p_closes ?q = p_closes p"
      by (simp_all add: removeDraining_def p1_def upd_entry_def)
    have I: "e_id (p_heap p1 b) = e_id (p_heap p b)" for b by (simp add: p1_def upd_entry_def)
    have "cur_ok ?q W" using D(1) by (simp add: cur_ok_def q U(2,3) I)
    moreover have "load_ok ?q W" using D(2) by (simp add: load_ok_def q U(2,3))
    moreover have "lease_ok ?q (L - {#(a, r)#})" using l1 U(4) by (simp add: lease_ok_def q)
    moreover have "drain_ok ?q" using D(4) by (auto simp: drain_ok_def q U)
    moreover have "rec_ok ?q" by (rule rec_ok_same [OF D(5)]) (simp_all add: q U(2))
    moreover have "kept {a} ?q" using D(6) by (auto simp: kept_def q U(2))
    ultimately have Q: "pinv {a} ?q (L - {#(a, r)#}) W" by (simp add: pinv_def)
    have "a \<notin> snd ` set (p_current ?q)" using cur_okD [OF D(1), of _ a] True by (auto simp: q)
    from closeLocked_inv [OF Q _ this] True have "pinv {} (closeLocked a ?q) (L - {#(a, r)#}) W"
      by (simp add: q)
    moreover have "closeLocked a ?q = removeDraining a (closeLocked a p1)"
      by (simp add: closeLocked_def removeDraining_def upd_entry_def split: option.split)
    ultimately show ?thesis using True by (simp add: p2_def U(3))
  qed
  moreover have "pool_release p a now = (if overLimit p2 then evictLocked p2 else p2)"
    by (simp add: pool_release_def Let_def p2_def p1_def)
  ultimately show ?thesis using evict_inv by simp
qed

text \<open>A counter that runs ahead of the entries does not matter to retiring.\<close>

lemma closeLocked_nrec: "closeLocked a (p\<lparr>p_nrec := n\<rparr>) = (closeLocked a p)\<lparr>p_nrec := n\<rparr>"
  by (simp add: closeLocked_def upd_entry_def split: option.split)

lemma retireLocked_nrec: "retireLocked a (p\<lparr>p_nrec := n\<rparr>) = (retireLocked a p)\<lparr>p_nrec := n\<rparr>"
proof -
  have "del_current k (p\<lparr>p_nrec := n\<rparr>) = (del_current k p)\<lparr>p_nrec := n\<rparr>" for k by (simp add: del_current_def)
  then show ?thesis by (simp add: retireLocked_def Let_def closeLocked_nrec upd_entry_def)
qed

lemma retireVariants_nrec: "retireVariants base (p\<lparr>p_nrec := n\<rparr>) = (retireVariants base p)\<lparr>p_nrec := n\<rparr>"
proof -
  let ?f = "\<lambda>p a. if is_variant_of base (p_heap p a) then retireLocked a p else p"
  have "foldl ?f (p\<lparr>p_nrec := n\<rparr>) as = (foldl ?f p as)\<lparr>p_nrec := n\<rparr>" for as p
    by (induction as arbitrary: p) (auto simp: retireLocked_nrec)
  then show ?thesis by (simp add: retireVariants_def)
qed

lemma retire_nrec_same: "p_nrec (retireLocked a p) = p_nrec p" "p_nrec (retireVariants base p) = p_nrec p"
proof -
  show one: "p_nrec (retireLocked a p) = p_nrec p" for a p
    by (simp add: retireLocked_def Let_def upd_entry_def)
  have "p_nrec (foldl (\<lambda>p a. if is_variant_of base (p_heap p a) then retireLocked a p else p) p as) = p_nrec p" for as
    by (induction as arbitrary: p) (auto simp: one)
  then show "p_nrec (retireVariants base p) = p_nrec p" by (simp add: retireVariants_def)
qed

lemma retireVariants_subset: "set (p_current (retireVariants base p)) \<subseteq> set (p_current p)"
proof -
  have "set (p_current (foldl (\<lambda>p a. if is_variant_of base (p_heap p a) then retireLocked a p else p) p as))
      \<subseteq> set (p_current p)" for as
  proof (induction as arbitrary: p)
    case (Cons a as)
    have "set (p_current (retireLocked a p)) \<subseteq> set (p_current p)" by (auto simp: retire_current set_del_current)
    with Cons.IH [of "retireLocked a p"] Cons.IH [of p] show ?case by auto
  qed simp
  then show ?thesis by (simp add: retireVariants_def)
qed

lemma reload_inv [step_inv]:
  assumes "pinv {} p L W"
  shows "pinv {} (fst (pool_Reload p mid rv res now)) L W"
proof (cases res)
  case (Inl e)
  with assms show ?thesis by (simp add: pool_Reload_def)
next
  case (Inr man)
  show ?thesis
  proof (cases "rv \<noteq> [] \<and> mf_revision man \<noteq> rv")
    case True
    with discard_inv [OF assms] show ?thesis by (simp add: pool_Reload_def Inr fresh_rec_def)
  next
    case False
    define q where "q = (case map_of (p_current p) mid of None \<Rightarrow> p | Some o' \<Rightarrow> retireLocked o' p)"
    define p3 where "p3 = retireVariants mid q"
    note C = map_of_current [OF pinvD(1) [OF assms]]
    have q: "pinv {} q L W" "mid \<notin> fst ` set (p_current q)" "p_nrec q = p_nrec p"
    proof -
      show "pinv {} q L W"
      proof (cases "map_of (p_current p) mid")
        case (Some a)
        then have "(mid, a) \<in> set (p_current p)" using C by simp
        from retire_inv [OF assms this] show ?thesis by (simp only: q_def Some option.case)
      qed (simp add: q_def assms)
      show "p_nrec q = p_nrec p" by (auto simp: q_def retire_nrec_same split: option.splits)
      show "mid \<notin> fst ` set (p_current q)"
      proof (cases "map_of (p_current p) mid")
        case None
        then have "q = p" by (simp add: q_def)
        with None show ?thesis by (simp add: map_of_eq_None_iff)
      next
        case (Some a)
        then have "e_id (p_heap p a) = mid" using C cur_okD [OF pinvD(1) [OF assms]] by blast
        then show ?thesis by (auto simp: q_def Some retire_current set_del_current)
      qed
    qed
    have p3: "pinv {} p3 L W" "p_nrec p3 = p_nrec p" "\<forall>(k, b)\<in>set (p_current p3). k \<noteq> mid"
      using retireVariants_inv [OF q(1)] q(2,3) retireVariants_subset [of mid q]
      by (force simp: p3_def retire_nrec_same)+
    let ?e = "\<lparr>e_id = mid, e_base = mid, e_manifest = man, e_rec = Some (p_nrec p), e_state = ModelReady,
        e_refs = 0, e_pinned = (case map_of (p_current p) mid of None \<Rightarrow> False | Some o' \<Rightarrow> e_pinned (p_heap p o')),
        e_rss = mf_rss man, e_used = now, e_ready = True, e_loaderr = None\<rparr>"
    have "pinv {} (put_current mid (p_next p3) (snd (alloc ?e (p3\<lparr>p_nrec := Suc (p_nrec p3)\<rparr>)))) L W"
      by (rule put_inv [OF p3(1)]) (use p3 in auto)
    from evict_inv [OF this] have E: "pinv {} (evictLocked (put_current mid (p_next p3)
        (snd (alloc ?e (p3\<lparr>p_nrec := Suc (p_nrec p)\<rparr>))))) L W" by (simp only: p3(2))
    have "(case map_of (p_current p) mid of None \<Rightarrow> p\<lparr>p_nrec := Suc (p_nrec p)\<rparr>
        | Some o' \<Rightarrow> retireLocked o' (p\<lparr>p_nrec := Suc (p_nrec p)\<rparr>)) = q\<lparr>p_nrec := Suc (p_nrec p)\<rparr>"
      by (simp add: q_def retireLocked_nrec split: option.split)
    then have "fst (pool_Reload p mid rv res now) =
        evictLocked (put_current mid (p_next p3) (snd (alloc ?e (p3\<lparr>p_nrec := Suc (p_nrec p)\<rparr>))))"
      using False by (auto simp: pool_Reload_def Inr fresh_rec_def Let_def p3_def retireVariants_nrec alloc_def
          cong: option.case_cong)
    with E show ?thesis by simp
  qed
qed

lemma unload_inv [step_inv]: "pinv X p L W \<Longrightarrow> pinv X (fst (pool_Unload p mid)) L W"
  using map_of_current [OF pinvD(1)]
  by (auto simp: pool_Unload_def split: option.splits intro: retireVariants_inv retire_inv)

lemma pin_inv [step_inv]: "pinv X p L W \<Longrightarrow> pinv X (fst (pool_Pin p mid b)) L W"
  by (auto simp: pool_Pin_def split: option.splits intro: upd_flags_inv)

lemma close_idle_fold_inv: "pinv X p L W \<Longrightarrow> set as \<inter> snd ` set (p_current p) = {} \<Longrightarrow> pinv X (foldl close_idle p as) L W"
proof (induction as arbitrary: p)
  case (Cons a as)
  have "pinv X (close_idle p a) L W"
  proof (cases "e_refs (p_heap p a) = 0")
    case True
    have "pinv (insert a X) p L W" using Cons.prems(1) by (auto simp: pinv_def kept_def)
    from closeLocked_inv [OF this True] Cons.prems(2) True show ?thesis by (simp add: close_idle_def)
  next
    case False
    with Cons.prems show ?thesis by (simp add: close_idle_def)
  qed
  moreover have "set as \<inter> snd ` set (p_current (close_idle p a)) = {}"
    using Cons.prems(2) by (auto simp: close_idle_def)
  ultimately show ?case using Cons.IH by simp
qed simp

lemma close_idle_fold_current:
  "(foldl close_idle p as)\<lparr>p_current := c\<rparr> = foldl close_idle (p\<lparr>p_current := c\<rparr>) as"
proof (induction as arbitrary: p)
  case (Cons a as)
  have "close_idle (p\<lparr>p_current := c\<rparr>) a = (close_idle p a)\<lparr>p_current := c\<rparr>"
    by (simp add: close_idle_def closeLocked_def upd_entry_def split: option.split)
  with Cons show ?case by simp
qed simp

lemma close_idle_frame: "p_current (foldl close_idle p as) = p_current p"
  "p_draining (foldl close_idle p as) = p_draining p" "p_closed (foldl close_idle p as) = p_closed p"
  by (induction as arbitrary: p) (auto simp: close_idle_def)

lemma close_end_inv [step_inv]:
  assumes "pinv X p L W" "p_closed p"
  shows "pinv X (pool_close_end p) L W"
proof -
  note D = pinvD [OF assms(1)]
  have "pinv X (p\<lparr>p_current := []\<rparr>) L W"
    using D assms(2) by (simp add: pinv_def cur_ok_def load_ok_def lease_ok_def drain_ok_def rec_ok_def kept_def)
  then have 1: "pinv X ((foldl close_idle p (map snd (p_current p)))\<lparr>p_current := []\<rparr>) L W"
    unfolding close_idle_fold_current by (rule close_idle_fold_inv) simp
  define p1 where "p1 = (foldl close_idle p (map snd (p_current p)))\<lparr>p_current := []\<rparr>"
  have c: "p_closed p1" "p_current p1 = []" by (simp_all add: p1_def close_idle_frame assms(2))
  have "pinv X (p1\<lparr>p_draining := []\<rparr>) L W"
    using pinvD [OF 1 [folded p1_def]] c
    by (simp add: pinv_def cur_ok_def load_ok_def lease_ok_def drain_ok_def rec_ok_def kept_def)
  then have "pinv X (foldl close_idle (p1\<lparr>p_draining := []\<rparr>) (p_draining p1)) L W"
    by (rule close_idle_fold_inv) (simp add: c)
  then show ?thesis by (simp add: pool_close_end_def Let_def p1_def)
qed

lemma begin_inv:
  assumes "pinv {} p L W"
  shows "acq_begin p key base now = AcqLease a q \<Longrightarrow>
      e_rec (p_heap q a) \<noteq> None \<and> pinv {} q (add_mset (a, e_rec (p_heap q a)) L) W"
    and "acq_begin p key base now = AcqLoad a q \<Longrightarrow> pinv {} q L (insert a W)"
proof -
  note D = pinvD [OF assms] and C = map_of_current [OF pinvD(1) [OF assms]]
  have st: "e_state (p_heap p b) \<in> {ModelReady, ModelLoading}" if "map_of (p_current p) key = Some b" for b
    using that C cur_okD [OF D(1)] by blast
  show "e_rec (p_heap q a) \<noteq> None \<and> pinv {} q (add_mset (a, e_rec (p_heap q a)) L) W"
    if "acq_begin p key base now = AcqLease a q"
  proof -
    have m: "map_of (p_current p) key = Some a" "e_state (p_heap p a) = ModelReady"
      "q = upd_entry a (\<lambda>e. e\<lparr>e_refs := e_refs e + 1, e_used := now\<rparr>) p"
      using that by (auto simp: acq_begin_def alloc_def Let_def split: if_splits option.splits model_state.splits)
    then have "(key, a) \<in> set (p_current p)" using C by simp
    from cur_okD [OF D(1) this] m(2) obtain h where h: "e_rec (p_heap p a) = Some h" by auto
    have "e_rec (p_heap q a) = Some h" by (simp add: m(3) upd_entry_def h)
    with lease_inv [OF assms h, of now] show ?thesis by (simp add: m(3))
  qed
  show "pinv {} q L (insert a W)" if "acq_begin p key base now = AcqLoad a q"
  proof -
    have none: "map_of (p_current p) key = None"
      using that st by (cases "map_of (p_current p) key")
        (auto simp: acq_begin_def alloc_def Let_def split: if_splits model_state.splits)
    have q: "a = p_next p" "q = put_current key (p_next p) (snd (alloc (new_entry key base now) p))"
      using that by (auto simp: acq_begin_def alloc_def Let_def none split: if_splits)
    have "pinv {} (put_current key (p_next p) (snd (alloc (new_entry key base now) (p\<lparr>p_nrec := p_nrec p\<rparr>)))) L
        (insert (p_next p) W)"
      by (rule put_inv [OF assms]) (use none in \<open>force simp: new_entry_def map_of_eq_None_iff\<close>)+
    then show ?thesis by (simp add: q)
  qed
qed

lemma loaded_inv:
  assumes "pinv {} p L W" "a \<in> W" "key = e_id (p_heap p a)"
    "acq_loaded p a key res now = (q, r)"
  shows "case r of Inl _ \<Rightarrow> pinv {} q L (W - {a})
    | Inr b \<Rightarrow> e_rec (p_heap q b) \<noteq> None \<and> pinv {} q (add_mset (b, e_rec (p_heap q b)) L) (W - {a})"
proof -
  note D = pinvD [OF assms(1)] and C = map_of_current [OF pinvD(1) [OF assms(1)]]
  have ra: "e_rec (p_heap p a) = None" using D(2) assms(2) by (simp add: load_ok_def)
  have notin: "a \<notin> snd ` set (p_current p)" if "map_of (p_current p) key \<noteq> Some a"
  proof
    assume "a \<in> snd ` set (p_current p)"
    then obtain k where k: "(k, a) \<in> set (p_current p)" by auto
    with cur_okD [OF D(1) k] assms(3) C that show False by simp
  qed
  show ?thesis
  proof (cases res)
    case (Inl err)
    let ?p1 = "upd_entry a (\<lambda>e. e\<lparr>e_loaderr := Some err, e_ready := True\<rparr>) p"
    have r: "r = Inl err" using assms(4) by (auto simp: acq_loaded_def Inl Let_def)
    have I: "pinv {} ?p1 L W" by (rule upd_flags_inv [OF assms(1)]) simp
    have c: "p_current ?p1 = p_current p" by (simp add: upd_entry_def)
    show ?thesis
    proof (cases "map_of (p_current p) key = Some a")
      case True
      then have "(key, a) \<in> set (p_current ?p1)" using C c by simp
      note J = del_current_inv [OF I this]
      have q: "q = del_current key ?p1" using assms(4) True by (auto simp: acq_loaded_def Inl Let_def c)
      have "e_rec (p_heap q a) = None" using ra by (simp add: q upd_entry_def)
      with J have "pinv {} q L W" unfolding q pinv_def using kept_drop by blast
      moreover have "a \<notin> snd ` set (p_current q)"
        unfolding q by (rule out_of_current [OF pinvD(1) [OF I] \<open>(key, a) \<in> set (p_current ?p1)\<close>])
      ultimately show ?thesis using unload_W by (simp add: r)
    next
      case False
      then have "q = ?p1" using assms(4) by (auto simp: acq_loaded_def Inl Let_def c)
      with unload_W [OF I] notin [OF False] c show ?thesis by (simp add: r)
    qed
  next
    case (Inr man)
    show ?thesis
    proof (cases "map_of (p_current p) key = Some a")
      case True
      let ?f = "\<lambda>e. e\<lparr>e_rec := Some (p_nrec p), e_manifest := man, e_rss := mf_rss man,
                 e_state := ModelReady, e_refs := 1, e_used := now, e_ready := True\<rparr>"
      have "(key, a) \<in> set (p_current p)" using True C by simp
      from install_inv [OF assms(1,2) this, where f = ?f]
      have J: "pinv {} (evictLocked (upd_entry a ?f (p\<lparr>p_nrec := Suc (p_nrec p)\<rparr>)))
          (add_mset (a, Some (p_nrec p)) L) (W - {a})" by (intro evict_inv) simp
      have q: "q = evictLocked (upd_entry a ?f (p\<lparr>p_nrec := Suc (p_nrec p)\<rparr>))" "r = Inr a"
        using assms(4) True by (auto simp: acq_loaded_def Inr fresh_rec_def)
      have "e_rec (p_heap q a) = Some (p_nrec p)" using pinvD(3) [OF J] by (simp add: q lease_ok_def)
      with J show ?thesis by (simp add: q)
    next
      case False
      let ?p2 = "p\<lparr>p_nrec := Suc (p_nrec p), p_closes := p_closes p @ [p_nrec p]\<rparr>"
      have d: "pinv {} ?p2 L (W - {a})"
        by (rule unload_W [OF discard_inv [OF assms(1)]]) (use notin [OF False] in simp)
      show ?thesis
      proof (cases "\<exists>b. map_of (p_current p) key = Some b \<and> e_state (p_heap p b) = ModelReady")
        case True
        then obtain b where b: "map_of (p_current p) key = Some b" "e_state (p_heap p b) = ModelReady" by blast
        then have "(key, b) \<in> set (p_current p)" using C by simp
        from cur_okD [OF D(1) this] b(2) obtain h where h: "e_rec (p_heap ?p2 b) = Some h" by auto
        let ?q1 = "upd_entry b (\<lambda>e. e\<lparr>e_refs := e_refs e + 1, e_used := now\<rparr>) ?p2"
        have q: "q = upd_entry a (\<lambda>e. e\<lparr>e_ready := True\<rparr>) ?q1" "r = Inr b"
          using assms(4) False b by (auto simp: acq_loaded_def Inr fresh_rec_def Let_def)
        have "pinv {} q (add_mset (b, Some h) L) (W - {a})"
          unfolding q by (rule upd_flags_inv [OF lease_inv [OF d h]]) simp
        moreover have "e_rec (p_heap q b) = Some h" using h by (auto simp: q upd_entry_def)
        ultimately show ?thesis by (simp add: q)
      next
        case none: False
        have q: "q = upd_entry a (\<lambda>e. e\<lparr>e_loaderr := Some (Domain CodeModelUnavailable []), e_ready := True\<rparr>) ?p2"
          "r = Inl (Domain CodeModelUnavailable [])"
          using assms(4) False none
          by (auto simp: acq_loaded_def Inr fresh_rec_def Let_def split: option.splits if_splits)
        have "pinv {} q L (W - {a})" unfolding q by (rule upd_flags_inv [OF d]) simp
        then show ?thesis by (simp add: q)
      qed
    qed
  qed
qed

subsection \<open>All interleavings\<close>

inductive pool_step :: "pool \<times> leases \<times> nat set \<Rightarrow> pool \<times> leases \<times> nat set \<Rightarrow> bool" where
  lease: "acq_begin p key base now = AcqLease a q \<Longrightarrow> pool_step (p, L, W) (q, add_mset (a, e_rec (p_heap q a)) L, W)"
| claim: "acq_begin p key base now = AcqLoad a q \<Longrightarrow> pool_step (p, L, W) (q, L, insert a W)"
| served: "a \<in> W \<Longrightarrow> acq_loaded p a (e_id (p_heap p a)) res now = (q, Inr b) \<Longrightarrow>
    pool_step (p, L, W) (q, add_mset (b, e_rec (p_heap q b)) L, W - {a})"
| refused: "a \<in> W \<Longrightarrow> acq_loaded p a (e_id (p_heap p a)) res now = (q, Inl e) \<Longrightarrow>
    pool_step (p, L, W) (q, L, W - {a})"
| release: "(a, r) \<in># L \<Longrightarrow> pool_step (p, L, W) (pool_release p a now, L - {#(a, r)#}, W)"
| reload: "pool_step (p, L, W) (fst (pool_Reload p mid rv res now), L, W)"
| unload: "pool_step (p, L, W) (fst (pool_Unload p mid), L, W)"
| pin: "pool_step (p, L, W) (fst (pool_Pin p mid b), L, W)"
| sweep: "pool_step (p, L, W) (fst (pool_Sweep p now), L, W)"
| close_begin: "pool_step (p, L, W) (pool_close_begin p, L, W)"
| close_end: "p_closed p \<Longrightarrow> pool_step (p, L, W) (pool_close_end p, L, W)"
| shuffle: "mset c = mset (p_current p) \<Longrightarrow> pool_step (p, L, W) (p\<lparr>p_current := c\<rparr>, L, W)"

inductive pool_reach :: "pool \<times> leases \<times> nat set \<Rightarrow> bool" where
  init: "pool_reach (pool_New models rss ttl variants, {#}, {})"
| step: "pool_reach s \<Longrightarrow> pool_step s s' \<Longrightarrow> pool_reach s'"

lemma lease_rec: "lease_ok p L \<Longrightarrow> x \<in># L \<Longrightarrow> snd x \<noteq> None \<and> e_rec (p_heap p (fst x)) = snd x"
  unfolding lease_ok_def by blast

lemma close_begin_inv [step_inv]:
  assumes "pinv {} p L W"
  shows "pinv {} (pool_close_begin p) L W"
proof -
  note D = pinvD [OF assms]
  let ?q = "p\<lparr>p_closed := True\<rparr>"
  have "cur_ok ?q W" "load_ok ?q W" "lease_ok ?q L" "drain_ok ?q" "rec_ok ?q" "kept {} ?q"
    using D by (simp_all add: cur_ok_def load_ok_def lease_ok_def drain_ok_def rec_ok_def kept_def)
  then show ?thesis by (simp add: pinv_def pool_close_begin_def)
qed

lemma shuffle_inv [step_inv]:
  assumes "pinv {} p L W" "mset c = mset (p_current p)"
  shows "pinv {} (p\<lparr>p_current := c\<rparr>) L W"
proof -
  note D = pinvD [OF assms(1)]
  have s: "set c = set (p_current p)" using assms(2) by (rule mset_eq_setD)
  have "mset (map fst c) = mset (map fst (p_current p))" by (simp add: assms(2))
  then have "distinct (map fst c) = distinct (map fst (p_current p))" by (rule mset_eq_imp_distinct_iff)
  then have "cur_ok (p\<lparr>p_current := c\<rparr>) W" using D(1) by (simp add: cur_ok_def s)
  moreover have "load_ok (p\<lparr>p_current := c\<rparr>) W" "lease_ok (p\<lparr>p_current := c\<rparr>) L"
    "drain_ok (p\<lparr>p_current := c\<rparr>)" "rec_ok (p\<lparr>p_current := c\<rparr>)" "kept {} (p\<lparr>p_current := c\<rparr>)"
    using D by (simp_all add: load_ok_def lease_ok_def drain_ok_def rec_ok_def kept_def s)
  ultimately show ?thesis by (simp add: pinv_def)
qed

lemma pool_step_inv:
  assumes "pool_step s s'" "pinv {} (fst s) (fst (snd s)) (snd (snd s))"
  shows "pinv {} (fst s') (fst (snd s')) (snd (snd s'))"
  using assms
proof (induction rule: pool_step.induct)
  case (lease p key base now a q L W)
  then show ?case using begin_inv(1) by auto
next
  case (claim p key base now a q L W)
  then show ?case using begin_inv(2) by auto
next
  case (served a W p res now q b L)
  then show ?case using loaded_inv [of p L W a _ res now q "Inr b"] by auto
next
  case (refused a W p res now q e L)
  then show ?case using loaded_inv [of p L W a _ res now q "Inl e"] by auto
qed (auto intro: step_inv)

lemma pool_reach_inv: "pool_reach (p, L, W) \<Longrightarrow> pinv {} p L W"
proof (induction "(p, L, W)" arbitrary: p L W rule: pool_reach.induct)
  case (init models rss ttl variants)
  show ?case
    by (simp add: pinv_def cur_ok_def load_ok_def lease_ok_def drain_ok_def rec_ok_def kept_def pool_New_def new_entry_def)
next
  case (step s p L W)
  then show ?case using pool_step_inv [of s "(p, L, W)"] by (cases s) auto
qed

text \<open>C16: whatever acquisitions, loads, releases, hot swaps, unloads, evictions, sweeps and a
  shutdown interleave, the recogniser a lease was handed stays open until the lease is
  returned, and no recogniser is ever closed twice.\<close>

theorem pool_lease_safe:
  assumes "pool_reach (p, L, W)"
  shows "(\<forall>(a, r)\<in>#L. \<exists>h. r = Some h \<and> e_rec (p_heap p a) = Some h \<and> h \<notin> set (p_closes p))
    \<and> distinct (p_closes p)"
proof -
  note D = pinvD [OF pool_reach_inv [OF assms]]
  have "\<exists>h. snd x = Some h \<and> e_rec (p_heap p (fst x)) = Some h \<and> h \<notin> set (p_closes p)" if "x \<in># L" for x
  proof -
    have "snd x \<noteq> None \<and> e_rec (p_heap p (fst x)) = snd x" by (rule lease_rec [OF D(3) that])
    then obtain h where "snd x = Some h" "e_rec (p_heap p (fst x)) = Some h" by auto
    moreover from this(2) have "h \<notin> set (p_closes p)" using D(5) unfolding rec_ok_def by blast
    ultimately show ?thesis by blast
  qed
  moreover have "distinct (p_closes p)" using D(5) by (simp add: rec_ok_def)
  ultimately show ?thesis by (auto simp: split_beta)
qed

text \<open>C17: while the pool is open no recogniser is lost: every one the loader ever made has been
  closed, or is held by exactly one entry, which is serving, or draining with a lease on it. In
  particular a load that was overtaken by a hot swap, an unload or a failure leaves nothing
  behind.\<close>

theorem pool_no_leak:
  assumes "pool_reach (p, L, W)" "\<not> p_closed p" "h < p_nrec p" "h \<notin> set (p_closes p)"
  shows "\<exists>a. (\<forall>b. e_rec (p_heap p b) = Some h \<longleftrightarrow> b = a)
    \<and> (a \<in> snd ` set (p_current p) \<or> a \<in> set (p_draining p) \<and> e_refs (p_heap p a) > 0)"
proof -
  note D = pinvD [OF pool_reach_inv [OF assms(1)]]
  obtain a where a: "e_rec (p_heap p a) = Some h" using D(5) assms(3,4) unfolding rec_ok_def by blast
  moreover have "e_rec (p_heap p b) = Some h \<Longrightarrow> b = a" for b using D(5) a unfolding rec_ok_def by blast
  moreover have "a \<in> snd ` set (p_current p) \<or> a \<in> set (p_draining p) \<and> e_refs (p_heap p a) > 0"
    using a D(4,6) assms(2) unfolding kept_def drain_ok_def by auto
  ultimately show ?thesis by blast
qed

text \<open>A concrete run: a model is loaded and leased, then swapped while the lease is out.\<close>

definition demo_m :: manifest where
  "demo_m = \<lparr>mf_revision = ''r1'', mf_rss = 100\<rparr>"

definition demo_pool :: pool where
  "demo_pool = pool_New 1 1024 60 0"

definition demo_claimed :: pool where
  "demo_claimed = put_current ''m'' 0 (snd (alloc (new_entry ''m'' ''m'' 1) demo_pool))"

definition demo_leased :: pool where
  "demo_leased = fst (acq_loaded demo_claimed 0 ''m'' (Inr demo_m) 2)"

definition demo_swapped :: pool where
  "demo_swapped = fst (pool_Reload demo_leased ''m'' [] (Inr demo_m) 3)"

lemma demo_claim: "acq_begin demo_pool ''m'' ''m'' 1 = AcqLoad 0 demo_claimed"
  by (simp add: acq_begin_def demo_pool_def pool_New_def demo_claimed_def alloc_def)

lemma demo_claimed_simps: "p_current demo_claimed = [(''m'', 0)]" "p_heap demo_claimed 0 = new_entry ''m'' ''m'' 1"
  "p_nrec demo_claimed = 0" "p_max_models demo_claimed = 1" "p_max_rss demo_claimed = 1024"
  "p_closes demo_claimed = []" "p_draining demo_claimed = []" "p_closed demo_claimed = False"
  "p_next demo_claimed = 1"
  by (simp_all add: demo_claimed_def put_current_def alloc_def demo_pool_def pool_New_def)

lemma demo_leased_eq:
  "acq_loaded demo_claimed 0 ''m'' (Inr demo_m) 2 = (demo_leased, Inr 0)"
  "p_current demo_leased = [(''m'', 0)]" "e_rec (p_heap demo_leased 0) = Some 0" "p_closes demo_leased = []"
  "e_refs (p_heap demo_leased 0) = 1" "p_nrec demo_leased = 1" "p_max_models demo_leased = 1"
  "p_max_rss demo_leased = 1024" "e_id (p_heap demo_leased 0) = ''m''" "e_base (p_heap demo_leased 0) = ''m''"
  "p_draining demo_leased = []" "p_closed demo_leased = False" "p_next demo_leased = 1"
  by (simp_all add: demo_leased_def acq_loaded_def fresh_rec_def demo_claimed_simps upd_entry_def evictLocked_def
      overLimit_def demo_m_def new_entry_def)

lemma demo_swapped_simps: "p_current demo_swapped = [(''m'', 1)]" "p_closes demo_swapped = []"
  "p_draining demo_swapped = [0]" "p_nrec demo_swapped = 2" "p_closed demo_swapped = False"
  by (simp_all add: demo_swapped_def pool_Reload_def fresh_rec_def demo_leased_eq Let_def retireLocked_def
      upd_entry_def del_current_def retireVariants_def alloc_def put_current_def evictLocked_def overLimit_def demo_m_def)

lemma demo_swapped_reach: "pool_reach (demo_swapped, {#(0, Some 0)#}, {})"
proof -
  have 0: "pool_reach (demo_pool, {#}, {})" unfolding demo_pool_def by (rule pool_reach.init)
  have 1: "pool_reach (demo_claimed, {#}, {0})"
    using pool_reach.step [OF 0 pool_step.claim [OF demo_claim]] by simp
  have "pool_step (demo_claimed, {#}, {0}) (demo_leased, add_mset (0, e_rec (p_heap demo_leased 0)) {#}, {0} - {0})"
    by (rule pool_step.served [where res = "Inr demo_m" and now = 2])
      (simp_all add: demo_claimed_simps new_entry_def demo_leased_eq(1))
  from pool_reach.step [OF 1 this] have 2: "pool_reach (demo_leased, {#(0, Some 0)#}, {})"
    by (simp add: demo_leased_eq)
  show ?thesis unfolding demo_swapped_def by (rule pool_reach.step [OF 2 pool_step.reload])
qed

theorem pool_lease_safe_witness:
  "e_rec (p_heap demo_swapped 0) = Some 0 \<and> 0 \<notin> set (p_closes demo_swapped)
   \<and> p_current demo_swapped = [(''m'', 1)]"
  using pool_lease_safe [OF demo_swapped_reach] by (simp add: demo_swapped_simps)

theorem pool_no_leak_witness:
  "\<exists>a. (\<forall>b. e_rec (p_heap demo_swapped b) = Some 1 \<longleftrightarrow> b = a)
    \<and> (a = 1 \<or> a = 0 \<and> e_refs (p_heap demo_swapped a) > 0)"
  using pool_no_leak [OF demo_swapped_reach, of 1] by (simp add: demo_swapped_simps)

subsection \<open>Eviction\<close>

lemma closeLocked_heap_other: "b \<noteq> a \<Longrightarrow> p_heap (closeLocked a p) b = p_heap p b"
  by (simp add: closeLocked_heap)

text \<open>The map as the operations keep it: every entry under its own id, no id and no entry twice.\<close>

definition keyed :: "pool \<Rightarrow> bool" where
  "keyed p \<longleftrightarrow> distinct (map fst (p_current p)) \<and> distinct (map snd (p_current p))
     \<and> (\<forall>x\<in>set (p_current p). e_id (p_heap p (snd x)) = fst x)"

lemma reach_keyed: "pool_reach (p, L, W) \<Longrightarrow> keyed p"
proof -
  assume "pool_reach (p, L, W)"
  then have c: "cur_ok p W" by (rule pinvD(1) [OF pool_reach_inv])
  then show "keyed p" using cur_distinct_addrs [OF c] by (auto simp: keyed_def cur_ok_def)
qed

text \<open>Whether some entries together are more than the pool may hold.\<close>

definition exceeds :: "pool \<Rightarrow> (string \<times> nat) list \<Rightarrow> bool" where
  "exceeds p xs \<longleftrightarrow> int (length xs) > p_max_models p \<or> (\<Sum>x\<leftarrow>xs. e_rss (p_heap p (snd x))) > p_max_rss p"

definition without :: "(string \<times> nat) list \<Rightarrow> pool \<Rightarrow> (string \<times> nat) list" where
  "without vs p = filter (\<lambda>x. x \<notin> set vs) (p_current p)"

text \<open>The entries \<open>vs\<close> leave the pool, in this order: each while those left, itself among them, are too
  much, each the first in the order of eviction of those left that may go; and then none that should.\<close>

definition evicted :: "pool \<Rightarrow> (string \<times> nat) list \<Rightarrow> pool \<Rightarrow> bool" where
  "evicted p vs q \<longleftrightarrow> p_current q = without vs p
     \<and> (\<forall>i<length vs. vs ! i \<in> set (without (take i vs) p) \<and> exceeds p (without (take i vs) p)
          \<and> evictable (p_heap p (snd (vs ! i)))
          \<and> (\<forall>x\<in>set (without (take i vs) p). evictable (p_heap p (snd x)) \<longrightarrow>
               lru_key (p_heap p (snd (vs ! i))) \<le> lru_key (p_heap p (snd x))))
     \<and> (\<not> exceeds p (without vs p) \<or> (\<forall>x\<in>set (without vs p). \<not> evictable (p_heap p (snd x))))
     \<and> (\<forall>x\<in>set (without vs p). p_heap q (snd x) = p_heap p (snd x))
     \<and> p_closes q = p_closes p @ concat (map (\<lambda>x. case e_rec (p_heap p (snd x)) of None \<Rightarrow> [] | Some h \<Rightarrow> [h]) vs)"

lemma overLimit_exceeds: "overLimit p \<longleftrightarrow> exceeds p (p_current p)"
  by (simp add: overLimit_def exceeds_def split_def)

lemma without_Nil [simp]: "without [] p = p_current p"
  by (simp add: without_def)

text \<open>One victim more at the front.\<close>

lemma drop_keyed:
  assumes "keyed p" "(k, a) \<in> set (p_current p)"
  defines "p1 \<equiv> closeLocked a (del_current k p)"
  shows "p_current p1 = without [(k, a)] p" "keyed p1" "\<And>b. b \<noteq> a \<Longrightarrow> p_heap p1 b = p_heap p b"
    "a \<notin> snd ` set (p_current p1)" "p_max_models p1 = p_max_models p" "p_max_rss p1 = p_max_rss p"
    "p_closes p1 = p_closes p @ (case e_rec (p_heap p a) of None \<Rightarrow> [] | Some h \<Rightarrow> [h])"
proof -
  have only: "fst x = k \<longleftrightarrow> x = (k, a)" "snd x = a \<longleftrightarrow> x = (k, a)" if "x \<in> set (p_current p)" for x
    using assms(1,2) that by (auto simp: keyed_def distinct_map inj_on_def)
  show c: "p_current p1 = without [(k, a)] p"
  proof -
    have "filter (\<lambda>x. fst x \<noteq> k) (p_current p) = filter (\<lambda>x. x \<notin> set [(k, a)]) (p_current p)"
      using only(1) by (intro filter_cong refl) simp
    then show ?thesis by (simp add: p1_def del_current_def without_def split_def)
  qed
  show h: "\<And>b. b \<noteq> a \<Longrightarrow> p_heap p1 b = p_heap p b" by (simp add: p1_def closeLocked_heap)
  show out: "a \<notin> snd ` set (p_current p1)" using only(2) by (auto simp: c without_def)
  have "e_id (p_heap p1 (snd x)) = fst x" if x: "x \<in> set (p_current p1)" for x
  proof -
    have "snd x \<noteq> a" using x out by blast
    then show ?thesis using h [of "snd x"] x assms(1) by (simp add: keyed_def c without_def)
  qed
  then show "keyed p1" using assms(1) by (simp add: keyed_def c without_def distinct_map_filter)
  show "p_max_models p1 = p_max_models p" "p_max_rss p1 = p_max_rss p"
    "p_closes p1 = p_closes p @ (case e_rec (p_heap p a) of None \<Rightarrow> [] | Some h \<Rightarrow> [h])"
    by (simp_all add: p1_def closeLocked_def upd_entry_def del_current_def split: option.split)
qed

lemma evicted_Cons:
  assumes "keyed p" "(k, a) \<in> set (p_current p)" "overLimit p" "evictable (p_heap p a)"
    and first: "\<forall>b\<in>snd ` set (p_current p). evictable (p_heap p b) \<longrightarrow> lru_key (p_heap p a) \<le> lru_key (p_heap p b)"
    and rest: "evicted (closeLocked a (del_current k p)) vs q"
  shows "evicted p ((k, a) # vs) q"
proof -
  let ?p1 = "closeLocked a (del_current k p)"
  note P = drop_keyed [OF assms(1,2)]
  have w: "without ((k, a) # us) p = without us ?p1" for us
    by (simp add: without_def P(1) [simplified] conj_commute)
  have heap: "p_heap ?p1 (snd x) = p_heap p (snd x)" if "x \<in> set (without us ?p1)" for x us
  proof -
    have "x \<in> set (p_current ?p1)" using that by (simp add: without_def)
    then have "snd x \<noteq> a" using P(4) by blast
    then show ?thesis by (rule P(3))
  qed
  have ex: "exceeds ?p1 (without us ?p1) = exceeds p (without us ?p1)" for us
    using heap by (simp add: exceeds_def P(5,6) cong: map_cong)
  note R = rest [unfolded evicted_def]
  have later: "vs ! i \<in> set (without (take i vs) ?p1) \<and> exceeds p (without (take i vs) ?p1)
      \<and> evictable (p_heap p (snd (vs ! i)))
      \<and> (\<forall>x\<in>set (without (take i vs) ?p1). evictable (p_heap p (snd x)) \<longrightarrow>
           lru_key (p_heap p (snd (vs ! i))) \<le> lru_key (p_heap p (snd x)))" if "i < length vs" for i
  proof -
    note Ri = conjunct1 [OF conjunct2 [OF R], rule_format, OF that]
    then have "p_heap ?p1 (snd (vs ! i)) = p_heap p (snd (vs ! i))" by (intro heap) (rule conjunct1)
    with Ri show ?thesis using heap [of _ "take i vs"] by (simp add: ex)
  qed
  have "vs ! i \<in> set (without (take i vs) ?p1)" if "i < length vs" for i using later [OF that] by simp
  then have recs: "map (\<lambda>x. case e_rec (p_heap ?p1 (snd x)) of None \<Rightarrow> [] | Some h \<Rightarrow> [h]) vs
      = map (\<lambda>x. case e_rec (p_heap p (snd x)) of None \<Rightarrow> [] | Some h \<Rightarrow> [h]) vs"
    using heap by (intro map_cong refl) (metis in_set_conv_nth)
  show ?thesis unfolding evicted_def w
  proof (intro conjI allI impI)
    fix i assume i: "i < length ((k, a) # vs)"
    show "((k, a) # vs) ! i \<in> set (without (take i ((k, a) # vs)) p)"
      "exceeds p (without (take i ((k, a) # vs)) p)" "evictable (p_heap p (snd (((k, a) # vs) ! i)))"
      "\<forall>x\<in>set (without (take i ((k, a) # vs)) p). evictable (p_heap p (snd x)) \<longrightarrow>
           lru_key (p_heap p (snd (((k, a) # vs) ! i))) \<le> lru_key (p_heap p (snd x))"
      using i later assms(2,3,4) first by (auto simp: nth_Cons' w overLimit_exceeds [symmetric] take_Cons' split: if_splits)
  next
    show "p_current q = without vs ?p1" using R by simp
    show "\<not> exceeds p (without vs ?p1) \<or> (\<forall>x\<in>set (without vs ?p1). \<not> evictable (p_heap p (snd x)))"
      using R heap [of _ vs] by (auto simp: ex)
    show "\<forall>x\<in>set (without vs ?p1). p_heap q (snd x) = p_heap p (snd x)" using R heap [of _ vs] by simp
    show "p_closes q = p_closes p @ concat (map (\<lambda>x. case e_rec (p_heap p (snd x)) of None \<Rightarrow> [] | Some h \<Rightarrow> [h]) ((k, a) # vs))"
      using R recs by (simp add: P(7))
  qed
qed

lemma evict_loop_evicted: "keyed p \<Longrightarrow> length (p_current p) < n \<Longrightarrow> \<exists>vs. evicted p vs (evict_loop n p)"
proof (induction n arbitrary: p)
  case (Suc n)
  show ?case
  proof (cases "overLimit p \<and> lruVictim p \<noteq> None")
    case False
    then have "evict_loop (Suc n) p = p" by (auto split: option.split)
    then show ?thesis using False
      by (intro exI [of _ "[]"]) (auto simp: evicted_def overLimit_exceeds lruVictim_None)
  next
    case True
    then obtain a where a: "lruVictim p = Some a" by auto
    note V = lruVictim_Some [OF a]
    then obtain k where k: "(k, a) \<in> set (p_current p)" by auto
    have id: "e_id (p_heap p a) = k" using Suc.prems(1) k by (auto simp: keyed_def)
    note P = drop_keyed [OF Suc.prems(1) k]
    have "length (p_current (closeLocked a (del_current k p))) < n"
      using Suc.prems(2) k length_filter_less [of "(k, a)" "p_current p" "\<lambda>x. x \<notin> set [(k, a)]"] by (simp add: P(1) [simplified] without_def)
    from Suc.IH [OF P(2) this] obtain vs where "evicted (closeLocked a (del_current k p)) vs (evict_loop (Suc n) p)"
      using True a id by auto
    with evicted_Cons [OF Suc.prems(1) k] True V show ?thesis by blast
  qed
qed simp

text \<open>C18: eviction takes only what may be taken, in the right order, and stops at the right moment. The
  entries that leave the map go one by one, each while those still there are over a limit of the pool
  (so none goes once they are within both), each ready, unpinned and unleased, and of those the first in
  the order of eviction: variants before base models, then the least recently used. Their recognisers are
  closed in that order and nothing else is; what stays is untouched; and in the end the pool is within its
  limits, or everything left is pinned, leased or loading. The hypothesis on the map holds at every state
  the pool can reach (\<open>reach_keyed\<close>).\<close>

theorem evict_contract: "keyed p \<Longrightarrow> \<exists>vs. evicted p vs (evictLocked p)"
  unfolding evictLocked_def by (rule evict_loop_evicted, simp_all)

text \<open>Two models in a pool for one: the older goes, and the other stays.\<close>

definition demo_full :: pool where
  "demo_full = (pool_New 1 10 0 2)\<lparr>p_current := [(''b'', 1), (''a'', 0)],
     p_heap := (\<lambda>a. (if a = 0 then new_entry ''a'' ''a'' 5 else new_entry ''b'' ''b'' 7)\<lparr>e_state := ModelReady, e_rec := Some a\<rparr>)\<rparr>"

lemma evict_contract_witness:
  "\<exists>vs. evicted demo_full vs (evictLocked demo_full) \<and> p_current (evictLocked demo_full) = [(''b'', 1)] \<and> p_closes (evictLocked demo_full) = [0]"
proof -
  have "keyed demo_full" by (simp add: keyed_def demo_full_def new_entry_def)
  moreover have "p_current (evictLocked demo_full) = [(''b'', 1)] \<and> p_closes (evictLocked demo_full) = [0]"
    by (simp add: evictLocked_def demo_full_def pool_New_def overLimit_def lruVictim_def evictable_def lru_key_def new_entry_def
        closeLocked_def upd_entry_def del_current_def eval_nat_numeral)
  ultimately show ?thesis using evict_contract by blast
qed

text \<open>\<open>Reload\<close> does not look at \<open>closed\<close>: on a pool that has been shut down it installs an
  entry whose recogniser nobody will close.\<close>

lemma reload_after_close_leaks:
  "let q = fst (pool_Reload (pool_close_end (pool_close_begin demo_pool)) ''m'' [] (Inr demo_m) 3) in
   p_closed q \<and> p_current q = [(''m'', 0)] \<and> e_rec (p_heap q 0) = Some 0 \<and> p_closes q = []"
  by (simp add: pool_Reload_def fresh_rec_def Let_def retireVariants_def alloc_def put_current_def evictLocked_def
      overLimit_def demo_m_def pool_close_end_def pool_close_begin_def demo_pool_def pool_New_def)

end
