(* ===== verification/Words.thy ===== *)
theory Words
  imports Core
begin

section \<open>From tokens to timed words (internal/words/words.go)\<close>

text \<open>
  A recognition is what the decoder returns for one segment; times are in seconds and relative
  to the segment. Tokens are valid text: the code's byte prefixes and the rune prefixes used
  here agree on it. The tables of the package unicode that the code asks (Han, Hiragana,
  Katakana and Hangul; punctuation or symbol) are the parameters \<open>cjk\<close> and \<open>punct\<close>.
\<close>

record recognition =
  rc_text :: runes
  rc_tokens :: "runes list"
  rc_times :: "real list"
  rc_durs :: "real list"
  rc_logprobs :: "real list"

definition HasTimestamps :: "recognition \<Rightarrow> bool" where
  "HasTimestamps r \<longleftrightarrow> length (rc_times r) > 0 \<and> length (rc_times r) = length (rc_tokens r)"

datatype token_unit = UBPE | UCJKChar | UCJKCharBPE | UChar

record word_opts =
  wo_unit :: token_unit
  wo_start :: real
  wo_end :: real
  wo_conf :: bool

definition wordBoundary :: rune where "wordBoundary = 9601"

definition trim_prefix :: "rune \<Rightarrow> runes \<Rightarrow> runes" where
  "trim_prefix c s = (if s \<noteq> [] \<and> hd s = c then tl s else s)"

definition strip_boundary :: "runes \<Rightarrow> runes" where
  "strip_boundary s = filter (\<lambda>r. r \<noteq> wordBoundary) s"

definition isSpecial :: "runes \<Rightarrow> bool" where
  "isSpecial tok \<longleftrightarrow> (let t = trim_prefix wordBoundary tok in t \<noteq> [] \<and> hd t = 60 \<and> last t = 62)"

definition opensWord :: "runes \<Rightarrow> bool" where
  "opensWord tok \<longleftrightarrow> tok \<noteq> [] \<and> (hd tok = wordBoundary \<or> hd tok = 32)"

definition isCJK :: "(rune \<Rightarrow> bool) \<Rightarrow> runes \<Rightarrow> bool" where
  "isCJK cjk tok = (case trim_prefix wordBoundary tok of [] \<Rightarrow> False | r # _ \<Rightarrow> cjk r)"

definition startsWord :: "(rune \<Rightarrow> bool) \<Rightarrow> token_unit \<Rightarrow> runes \<Rightarrow> bool" where
  "startsWord cjk u tok = (case u of
     UCJKChar \<Rightarrow> True | UCJKCharBPE \<Rightarrow> opensWord tok \<or> isCJK cjk tok | UChar \<Rightarrow> False | UBPE \<Rightarrow> opensWord tok)"

definition isSeparator :: "token_unit \<Rightarrow> runes \<Rightarrow> bool" where
  "isSeparator u tok \<longleftrightarrow> u = UChar \<and> trim_space (strip_boundary tok) = []"

text \<open>The grouping loop, with the groups found so far, the last one first.\<close>

fun group_loop :: "(rune \<Rightarrow> bool) \<Rightarrow> token_unit \<Rightarrow> bool \<Rightarrow> (nat \<times> nat) list \<Rightarrow> nat \<Rightarrow> runes list \<Rightarrow> (nat \<times> nat) list" where
  "group_loop cjk u pending gs i [] = rev gs"
| "group_loop cjk u pending gs i (tok # toks) =
     (if isSpecial tok then group_loop cjk u pending gs (Suc i) toks
      else if isSeparator u tok then group_loop cjk u True gs (Suc i) toks
      else if gs = [] \<or> pending \<or> startsWord cjk u tok
      then group_loop cjk u False ((i, i) # gs) (Suc i) toks
      else group_loop cjk u pending ((fst (hd gs), i) # tl gs) (Suc i) toks)"

definition token_groups :: "(rune \<Rightarrow> bool) \<Rightarrow> token_unit \<Rightarrow> runes list \<Rightarrow> (nat \<times> nat) list" where
  "token_groups cjk u toks = group_loop cjk u False [] 0 toks"

definition slice :: "'a list \<Rightarrow> nat \<times> nat \<Rightarrow> 'a list" where
  "slice xs g = take (Suc (snd g) - fst g) (drop (fst g) xs)"

definition cleanText :: "runes list \<Rightarrow> runes" where
  "cleanText toks = trim_space (concat (map strip_boundary toks))"

definition tokenEnd :: "recognition \<Rightarrow> nat \<Rightarrow> real \<Rightarrow> real" where
  "tokenEnd r i segmentLen =
     (if i < length (rc_durs r) \<and> rc_durs r ! i > 0 then rc_times r ! i + rc_durs r ! i
      else if Suc i < length (rc_times r) then rc_times r ! Suc i
      else segmentLen)"

definition clamp_time :: "real \<Rightarrow> real \<Rightarrow> real \<Rightarrow> real" where
  "clamp_time v lo hi = (if v < lo then lo else if v > hi then hi else v)"

definition token_confidence :: "real list \<Rightarrow> nat \<Rightarrow> nat \<Rightarrow> real" where
  "token_confidence lp f l =
     (if f \<ge> length lp then 0
      else let l' = (if l \<ge> length lp then length lp - 1 else l);
               xs = slice lp (f, l')
           in if xs = [] then 0 else exp (sum_list xs / real (length xs)))"

definition group_word :: "recognition \<Rightarrow> word_opts \<Rightarrow> nat \<times> nat \<Rightarrow> core_word option" where
  "group_word r opt g =
     (let text = cleanText (slice (rc_tokens r) g) in
      if text = [] then None
      else
        let start = clamp_time (wo_start opt + rc_times r ! fst g) (wo_start opt) (wo_end opt);
            en = clamp_time (wo_start opt + tokenEnd r (snd g) (wo_end opt - wo_start opt)) start (wo_end opt)
        in Some \<lparr>w_text = text, w_start = start, w_end = en,
             w_confidence = (if wo_conf opt then token_confidence (rc_logprobs r) (fst g) (snd g) else 0),
             w_original = [], w_speaker = None, w_speaker_conf = 0, w_channel = 0\<rparr>)"

definition isPunctuation :: "(rune \<Rightarrow> bool) \<Rightarrow> runes \<Rightarrow> bool" where
  "isPunctuation punct s \<longleftrightarrow> s \<noteq> [] \<and> list_all punct s"

text \<open>\<open>mergePunctuation\<close>, with the words kept so far, the last one first.\<close>

fun merge_punct :: "(rune \<Rightarrow> bool) \<Rightarrow> core_word list \<Rightarrow> core_word list \<Rightarrow> core_word list" where
  "merge_punct punct acc [] = rev acc"
| "merge_punct punct [] (w # ws) = merge_punct punct [w] ws"
| "merge_punct punct (p # acc) (w # ws) =
     (if isPunctuation punct (w_text w)
      then merge_punct punct (p\<lparr>w_text := w_text p @ w_text w,
             w_end := (if w_end w > w_end p then w_end w else w_end p)\<rparr> # acc) ws
      else merge_punct punct (w # p # acc) ws)"

fun enforceMonotonic :: "core_word list \<Rightarrow> core_word list" where
  "enforceMonotonic [] = []"
| "enforceMonotonic [w] = [w]"
| "enforceMonotonic (w # v # ws) =
     (let e1 = (if w_end w > w_start v then w_start v else w_end w);
          e2 = (if e1 < w_start w then w_start w else e1)
      in w\<lparr>w_end := e2\<rparr> # enforceMonotonic (v # ws))"

definition Assemble :: "(rune \<Rightarrow> bool) \<Rightarrow> (rune \<Rightarrow> bool) \<Rightarrow> recognition \<Rightarrow> word_opts \<Rightarrow> core_word list" where
  "Assemble cjk punct r opt =
     (if \<not> HasTimestamps r then []
      else enforceMonotonic (merge_punct punct []
             (List.map_filter (group_word r opt) (token_groups cjk (wo_unit opt) (rc_tokens r)))))"

definition FromSegment :: "runes \<Rightarrow> real \<Rightarrow> real \<Rightarrow> core_word list" where
  "FromSegment text start en =
     (if trim_space text = [] then []
      else [\<lparr>w_text = trim_space text, w_start = start, w_end = en, w_confidence = 0, w_original = [],
             w_speaker = None, w_speaker_conf = 0, w_channel = 0\<rparr>])"

subsection \<open>Groups\<close>

text \<open>What a token contributes to the text: everything but white space and the marker.\<close>

definition letters :: "runes \<Rightarrow> runes" where
  "letters s = filter (\<lambda>r. \<not> is_space r \<and> r \<noteq> wordBoundary) s"

lemma letters_append [simp]: "letters (a @ b) = letters a @ letters b"
  by (simp add: letters_def)

lemma letters_Nil [simp]: "letters [] = []"
  by (simp add: letters_def)

lemma letters_concat: "letters (concat xs) = concat (map letters xs)"
  by (induction xs) simp_all

lemma letters_strip: "letters (strip_boundary s) = letters s"
  by (simp add: letters_def strip_boundary_def) (metis (mono_tags, lifting))

lemma letters_trim: "letters (trim_space s) = letters s"
  unfolding letters_def by (rule filter_trim_space) simp

lemma letters_clean: "letters (cleanText toks) = concat (map letters toks)"
  by (simp add: cleanText_def letters_trim letters_concat comp_def letters_strip)

lemma letters_separator: "isSeparator u tok \<Longrightarrow> letters tok = []"
  by (metis isSeparator_def letters_Nil letters_strip letters_trim)

lemma slice_extend:
  assumes "f \<le> l" "l < i" "i < length xs"
  shows "slice xs (f, i) = slice xs (f, l) @ slice xs (Suc l, i)"
proof -
  have a: "Suc i - f = (Suc l - f) + (Suc i - Suc l)" using assms by simp
  have d: "drop (Suc l - f) (drop f xs) = drop (Suc l) xs" using assms by simp
  show ?thesis unfolding slice_def fst_conv snd_conv a take_add d ..
qed

definition text_of :: "runes list \<Rightarrow> runes" where
  "text_of toks = concat (map letters toks)"

lemma text_of_simps [simp]: "text_of [] = []" "text_of (t # ts) = letters t @ text_of ts"
  "text_of (a @ b) = text_of a @ text_of b"
  by (simp_all add: text_of_def)

text \<open>A token that is neither a decoder tag nor a separator is part of a word. A tag stands inside a word
  when the nearest tokens on both sides that are no tags are parts of a word, and the one after it
  does not open a new one. Such a tag is spelled with the word: the text of a group is cut from its first
  token to its last.\<close>

definition word_token :: "token_unit \<Rightarrow> runes \<Rightarrow> bool" where
  "word_token u tok \<longleftrightarrow> \<not> isSpecial tok \<and> \<not> isSeparator u tok"

definition inside_word :: "(rune \<Rightarrow> bool) \<Rightarrow> token_unit \<Rightarrow> runes list \<Rightarrow> nat \<Rightarrow> bool" where
  "inside_word cjk u toks k \<longleftrightarrow>
     (\<exists>p<k. word_token u (toks ! p) \<and> (\<forall>j. p < j \<and> j < k \<longrightarrow> isSpecial (toks ! j)))
     \<and> (\<exists>q<length toks. k < q \<and> word_token u (toks ! q) \<and> \<not> startsWord cjk u (toks ! q)
          \<and> (\<forall>j. k < j \<and> j < q \<longrightarrow> isSpecial (toks ! j)))"

definition spelled :: "(rune \<Rightarrow> bool) \<Rightarrow> token_unit \<Rightarrow> runes list \<Rightarrow> nat \<Rightarrow> runes" where
  "spelled cjk u toks k = (if isSpecial (toks ! k) \<and> \<not> inside_word cjk u toks k then [] else letters (toks ! k))"

definition spelled_range :: "(rune \<Rightarrow> bool) \<Rightarrow> token_unit \<Rightarrow> runes list \<Rightarrow> nat \<Rightarrow> nat \<Rightarrow> runes" where
  "spelled_range cjk u toks i j = concat (map (spelled cjk u toks) [i..<j])"

lemma spelled_range_split: "i \<le> j \<Longrightarrow> j \<le> k \<Longrightarrow>
    spelled_range cjk u toks i k = spelled_range cjk u toks i j @ spelled_range cjk u toks j k"
  using upt_add_eq_append [of i j "k - j"] by (simp add: spelled_range_def)

lemma spelled_range_silent: "(\<And>k. i \<le> k \<Longrightarrow> k < j \<Longrightarrow> spelled cjk u toks k = []) \<Longrightarrow> spelled_range cjk u toks i j = []"
  by (simp add: spelled_range_def)

lemma spelled_range_slice:
  assumes "f \<le> l" "l < length toks" "\<And>k. f \<le> k \<Longrightarrow> k \<le> l \<Longrightarrow> spelled cjk u toks k = letters (toks ! k)"
  shows "text_of (slice toks (f, l)) = spelled_range cjk u toks f (Suc l)"
proof -
  have "map (spelled cjk u toks) [f..<Suc l] = map (\<lambda>k. letters (toks ! k)) [f..<Suc l]"
  proof (rule map_cong [OF refl])
    fix k assume "k \<in> set [f..<Suc l]"
    then show "spelled cjk u toks k = letters (toks ! k)" by (intro assms(3)) auto
  qed
  moreover have "slice toks (f, l) = map ((!) toks) [f..<Suc l]"
    using assms(1,2) by (intro list_eq_iff_nth_eq [THEN iffD2] conjI allI impI) (auto simp: slice_def simp del: upt_Suc)
  ultimately show ?thesis by (simp only: spelled_range_def text_of_def comp_def map_map)
qed

lemma separator_silent: "isSeparator u (toks ! k) \<Longrightarrow> spelled cjk u toks k = []"
  by (simp add: spelled_def letters_separator)

text \<open>The loop at token \<open>i\<close>: the groups found so far spell what they must, and what lies between the last
  of them and \<open>i\<close> are tags and separators.\<close>

definition groups_ok :: "(rune \<Rightarrow> bool) \<Rightarrow> token_unit \<Rightarrow> bool \<Rightarrow> runes list \<Rightarrow> nat \<Rightarrow> (nat \<times> nat) list \<Rightarrow> bool" where
  "groups_ok cjk u pending all i gs \<longleftrightarrow>
     sorted_wrt (\<lambda>g h. fst h < fst g) gs \<and> (\<forall>g\<in>set gs. fst g \<le> snd g \<and> snd g < i)
     \<and> concat (map (\<lambda>g. text_of (slice all g)) (rev gs)) = (case gs of [] \<Rightarrow> [] | g # _ \<Rightarrow> spelled_range cjk u all 0 (Suc (snd g)))
     \<and> (case gs of [] \<Rightarrow> \<forall>k<i. \<not> word_token u (all ! k)
        | g # _ \<Rightarrow> word_token u (all ! snd g) \<and> (\<forall>k. snd g < k \<and> k < i \<longrightarrow> \<not> word_token u (all ! k))
            \<and> (pending \<longleftrightarrow> (\<exists>k. snd g < k \<and> k < i \<and> \<not> isSpecial (all ! k))))"

lemma groups_ok_skip:
  assumes "groups_ok cjk u pending all i gs" "\<not> word_token u (all ! i)" "pending' \<longleftrightarrow> pending \<or> \<not> isSpecial (all ! i)"
  shows "groups_ok cjk u pending' all (Suc i) gs"
  using assms by (cases gs) (auto simp: groups_ok_def less_Suc_eq)

text \<open>Between two groups nothing is spelled: a tag there has a separator next to it, or a token that opens a
  word after it, or nothing before it.\<close>

lemma gap_silent:
  assumes ok: "groups_ok cjk u pending all i gs"
    and opens: "i < length all \<Longrightarrow> word_token u (all ! i) \<and> (gs \<noteq> [] \<longrightarrow> pending \<or> startsWord cjk u (all ! i))"
    and k: "gs \<noteq> [] \<Longrightarrow> snd (hd gs) < k" "k < i"
  shows "spelled cjk u all k = []"
proof (cases "isSpecial (all ! k)")
  case False
  have "\<not> word_token u (all ! k)" using ok k by (cases gs) (auto simp: groups_ok_def)
  then show ?thesis using False by (simp add: word_token_def separator_silent)
next
  case True
  have "\<not> inside_word cjk u all k"
  proof
    assume "inside_word cjk u all k"
    then obtain p q where p: "p < k" "word_token u (all ! p)" "\<forall>j. p < j \<and> j < k \<longrightarrow> isSpecial (all ! j)"
      and q: "q < length all" "k < q" "word_token u (all ! q)" "\<not> startsWord cjk u (all ! q)" "\<forall>j. k < j \<and> j < q \<longrightarrow> isSpecial (all ! j)"
      unfolding inside_word_def by blast
    obtain g gs' where gs: "gs = g # gs'" using ok k(2) p by (cases gs) (auto simp: groups_ok_def)
    have g: "word_token u (all ! snd g)" and no: "\<And>j. snd g < j \<Longrightarrow> j < i \<Longrightarrow> \<not> word_token u (all ! j)"
      and pend: "pending \<longleftrightarrow> (\<exists>j. snd g < j \<and> j < i \<and> \<not> isSpecial (all ! j))"
      using ok by (simp_all add: groups_ok_def gs)
    have lk: "snd g < k" using k(1) by (simp add: gs)
    have "\<not> snd g < p" using no [of p] p(1,2) k(2) by auto
    moreover have "\<not> p < snd g" using p(3) lk g by (auto simp: word_token_def)
    ultimately have pg: "p = snd g" by simp
    have iq: "i \<le> q" using no [of q] q(2,3) lk by (meson not_le order.strict_trans)
    then have i: "word_token u (all ! i)" "pending \<or> startsWord cjk u (all ! i)" using opens q(1) by (auto simp: gs)
    have "\<not> i < q" using q(5) i(1) k(2) by (auto simp: word_token_def)
    then have "startsWord cjk u (all ! i) = False" using q(4) iq by simp
    moreover have "isSpecial (all ! j)" if "snd g < j" "j < i" for j
      using that p(3) q(5) True iq by (cases j k rule: linorder_cases) (auto simp: pg)
    ultimately show False using i(2) pend by blast
  qed
  then show ?thesis using True by (simp add: spelled_def)
qed

lemma gap_range:
  assumes "groups_ok cjk u pending all i gs" "i \<le> length all"
    "i < length all \<Longrightarrow> word_token u (all ! i) \<and> (gs \<noteq> [] \<longrightarrow> pending \<or> startsWord cjk u (all ! i))"
  shows "concat (map (\<lambda>g. text_of (slice all g)) (rev gs)) = spelled_range cjk u all 0 i"
proof (cases gs)
  case Nil
  have "spelled_range cjk u all 0 i = []"
    by (rule spelled_range_silent) (rule gap_silent [OF assms(1,3)], use Nil in auto)
  then show ?thesis using Nil by simp
next
  case (Cons g gs')
  have "snd g < i" using assms(1) by (simp add: groups_ok_def Cons)
  moreover have "spelled_range cjk u all (Suc (snd g)) i = []"
    by (rule spelled_range_silent) (rule gap_silent [OF assms(1,3)], use Cons in auto)
  ultimately show ?thesis
    using assms(1) spelled_range_split [of 0 "Suc (snd g)" i cjk u all] by (simp add: groups_ok_def Cons)
qed

lemma word_token_spelled: "word_token u (toks ! k) \<Longrightarrow> spelled cjk u toks k = letters (toks ! k)"
  by (simp add: spelled_def word_token_def)

lemma groups_ok_new:
  assumes "groups_ok cjk u pending all i gs" "i < length all" "word_token u (all ! i)" "gs \<noteq> [] \<longrightarrow> pending \<or> startsWord cjk u (all ! i)"
  shows "groups_ok cjk u False all (Suc i) ((i, i) # gs)"
proof -
  have before: "concat (map (\<lambda>g. text_of (slice all g)) (rev gs)) = spelled_range cjk u all 0 i"
    by (rule gap_range [OF assms(1)]) (use assms in auto)
  have "text_of (slice all (i, i)) = spelled_range cjk u all i (Suc i)"
    using assms(2,3) by (intro spelled_range_slice) (auto simp: word_token_spelled le_antisym)
  then have "concat (map (\<lambda>g. text_of (slice all g)) (rev ((i, i) # gs))) = spelled_range cjk u all 0 (Suc i)"
    using before spelled_range_split [of 0 i "Suc i" cjk u all] by simp
  then show ?thesis using assms(1,3)
    by (auto simp: groups_ok_def less_SucI dest: order.strict_trans1)
qed

lemma groups_ok_extend:
  assumes "groups_ok cjk u False all i (g # gs)" "i < length all" "word_token u (all ! i)" "\<not> startsWord cjk u (all ! i)"
  shows "groups_ok cjk u False all (Suc i) ((fst g, i) # gs)"
proof -
  have g: "fst g \<le> snd g" "snd g < i" "word_token u (all ! snd g)"
    and sp: "\<And>k. snd g < k \<Longrightarrow> k < i \<Longrightarrow> isSpecial (all ! k)"
    and told: "concat (map (\<lambda>g. text_of (slice all g)) (rev (g # gs))) = spelled_range cjk u all 0 (Suc (snd g))"
    using assms(1) by (auto simp: groups_ok_def)
  have mid: "spelled cjk u all k = letters (all ! k)" if "snd g < k" "k < i" for k
  proof -
    have "inside_word cjk u all k" unfolding inside_word_def
      using g(3) assms(2,3,4) that sp by (intro conjI exI [of _ "snd g"] exI [of _ i]) auto
    then show ?thesis by (simp add: spelled_def)
  qed
  have "spelled cjk u all k = letters (all ! k)" if "Suc (snd g) \<le> k" "k \<le> i" for k
    using mid [of k] that word_token_spelled [OF assms(3)] by (cases "k = i") auto
  then have "text_of (slice all (Suc (snd g), i)) = spelled_range cjk u all (Suc (snd g)) (Suc i)"
    using g assms(2) by (intro spelled_range_slice) auto
  moreover have "slice all (fst g, i) = slice all g @ slice all (Suc (snd g), i)"
    using slice_extend [OF g(1,2) assms(2)] by simp
  ultimately have "concat (map (\<lambda>g. text_of (slice all g)) (rev ((fst g, i) # gs))) = spelled_range cjk u all 0 (Suc i)"
    using told spelled_range_split [of 0 "Suc (snd g)" "Suc i" cjk u all] g(2) by simp
  then show ?thesis using assms(1,3) g(1,2)
    by (auto simp: groups_ok_def less_SucI)
qed

lemma group_loop_ok:
  assumes "groups_ok cjk u pend all i gs" "toks = drop i all" "i + length toks = length all"
  shows "\<exists>p. groups_ok cjk u p all (length all) (rev (group_loop cjk u pend gs i toks))"
  using assms
proof (induction toks arbitrary: i gs pend)
  case Nil
  then show ?case by auto
next
  case (Cons tok toks)
  have i: "i < length all" using Cons.prems(3) by simp
  have "drop i all = all ! i # drop (Suc i) all" by (rule Cons_nth_drop_Suc [OF i, symmetric])
  with Cons.prems(2) have i: "i < length all" "all ! i = tok" "toks = drop (Suc i) all" using i by simp_all
  have len: "Suc i + length toks = length all" using Cons.prems(3) by simp
  note step = Cons.IH [OF _ i(3) len]
  note ok = Cons.prems(1)
  consider "isSpecial tok" | "\<not> isSpecial tok" "isSeparator u tok"
    | "word_token u tok" "gs = [] \<or> pend \<or> startsWord cjk u tok"
    | "word_token u tok" "\<not> (gs = [] \<or> pend \<or> startsWord cjk u tok)" by (auto simp: word_token_def)
  then show ?case
  proof cases
    case 1
    have "groups_ok cjk u pend all (Suc i) gs" by (rule groups_ok_skip [OF ok]) (use 1 i(2) in \<open>simp_all add: word_token_def\<close>)
    from step [OF this] 1 show ?thesis by simp
  next
    case 2
    have "groups_ok cjk u True all (Suc i) gs" by (rule groups_ok_skip [OF ok]) (use 2 i(2) in \<open>simp_all add: word_token_def\<close>)
    from step [OF this] 2 show ?thesis by simp
  next
    case 3
    from step [OF groups_ok_new [OF ok i(1)]] 3 i(2) show ?thesis by (auto simp: word_token_def)
  next
    case 4
    then obtain g gs' where gs: "gs = g # gs'" by (cases gs) auto
    have "groups_ok cjk u False all i (g # gs')" using ok 4 by (simp add: gs)
    from step [OF groups_ok_extend [OF this i(1)]] 4 i(2) show ?thesis by (auto simp: word_token_def gs)
  qed
qed

subsection \<open>The text and the times of the words\<close>

lemma map_filter_texts:
  "concat (map (\<lambda>w. letters (w_text w)) (List.map_filter (group_word r opt) gs))
    = concat (map (\<lambda>g. text_of (slice (rc_tokens r) g)) gs)"
proof (induction gs)
  case (Cons g gs)
  show ?case
  proof (cases "cleanText (slice (rc_tokens r) g) = []")
    case True
    then have "text_of (slice (rc_tokens r) g) = []" using letters_clean by (simp add: text_of_def flip: letters_clean)
    with True Cons show ?thesis by (simp add: List.map_filter_simps group_word_def)
  next
    case False
    with Cons show ?thesis
      by (simp add: List.map_filter_simps group_word_def Let_def letters_clean text_of_def)
  qed
qed (simp add: List.map_filter_simps)

lemma merge_punct_text:
  "concat (map w_text (merge_punct punct acc ws)) = concat (map w_text (rev acc @ ws))"
  by (induction punct acc ws rule: merge_punct.induct) simp_all

lemma enforce_text: "map w_text (enforceMonotonic ws) = map w_text ws"
  by (induction ws rule: enforceMonotonic.induct) (simp_all add: Let_def)

lemma token_groups_ok: "\<exists>p. groups_ok cjk u p toks (length toks) (rev (token_groups cjk u toks))"
proof -
  have "groups_ok cjk u False toks 0 []" by (simp add: groups_ok_def)
  from group_loop_ok [OF this, of toks] show ?thesis by (simp add: token_groups_def)
qed

lemma concat_map_letters: "letters (concat (map f xs)) = concat (map (\<lambda>x. letters (f x)) xs)"
  by (simp add: letters_concat comp_def)

text \<open>C19: the words spell the recognised text. The letters of the words, in order, are exactly those of the
  tokens, less the decoder's tags: none is lost, repeated or moved, under every modeling unit, whatever is
  merged, dropped for being blank or clipped. A tag is left out, unless it stands inside a word, between
  two of its tokens: such a tag is spelled with the word.\<close>

theorem words_spell_the_tokens:
  assumes "HasTimestamps r"
  shows "letters (concat (map w_text (Assemble cjk punct r opt))) =
    concat (map (\<lambda>k. if isSpecial (rc_tokens r ! k) \<and> \<not> inside_word cjk (wo_unit opt) (rc_tokens r) k then []
                 else letters (rc_tokens r ! k)) [0..<length (rc_tokens r)])"
proof -
  let ?gs = "token_groups cjk (wo_unit opt) (rc_tokens r)"
  have "letters (concat (map w_text (Assemble cjk punct r opt))) =
      concat (map (\<lambda>w. letters (w_text w)) (List.map_filter (group_word r opt) ?gs))"
    using assms(1) by (simp add: Assemble_def enforce_text merge_punct_text concat_map_letters)
  also have "\<dots> = concat (map (\<lambda>g. text_of (slice (rc_tokens r) g)) ?gs)" by (rule map_filter_texts)
  also have "\<dots> = spelled_range cjk (wo_unit opt) (rc_tokens r) 0 (length (rc_tokens r))"
    using token_groups_ok [of cjk "wo_unit opt" "rc_tokens r"] by (auto dest: gap_range)
  finally show ?thesis by (simp add: spelled_range_def spelled_def [abs_def])
qed

definition demo_recognition :: "runes list \<Rightarrow> recognition" where
  "demo_recognition toks = \<lparr>rc_text = [], rc_tokens = toks, rc_times = map real [0..<length toks],
     rc_durs = [], rc_logprobs = []\<rparr>"

definition demo_opts :: word_opts where
  "demo_opts = \<lparr>wo_unit = UBPE, wo_start = 10, wo_end = 20, wo_conf = False\<rparr>"

text \<open>A tag before the first word is left out, one inside a word is not.\<close>

theorem words_spell_the_tokens_witness:
  "letters (concat (map w_text (Assemble (\<lambda>_. False) (\<lambda>c. c = 46)
      (demo_recognition [lit ''<s>'', lit '' he'', lit ''<u>'', lit ''llo'']) demo_opts))) = lit ''he<u>llo''"
proof -
  let ?t = "[lit ''<s>'', lit '' he'', lit ''<u>'', lit ''llo'']"
  let ?s = "\<lambda>k. if isSpecial (?t ! k) \<and> \<not> inside_word (\<lambda>_. False) UBPE ?t k then [] else letters (?t ! k)"
  have tags: "isSpecial (lit ''<s>'')" "isSpecial (lit ''<u>'')" "\<not> isSpecial (lit '' he'')" "\<not> isSpecial (lit ''llo'')"
    by (simp_all add: isSpecial_def trim_prefix_def wordBoundary_def)
  have opens: "\<not> startsWord (\<lambda>_. False) UBPE (lit ''llo'')" by (simp add: startsWord_def opensWord_def wordBoundary_def)
  have "\<not> inside_word (\<lambda>_. False) UBPE ?t 0" by (simp add: inside_word_def)
  then have 0: "?s 0 = []" using tags by simp
  have "word_token UBPE (?t ! 1)" "word_token UBPE (?t ! 3)" using tags by (simp_all add: word_token_def isSeparator_def)
  moreover have "\<not> startsWord (\<lambda>_. False) UBPE (?t ! 3)" using opens by simp
  ultimately have in2: "inside_word (\<lambda>_. False) UBPE ?t 2"
    unfolding inside_word_def
  proof (intro conjI)
    assume "word_token UBPE (?t ! 1)"
    then show "\<exists>p<2. word_token UBPE (?t ! p) \<and> (\<forall>j. p < j \<and> j < 2 \<longrightarrow> isSpecial (?t ! j))"
      by (intro exI [of _ "1::nat"] conjI allI impI) (simp_all, linarith)
    assume "word_token UBPE (?t ! 3)" "\<not> startsWord (\<lambda>_. False) UBPE (?t ! 3)"
    then show "\<exists>q<length ?t. 2 < q \<and> word_token UBPE (?t ! q) \<and> \<not> startsWord (\<lambda>_. False) UBPE (?t ! q)
        \<and> (\<forall>j. 2 < j \<and> j < q \<longrightarrow> isSpecial (?t ! j))"
      by (intro exI [of _ "3::nat"] conjI allI impI) (simp_all, linarith)
  qed
  have rest: "?s 1 = lit ''he''" "?s 2 = lit ''<u>''" "?s 3 = lit ''llo''"
    using in2 tags by (simp_all add: letters_def is_space_def wordBoundary_def)
  have four: "[0..<length ?t] = [0, 1, 2, 3]" by (simp add: upt_rec)
  have "HasTimestamps (demo_recognition ?t)" by (simp add: demo_recognition_def HasTimestamps_def)
  from words_spell_the_tokens [OF this, of "\<lambda>_. False" "\<lambda>c. c = 46" demo_opts]
  have "letters (concat (map w_text (Assemble (\<lambda>_. False) (\<lambda>c. c = 46) (demo_recognition ?t) demo_opts))) = concat (map ?s [0..<length ?t])"
    by (simp only: demo_recognition_def demo_opts_def recognition.simps word_opts.simps)
  also have "\<dots> = ?s 0 @ ?s 1 @ ?s 2 @ ?s 3" unfolding four by (simp only: list.map concat.simps append_Nil2)
  also have "\<dots> = lit ''he<u>llo''" unfolding 0 rest by simp
  finally show ?thesis .
qed

text \<open>A tag inside a word is skipped by the grouping but not by the text: the slice of a group
  holds every token between its first and its last.\<close>

lemma special_inside_word_is_spelled:
  "cleanText (slice (rc_tokens (demo_recognition [lit '' he'', lit ''<unk>'', lit ''llo'']))
     (hd (token_groups (\<lambda>_. False) UBPE [lit '' he'', lit ''<unk>'', lit ''llo''])))
   = lit ''he<unk>llo''"
  by (simp add: demo_recognition_def token_groups_def isSpecial_def trim_prefix_def wordBoundary_def
      isSeparator_def startsWord_def opensWord_def slice_def cleanText_def strip_boundary_def
      trim_space_def trim_right_def is_space_def)

text \<open>The times of the words.\<close>

definition timed :: "real \<Rightarrow> real \<Rightarrow> core_word \<Rightarrow> bool" where
  "timed lo hi w \<longleftrightarrow> lo \<le> w_start w \<and> w_start w \<le> w_end w \<and> w_end w \<le> hi"

lemma group_word_timed:
  "group_word r opt g = Some w \<Longrightarrow> wo_start opt \<le> wo_end opt \<Longrightarrow> timed (wo_start opt) (wo_end opt) w"
  by (auto simp: group_word_def Let_def timed_def clamp_time_def split: if_splits)

lemma set_map_filter: "set (List.map_filter f xs) = {y. \<exists>x\<in>set xs. f x = Some y}"
  by (induction xs) (auto simp: List.map_filter_simps split: option.splits)

lemma timed_merge: "timed lo hi p \<Longrightarrow> timed lo hi w \<Longrightarrow>
    timed lo hi (p\<lparr>w_text := x, w_end := (if w_end w > w_end p then w_end w else w_end p)\<rparr>)"
  by (simp add: timed_def)

lemma timed_clip: "timed lo hi w \<Longrightarrow> e2 = (if e1 < w_start w then w_start w else e1) \<Longrightarrow> e1 \<le> w_end w \<Longrightarrow>
    timed lo hi (w\<lparr>w_end := e2\<rparr>)"
  by (auto simp: timed_def)

lemma merge_punct_timed:
  "list_all (timed lo hi) (acc @ ws) \<Longrightarrow> list_all (timed lo hi) (merge_punct punct acc ws)"
proof (induction punct acc ws rule: merge_punct.induct)
  case (1 punct acc)
  then show ?case by (simp add: list_all_rev)
next
  case (2 punct w ws)
  then show ?case by simp
next
  case (3 punct p acc w ws)
  then have "timed lo hi p" "timed lo hi w" by simp_all
  note M = timed_merge [OF this, of "w_text p @ w_text w"]
  show ?case
  proof (cases "isPunctuation punct (w_text w)")
    case True
    with 3 M show ?thesis by (simp only: merge_punct.simps if_True) (simp del: if_split)
  next
    case False
    with 3 show ?thesis by simp
  qed
qed

lemma enforce_timed: "list_all (timed lo hi) ws \<Longrightarrow> list_all (timed lo hi) (enforceMonotonic ws)"
proof (induction ws rule: enforceMonotonic.induct)
  case (3 w v ws)
  have "timed lo hi w" using "3.prems" by simp
  note C = timed_clip [OF this refl, of "if w_end w > w_start v then w_start v else w_end w"]
  have "list_all (timed lo hi) (enforceMonotonic (v # ws))" using 3 by simp
  with C show ?case by (simp only: enforceMonotonic.simps Let_def list.pred_inject) simp
qed simp_all

definition starts_sorted :: "core_word list \<Rightarrow> bool" where
  "starts_sorted ws \<longleftrightarrow> sorted (map w_start ws)"

lemma merge_punct_starts: "starts_sorted (rev acc @ ws) \<Longrightarrow> starts_sorted (merge_punct punct acc ws)"
  by (induction punct acc ws rule: merge_punct.induct) (auto simp: starts_sorted_def sorted_append)

lemma clamp_mono: "lo \<le> hi \<Longrightarrow> x \<le> y \<Longrightarrow> clamp_time x lo hi \<le> clamp_time y lo hi"
  by (auto simp: clamp_time_def)

lemma groups_starts:
  assumes "sorted (rc_times r)" "sorted_wrt (\<lambda>g h. fst g < fst h) gs"
    "\<forall>g\<in>set gs. fst g < length (rc_times r)" "wo_start opt \<le> wo_end opt"
  shows "starts_sorted (List.map_filter (group_word r opt) gs)"
  using assms(2,3)
proof (induction gs)
  case (Cons g gs)
  have "w_start w \<le> w_start v" if w: "group_word r opt g = Some w" and h: "h \<in> set gs" "group_word r opt h = Some v" for w v h
  proof -
    have "fst g < fst h" "fst h < length (rc_times r)" using Cons.prems h(1) by auto
    then have "rc_times r ! fst g \<le> rc_times r ! fst h" using assms(1) by (simp add: sorted_nth_mono)
    then show ?thesis using w h(2) clamp_mono [OF assms(4)]
      by (auto simp: group_word_def Let_def split: if_splits)
  qed
  with Cons show ?case
    by (auto simp: List.map_filter_simps starts_sorted_def set_map_filter split: option.split)
qed (simp add: starts_sorted_def List.map_filter_simps)

fun chained :: "core_word list \<Rightarrow> bool" where
  "chained (w # v # ws) \<longleftrightarrow> w_end w \<le> w_start v \<and> chained (v # ws)"
| "chained _ \<longleftrightarrow> True"

lemma enforce_chained:
  "starts_sorted ws \<Longrightarrow> list_all (timed lo hi) ws \<Longrightarrow>
    chained (enforceMonotonic ws) \<and> map w_start (enforceMonotonic ws) = map w_start ws"
proof (induction ws rule: enforceMonotonic.induct)
  case (3 w v ws)
  have s: "starts_sorted (v # ws)" "w_start w \<le> w_start v" using "3.prems"(1) by (auto simp: starts_sorted_def)
  have IH: "chained (enforceMonotonic (v # ws))" "map w_start (enforceMonotonic (v # ws)) = map w_start (v # ws)"
    using "3.IH" [OF refl refl s(1)] "3.prems"(2) by auto
  then obtain v' vs where v': "enforceMonotonic (v # ws) = v' # vs" "w_start v' = w_start v" by auto
  show ?case using IH s(2) "3.prems"(2) by (auto simp: v' Let_def timed_def)
qed simp_all

text \<open>C20: the times a player relies on. Every word lies inside its segment and starts no later than it
  ends; and where the decoder's token times do not go back, the words follow one another without
  overlap, with decoder tags among the tokens or without. (A word may be empty: the code allows
  start = end.)\<close>

theorem words_fit_the_segment:
  assumes "wo_start opt \<le> wo_end opt"
  shows "(\<forall>w\<in>set (Assemble cjk punct r opt). wo_start opt \<le> w_start w \<and> w_start w \<le> w_end w \<and> w_end w \<le> wo_end opt)
    \<and> (sorted (rc_times r) \<longrightarrow> chained (Assemble cjk punct r opt))"
proof (cases "HasTimestamps r")
  case False
  then show ?thesis by (simp add: Assemble_def)
next
  case True
  let ?gs = "token_groups cjk (wo_unit opt) (rc_tokens r)"
  let ?ws = "List.map_filter (group_word r opt) ?gs"
  have t: "list_all (timed (wo_start opt) (wo_end opt)) (merge_punct punct [] ?ws)"
    by (rule merge_punct_timed) (auto simp: list_all_iff set_map_filter intro: group_word_timed [OF _ assms])
  have "chained (Assemble cjk punct r opt)" if s: "sorted (rc_times r)"
  proof -
    obtain p where g: "groups_ok cjk (wo_unit opt) p (rc_tokens r) (length (rc_tokens r)) (rev ?gs)" using token_groups_ok by blast
    have "starts_sorted ?ws"
    proof (rule groups_starts [OF s _ _ assms])
      show "sorted_wrt (\<lambda>g h. fst g < fst h) ?gs"
        using g by (simp add: groups_ok_def sorted_wrt_rev)
      show "\<forall>g\<in>set ?gs. fst g < length (rc_times r)"
        using g True by (fastforce simp: groups_ok_def HasTimestamps_def)
    qed
    then have "starts_sorted (merge_punct punct [] ?ws)" by (simp add: merge_punct_starts)
    from enforce_chained [OF this t] True show ?thesis by (simp add: Assemble_def)
  qed
  with enforce_timed [OF t] True show ?thesis by (simp add: Assemble_def list_all_iff timed_def)
qed

theorem words_fit_the_segment_witness:
  "chained (Assemble (\<lambda>_. False) (\<lambda>c. c = 46)
      (demo_recognition [lit '' he'', lit ''llo'', lit '' you'', lit ''.'']) demo_opts)"
proof -
  have "sorted (rc_times (demo_recognition [lit '' he'', lit ''llo'', lit '' you'', lit ''.'']))"
    by (simp add: demo_recognition_def upt_rec)
  moreover have "wo_start demo_opts \<le> wo_end demo_opts" by (simp add: demo_opts_def)
  from words_fit_the_segment [OF this, THEN conjunct2] calculation show ?thesis by blast
qed

end
