(* ===== verification/VadSpans.thy ===== *)
theory VadSpans
  imports Core "HOL-Library.Signed_Division"
begin

section \<open>Speech extents and the silence between them (internal/vad/spans.go, vad.go)\<close>

text \<open>
  Sample positions are integers. A span is half open; spans are ordered by start and then by
  end, which is the order the code sorts by. Division of integers is Go's, towards zero.
\<close>

datatype span = Span (span_lo: int) (span_hi: int)

instantiation span :: linorder
begin

definition less_eq_span :: "span \<Rightarrow> span \<Rightarrow> bool" where
  "less_eq_span s t \<longleftrightarrow> span_lo s < span_lo t \<or> span_lo s = span_lo t \<and> span_hi s \<le> span_hi t"

definition less_span :: "span \<Rightarrow> span \<Rightarrow> bool" where
  "less_span s t \<longleftrightarrow> span_lo s < span_lo t \<or> span_lo s = span_lo t \<and> span_hi s < span_hi t"

instance
  by standard (auto simp: less_eq_span_def less_span_def intro: span.expand)

end

record 'x vad_segment =
  vs_start :: int
  vs_samples :: "'x list"

definition EndSample :: "'x vad_segment \<Rightarrow> int" where
  "EndSample s = vs_start s + int (length (vs_samples s))"

definition Spans :: "'x vad_segment list \<Rightarrow> span list" where
  "Spans segs = map (\<lambda>s. Span (vs_start s) (EndSample s)) segs"

fun coalesce :: "span \<Rightarrow> span list \<Rightarrow> span list" where
  "coalesce cur [] = [cur]"
| "coalesce cur (s # ss) =
     (if span_lo s \<le> span_hi cur
      then coalesce (if span_hi s > span_hi cur then Span (span_lo cur) (span_hi s) else cur) ss
      else cur # coalesce s ss)"

definition MergeSpans :: "span list list \<Rightarrow> span list" where
  "MergeSpans sets =
     (let all = concat sets in
      if length all < 2 then all
      else case sort all of [] \<Rightarrow> [] | s # ss \<Rightarrow> coalesce s ss)"

text \<open>The two silence functions, with the bounds still in samples: the gaps before each span of
  at least \<open>m\<close> samples, and the one at the end.\<close>

fun silence_loop :: "int \<Rightarrow> int \<Rightarrow> int \<Rightarrow> span list \<Rightarrow> (int \<times> int) list" where
  "silence_loop m tot cursor [] = (if tot - cursor \<ge> m then [(cursor, tot)] else [])"
| "silence_loop m tot cursor (s # ss) =
     (if span_lo s - cursor \<ge> m then [(cursor, span_lo s)] else [])
      @ silence_loop m tot (if span_hi s > cursor then span_hi s else cursor) ss"

definition min_samples :: "int \<Rightarrow> int \<Rightarrow> int" where
  "min_samples minSilenceMS sampleRate = (minSilenceMS * sampleRate) sdiv 1000"

definition to_seconds :: "int \<Rightarrow> int \<times> int \<Rightarrow> real \<times> real" where
  "to_seconds rate g = (of_int (fst g) / of_int rate, of_int (snd g) / of_int rate)"

definition SilencesFrom :: "span list \<Rightarrow> int \<Rightarrow> int \<Rightarrow> int \<Rightarrow> (real \<times> real) list" where
  "SilencesFrom spans tot rate minMS =
     (if rate \<le> 0 \<or> tot \<le> 0 then []
      else map (to_seconds rate) (silence_loop (min_samples minMS rate) tot 0 spans))"

fun vad_silence_loop :: "int \<Rightarrow> int \<Rightarrow> int \<Rightarrow> 'x vad_segment list \<Rightarrow> (int \<times> int) list" where
  "vad_silence_loop m tot cursor [] = (if tot - cursor \<ge> m then [(cursor, tot)] else [])"
| "vad_silence_loop m tot cursor (s # ss) =
     (if vs_start s - cursor \<ge> m then [(cursor, vs_start s)] else [])
      @ vad_silence_loop m tot (if EndSample s > cursor then EndSample s else cursor) ss"

definition Silences :: "'x vad_segment list \<Rightarrow> int \<Rightarrow> int \<Rightarrow> int \<Rightarrow> (real \<times> real) list" where
  "Silences segs tot rate minMS =
     (if rate \<le> 0 \<or> tot \<le> 0 then []
      else map (to_seconds rate) (vad_silence_loop (min_samples minMS rate) tot 0 segs))"

definition SpeechRatioFrom :: "span list \<Rightarrow> int \<Rightarrow> real" where
  "SpeechRatioFrom spans tot =
     (if tot \<le> 0 then 0 else of_int (\<Sum>s\<leftarrow>spans. span_hi s - span_lo s) / of_int tot)"

definition SpeechRatio :: "'x vad_segment list \<Rightarrow> int \<Rightarrow> real" where
  "SpeechRatio segs tot =
     (if tot \<le> 0 then 0 else of_int (\<Sum>s\<leftarrow>segs. int (length (vs_samples s))) / of_int tot)"

definition vad_Whole :: "'x list \<Rightarrow> 'x vad_segment list" where
  "vad_Whole samples = [\<lparr>vs_start = 0, vs_samples = samples\<rparr>]"

record vad_config =
  vc_family :: string
  vc_threshold :: real
  vc_min_silence :: int
  vc_min_speech :: int
  vc_max_speech :: real
  vc_rate :: int
  vc_threads :: int
  vc_window :: int

definition withDefaults :: "vad_config \<Rightarrow> vad_config" where
  "withDefaults c =
     \<lparr>vc_family = (if vc_family c = [] then ''silero_vad'' else vc_family c),
      vc_threshold = (if vc_threshold c \<le> 0 then 1 / 2 else vc_threshold c),
      vc_min_silence = (if vc_min_silence c \<le> 0 then 300 else vc_min_silence c),
      vc_min_speech = (if vc_min_speech c \<le> 0 then 250 else vc_min_speech c),
      vc_max_speech = (if vc_max_speech c \<le> 0 then 20 else vc_max_speech c),
      vc_rate = (if vc_rate c \<le> 0 then 16000 else vc_rate c),
      vc_threads = (if vc_threads c \<le> 0 then 1 else vc_threads c),
      vc_window = (if vc_window c \<le> 0 then 512 else vc_window c)\<rparr>"

subsection \<open>Merging\<close>

definition covered :: "span list \<Rightarrow> int set" where
  "covered ss = {x. \<exists>s\<in>set ss. span_lo s \<le> x \<and> x < span_hi s}"

lemma covered_simps [simp]: "covered [] = {}"
  "covered (s # ss) = {span_lo s..<span_hi s} \<union> covered ss"
  by (auto simp: covered_def)

lemma covered_sort: "covered (sort ss) = covered ss"
  by (simp add: covered_def)

text \<open>Disjoint and in order, with a real gap between neighbours.\<close>

fun apart :: "span list \<Rightarrow> bool" where
  "apart (s # t # ss) \<longleftrightarrow> span_hi s < span_lo t \<and> apart (t # ss)"
| "apart _ \<longleftrightarrow> True"

definition proper :: "span \<Rightarrow> bool" where
  "proper s \<longleftrightarrow> span_lo s \<le> span_hi s"

lemma sorted_map_mono:
  assumes "sorted xs" "\<And>x y. x \<le> y \<Longrightarrow> f x \<le> f y"
  shows "sorted (map f xs)"
  using assms by (induction xs) auto

lemma coalesce_spec:
  "sorted (map span_lo (cur # ss)) \<Longrightarrow> \<forall>s\<in>set (cur # ss). proper s \<Longrightarrow>
    covered (coalesce cur ss) = covered (cur # ss) \<and> apart (coalesce cur ss)
    \<and> (\<forall>s\<in>set (coalesce cur ss). proper s) \<and> span_lo (hd (coalesce cur ss)) = span_lo cur
    \<and> coalesce cur ss \<noteq> []"
proof (induction ss arbitrary: cur)
  case (Cons s ss)
  have le: "span_lo cur \<le> span_lo s" "\<forall>t\<in>set ss. span_lo s \<le> span_lo t" and p: "proper cur" "proper s"
    using Cons.prems by auto
  show ?case
  proof (cases "span_lo s \<le> span_hi cur")
    case True
    let ?c = "if span_hi s > span_hi cur then Span (span_lo cur) (span_hi s) else cur"
    have "sorted (map span_lo (?c # ss))" "\<forall>s\<in>set (?c # ss). proper s"
      using Cons.prems le p by (auto simp: proper_def)
    note IH = Cons.IH [OF this]
    have "covered (?c # ss) = covered (cur # s # ss)" using True le p by (auto simp: proper_def)
    moreover have "span_lo ?c = span_lo cur" by simp
    ultimately show ?thesis using IH True by simp
  next
    case False
    have "sorted (map span_lo (s # ss))" "\<forall>t\<in>set (s # ss). proper t" using Cons.prems by auto
    note IH = Cons.IH [OF this]
    then obtain t ts where t: "coalesce s ss = t # ts" "span_lo t = span_lo s"
      by (cases "coalesce s ss") auto
    show ?thesis using IH False p t by simp
  qed
qed simp

lemma MergeSpans_spec:
  assumes "\<forall>s\<in>set (concat sets). proper s"
  shows "covered (MergeSpans sets) = covered (concat sets) \<and> apart (MergeSpans sets)
    \<and> (\<forall>s\<in>set (MergeSpans sets). proper s)"
proof (cases "length (concat sets) < 2")
  case True
  then have "concat sets = [] \<or> (\<exists>s. concat sets = [s])"
    by (cases "concat sets" rule: apart.cases) auto
  with True assms show ?thesis by (auto simp: MergeSpans_def simp del: concat_eq_Nil_conv)
next
  case False
  obtain s ss where s: "sort (concat sets) = s # ss"
  proof (cases "sort (concat sets)")
    case Nil
    then have "length (concat sets) = 0" using length_sort [of "\<lambda>x. x" "concat sets"] by simp
    with False show ?thesis by simp
  qed (rule that)
  have "sorted (s # ss)" using sorted_sort [of "concat sets"] unfolding s .
  then have "sorted (map span_lo (s # ss))"
    by (rule sorted_map_mono) (auto simp: less_eq_span_def)
  moreover have "set (s # ss) = set (concat sets)" using set_sort [of "\<lambda>x. x" "concat sets"] unfolding s .
  then have "\<forall>t\<in>set (s # ss). proper t" using assms by (simp only:)
  moreover have "covered (s # ss) = covered (concat sets)" using covered_sort [of "concat sets"] unfolding s .
  moreover have "MergeSpans sets = coalesce s ss" using False unfolding MergeSpans_def Let_def s by simp
  ultimately show ?thesis using coalesce_spec [of s ss] by metis
qed

lemma apart_sum_le:
  "apart ss \<Longrightarrow> \<forall>s\<in>set ss. proper s \<and> lo \<le> span_lo s \<and> span_hi s \<le> hi \<Longrightarrow> lo \<le> hi \<Longrightarrow>
    0 \<le> (\<Sum>s\<leftarrow>ss. span_hi s - span_lo s) \<and> (\<Sum>s\<leftarrow>ss. span_hi s - span_lo s) \<le> hi - lo"
proof (induction ss arbitrary: lo rule: apart.induct)
  case (1 s t ss)
  have "\<forall>u\<in>set (t # ss). span_hi s \<le> span_lo u"
  proof -
    have "apart (t # ss)" "\<forall>u\<in>set (t # ss). proper u" using "1.prems" by auto
    then have "\<forall>u\<in>set ss. span_lo t \<le> span_lo u"
    proof (induction ss arbitrary: t)
      case (Cons v ss)
      then have "span_lo t \<le> span_lo v" by (auto simp: proper_def)
      with Cons.IH [of v] Cons.prems show ?case by auto
    qed simp
    with "1.prems" show ?thesis by auto
  qed
  then have "\<forall>u\<in>set (t # ss). proper u \<and> span_hi s \<le> span_lo u \<and> span_hi u \<le> hi" "apart (t # ss)" "span_hi s \<le> hi"
    using "1.prems" by auto
  note IH = "1.IH" [OF this(2,1,3)]
  have "lo \<le> span_lo s" "span_lo s \<le> span_hi s" using "1.prems" by (auto simp: proper_def)
  with IH show ?case by simp
qed (auto simp: proper_def)

text \<open>C21: merging the channels loses no speech and counts none twice. The merged spans cover
  exactly the samples the sets covered, are disjoint, in order and never touch; so the speech
  ratio over them is a fraction of the recording even when several channels speak at once.\<close>

theorem merge_spans_exact:
  assumes "\<forall>s\<in>set (concat sets). proper s"
  shows "covered (MergeSpans sets) = covered (concat sets) \<and> apart (MergeSpans sets)
    \<and> ((\<forall>s\<in>set (MergeSpans sets). 0 \<le> span_lo s \<and> span_hi s \<le> tot) \<longrightarrow>
        0 \<le> SpeechRatioFrom (MergeSpans sets) tot \<and> SpeechRatioFrom (MergeSpans sets) tot \<le> 1)"
proof -
  note M = MergeSpans_spec [OF assms]
  have "0 \<le> SpeechRatioFrom (MergeSpans sets) tot \<and> SpeechRatioFrom (MergeSpans sets) tot \<le> 1"
    if b: "\<forall>s\<in>set (MergeSpans sets). 0 \<le> span_lo s \<and> span_hi s \<le> tot"
  proof (cases "tot \<le> 0")
    case False
    then have "0 \<le> (\<Sum>s\<leftarrow>MergeSpans sets. span_hi s - span_lo s)"
      "(\<Sum>s\<leftarrow>MergeSpans sets. span_hi s - span_lo s) \<le> tot"
      using apart_sum_le [of "MergeSpans sets" 0 tot] M b by auto
    then have "(0::real) \<le> of_int (\<Sum>s\<leftarrow>MergeSpans sets. span_hi s - span_lo s)"
      "(of_int (\<Sum>s\<leftarrow>MergeSpans sets. span_hi s - span_lo s) :: real) \<le> of_int tot" by linarith+
    with False show ?thesis by (simp add: SpeechRatioFrom_def)
  qed (simp add: SpeechRatioFrom_def)
  with M show ?thesis by blast
qed

theorem merge_spans_exact_witness:
  "MergeSpans [[Span 5 9, Span 0 3], [Span 2 4, Span 9 12]] = [Span 0 4, Span 5 12]
   \<and> SpeechRatioFrom (MergeSpans [[Span 5 9, Span 0 3], [Span 2 4, Span 9 12]]) 20 \<le> 1"
proof -
  have e: "MergeSpans [[Span 5 9, Span 0 3], [Span 2 4, Span 9 12]] = [Span 0 4, Span 5 12]"
    by (simp add: MergeSpans_def less_eq_span_def Let_def)
  have "\<forall>s\<in>set (concat [[Span 5 9, Span 0 3], [Span 2 4, Span 9 12]]). proper s" by (simp add: proper_def)
  from merge_spans_exact [OF this, of 20] show ?thesis unfolding e by simp
qed

subsection \<open>Silence\<close>

lemma vad_silence_loop_Spans: "vad_silence_loop m tot c segs = silence_loop m tot c (Spans segs)"
  by (induction segs arbitrary: c) (simp_all add: Spans_def)

lemma silence_loop_sound:
  assumes "(a, b) \<in> set (silence_loop m tot c ss)" "0 \<le> c" "c \<le> tot"
    "\<forall>s\<in>set ss. proper s \<and> span_hi s \<le> tot" "sorted ss" "0 < m"
  shows "c \<le> a \<and> a + m \<le> b \<and> b \<le> tot \<and> {a..<b} \<inter> covered ss = {}"
  using assms
proof (induction ss arbitrary: c)
  case (Cons s ss)
  let ?c = "if span_hi s > c then span_hi s else c"
  have later: "\<forall>t\<in>set ss. span_lo s \<le> span_lo t" using Cons.prems(5) by (auto simp: less_eq_span_def)
  have ok: "0 \<le> ?c" "?c \<le> tot" "c \<le> ?c" "span_hi s \<le> ?c" using Cons.prems by auto
  from Cons.prems(1) consider "a = c" "b = span_lo s" "span_lo s - c \<ge> m"
    | "(a, b) \<in> set (silence_loop m tot ?c ss)" by (auto split: if_splits)
  then show ?case
  proof cases
    case 1
    have "span_lo s \<le> tot" using Cons.prems(4) by (auto simp: proper_def)
    with 1 later show ?thesis by (auto simp: covered_def)
  next
    case 2
    have "c \<le> a \<and> a + m \<le> b \<and> b \<le> tot \<and> {a..<b} \<inter> covered ss = {} \<and> ?c \<le> a"
      using Cons.IH [OF 2 ok(1,2)] Cons.prems ok(3) by auto
    with ok(4) show ?thesis by auto
  qed
qed (auto split: if_splits)

lemma silence_loop_complete:
  assumes "c \<le> a" "a < b" "b \<le> tot" "m \<le> b - a" "{a..<b} \<inter> covered ss = {}" "\<forall>s\<in>set ss. span_lo s < span_hi s"
  shows "\<exists>(a', b')\<in>set (silence_loop m tot c ss). a' \<le> a \<and> b \<le> b'"
  using assms
proof (induction ss arbitrary: c)
  case (Cons s ss)
  let ?c = "if span_hi s > c then span_hi s else c"
  have "b \<le> span_lo s \<or> span_hi s \<le> a"
  proof (rule ccontr)
    assume n: "\<not> (b \<le> span_lo s \<or> span_hi s \<le> a)"
    then have "max a (span_lo s) \<in> {a..<b} \<inter> covered (s # ss)" using Cons.prems(2,6) by auto
    with Cons.prems(5) show False by blast
  qed
  then show ?case
  proof
    assume "b \<le> span_lo s"
    with Cons.prems(1,4) show ?thesis by fastforce
  next
    assume "span_hi s \<le> a"
    then have "?c \<le> a" using Cons.prems(1) by simp
    moreover have "{a..<b} \<inter> covered ss = {}" "\<forall>s\<in>set ss. span_lo s < span_hi s"
      using Cons.prems(5,6) by auto
    ultimately have "\<exists>(a', b')\<in>set (silence_loop m tot ?c ss). a' \<le> a \<and> b \<le> b'"
      using Cons.IH Cons.prems(2-4) by blast
    then show ?thesis by auto
  qed
qed auto

text \<open>C22: the silence map is exact. The two functions agree (one over segments with their audio,
  one over extents). Every silence reported is inside the recording, at least the configured
  length, and holds no speech; and every stretch without speech of at least that length lies
  inside a silence that is reported, at the very start and end too.\<close>

theorem silence_map_exact:
  assumes "0 < rate" "0 < tot" "0 < min_samples minMS rate"
    "sorted (Spans segs)" "\<forall>s\<in>set (Spans segs). span_lo s < span_hi s \<and> span_hi s \<le> tot"
  shows "Silences segs tot rate minMS = SilencesFrom (Spans segs) tot rate minMS
    \<and> (\<forall>(x, y)\<in>set (Silences segs tot rate minMS). \<exists>a b. (x, y) = to_seconds rate (a, b)
          \<and> 0 \<le> a \<and> a + min_samples minMS rate \<le> b \<and> b \<le> tot \<and> {a..<b} \<inter> covered (Spans segs) = {})
    \<and> (\<forall>a b. 0 \<le> a \<and> b \<le> tot \<and> min_samples minMS rate \<le> b - a \<and> {a..<b} \<inter> covered (Spans segs) = {} \<longrightarrow>
          (\<exists>a' b'. to_seconds rate (a', b') \<in> set (Silences segs tot rate minMS) \<and> a' \<le> a \<and> b \<le> b'))"
proof (intro conjI)
  let ?m = "min_samples minMS rate" and ?ss = "Spans segs"
  have S: "Silences segs tot rate minMS = map (to_seconds rate) (silence_loop ?m tot 0 ?ss)"
    using assms(1,2) by (simp add: Silences_def vad_silence_loop_Spans)
  show "Silences segs tot rate minMS = SilencesFrom ?ss tot rate minMS"
    using assms(1,2) by (simp add: S SilencesFrom_def)
  have p: "\<forall>s\<in>set ?ss. proper s \<and> span_hi s \<le> tot" using assms(5) by (auto simp: proper_def)
  show "\<forall>(x, y)\<in>set (Silences segs tot rate minMS). \<exists>a b. (x, y) = to_seconds rate (a, b)
          \<and> 0 \<le> a \<and> a + ?m \<le> b \<and> b \<le> tot \<and> {a..<b} \<inter> covered ?ss = {}"
  proof (clarify)
    fix x y assume "(x, y) \<in> set (Silences segs tot rate minMS)"
    then obtain a b where ab: "(a, b) \<in> set (silence_loop ?m tot 0 ?ss)" "(x, y) = to_seconds rate (a, b)"
      by (auto simp: S)
    from silence_loop_sound [OF ab(1) _ _ p assms(4,3)] assms(2) ab(2)
    show "\<exists>a b. (x, y) = to_seconds rate (a, b) \<and> 0 \<le> a \<and> a + ?m \<le> b \<and> b \<le> tot \<and> {a..<b} \<inter> covered ?ss = {}"
      by auto
  qed
  show "\<forall>a b. 0 \<le> a \<and> b \<le> tot \<and> ?m \<le> b - a \<and> {a..<b} \<inter> covered ?ss = {} \<longrightarrow>
          (\<exists>a' b'. to_seconds rate (a', b') \<in> set (Silences segs tot rate minMS) \<and> a' \<le> a \<and> b \<le> b')"
  proof (clarify)
    fix a b assume h: "0 \<le> a" "b \<le> tot" "?m \<le> b - a" "{a..<b} \<inter> covered ?ss = {}"
    have "\<forall>s\<in>set ?ss. span_lo s < span_hi s" using assms(5) by blast
    from silence_loop_complete [OF h(1) _ h(2,3,4) this] assms(3) h(3)
    show "\<exists>a' b'. to_seconds rate (a', b') \<in> set (Silences segs tot rate minMS) \<and> a' \<le> a \<and> b \<le> b'"
      by (fastforce simp: S)
  qed
qed

theorem silence_map_exact_witness:
  "\<exists>a' b'. to_seconds 1000 (a', b') \<in> set (Silences [\<lparr>vs_start = 400, vs_samples = replicate 100 (0::nat)\<rparr>] 1000 1000 300)
      \<and> a' \<le> 0 \<and> 400 \<le> b'"
proof -
  have m: "min_samples 300 1000 = 300" by (simp add: min_samples_def signed_divide_int_def)
  have s: "Spans [\<lparr>vs_start = 400, vs_samples = replicate 100 (0::nat)\<rparr>] = [Span 400 500]"
    by (simp add: Spans_def EndSample_def)
  show ?thesis
    using silence_map_exact [of 1000 1000 300 "[\<lparr>vs_start = 400, vs_samples = replicate 100 (0::nat)\<rparr>]"]
    unfolding m s by auto
qed

end
