(* ===== verification/Diarize.thy ===== *)
theory Diarize
  imports Core "HOL-Library.List_Lexorder"
begin

section \<open>Who spoke when (internal/diarize/diarize.go, split.go)\<close>

text \<open>
  The diarizer's turns are given; what is modelled is their attribution to words and the cutting
  of segments at the turns. A run of words, which the code keeps as a pair of indices into the
  segment's words, is the list of those words. Speakers are compared as optional texts, as the
  code compares its pointers: equal when both are absent or both say the same.
\<close>

record turn =
  t_start :: real
  t_end :: real
  t_speaker :: int

record attribution =
  a_speaker :: runes
  a_confidence :: real

definition FallbackConfidence :: real where "FallbackConfidence = 3 / 10"

fun itoa_digits :: "nat \<Rightarrow> string \<Rightarrow> string" where
  "itoa_digits n acc = (if n = 0 then acc else itoa_digits (n div 10) (digit_char (n mod 10) # acc))"

declare itoa_digits.simps [simp del]

definition itoa :: "int \<Rightarrow> string" where
  "itoa n = (if n = 0 then ''0''
             else if n < 0 then CHR ''-'' # itoa_digits (nat (- n)) [] else itoa_digits (nat n) [])"

definition speakerID :: "int \<Rightarrow> runes" where
  "speakerID n = lit (''spk_'' @ itoa n)"

definition turn_overlap :: "real \<Rightarrow> real \<Rightarrow> real \<Rightarrow> real \<Rightarrow> real" where
  "turn_overlap aStart aEnd bStart bEnd =
     (let lo = max aStart bStart; hi = min aEnd bEnd in if hi \<le> lo then 0 else hi - lo)"

definition share :: "real \<Rightarrow> real \<Rightarrow> real" where
  "share ov duration =
     (if duration \<le> 0 then FallbackConfidence else if ov / duration < 1 then ov / duration else 1)"

text \<open>The two loops over the turns, with the best speaker so far (-1 for none).\<close>

definition best_step :: "core_word \<Rightarrow> int \<times> real \<Rightarrow> turn \<Rightarrow> int \<times> real" where
  "best_step w b t =
     (let ov = turn_overlap (w_start w) (w_end w) (t_start t) (t_end t)
      in if ov > snd b then (t_speaker t, ov) else b)"

definition turn_distance :: "real \<Rightarrow> turn \<Rightarrow> real" where
  "turn_distance mid t = (if mid < t_start t then t_start t - mid else if mid > t_end t then mid - t_end t else 0)"

definition nearest_step :: "real \<Rightarrow> int \<times> real \<Rightarrow> turn \<Rightarrow> int \<times> real" where
  "nearest_step mid b t =
     (if fst b < 0 \<or> turn_distance mid t < snd b then (t_speaker t, turn_distance mid t) else b)"

definition nearest :: "core_word \<Rightarrow> turn list \<Rightarrow> int" where
  "nearest w turns = fst (foldl (nearest_step ((w_start w + w_end w) / 2)) (-1, 0) turns)"

definition no_attribution :: attribution where
  "no_attribution = \<lparr>a_speaker = [], a_confidence = 0\<rparr>"

definition assign_one :: "turn list \<Rightarrow> core_word \<Rightarrow> attribution" where
  "assign_one turns w =
     (let b = foldl (best_step w) (-1, 0) turns in
      if fst b \<ge> 0 then \<lparr>a_speaker = speakerID (fst b), a_confidence = share (snd b) (w_end w - w_start w)\<rparr>
      else let n = nearest w turns in
        if n \<ge> 0 then \<lparr>a_speaker = speakerID n, a_confidence = FallbackConfidence\<rparr> else no_attribution)"

definition Assign :: "core_word list \<Rightarrow> turn list \<Rightarrow> attribution list" where
  "Assign words turns = map (assign_one turns) words"

text \<open>\<open>Apply\<close>: the attributions in the order the segments' words come.\<close>

definition label_word :: "core_word \<Rightarrow> attribution \<Rightarrow> core_word" where
  "label_word w a = (if a_speaker a = [] then w
     else w\<lparr>w_speaker := Some (a_speaker a), w_speaker_conf := a_confidence a\<rparr>)"

fun label_segments :: "segment list \<Rightarrow> attribution list \<Rightarrow> segment list" where
  "label_segments [] as = []"
| "label_segments (s # ss) as =
     s\<lparr>s_words := map2 label_word (s_words s) as\<rparr> # label_segments ss (drop (length (s_words s)) as)"

definition diarize_Apply :: "segment list \<Rightarrow> attribution list \<Rightarrow> segment list \<times> bool" where
  "diarize_Apply segs as =
     (if length (result_words segs) \<noteq> length as then (segs, False) else (label_segments segs as, True))"

subsection \<open>Cutting segments at the turns\<close>

definition MinTurnSec :: real where "MinTurnSec = 1 / 2"
definition MinTurnWords :: nat where "MinTurnWords = 2"

definition isTurn :: "core_word list \<Rightarrow> bool" where
  "isTurn ws \<longleftrightarrow> length ws \<ge> MinTurnWords \<and> w_end (last ws) - w_start (hd ws) \<ge> MinTurnSec"

definition sameSpeaker :: "core_word \<Rightarrow> core_word \<Rightarrow> bool" where
  "sameSpeaker a b \<longleftrightarrow> w_speaker a = w_speaker b"

definition add_word :: "core_word list list \<Rightarrow> core_word \<Rightarrow> core_word list list" where
  "add_word runs w =
     (if runs \<noteq> [] \<and> sameSpeaker (last (last runs)) w
      then butlast runs @ [last runs @ [w]] else runs @ [[w]])"

definition absorb :: "core_word list list \<Rightarrow> core_word list \<Rightarrow> core_word list list" where
  "absorb out r =
     (if out = [] then [r]
      else if \<not> isTurn r \<or> sameSpeaker (hd (last out)) (hd r)
      then butlast out @ [last out @ r] else out @ [r])"

definition speakerRuns :: "core_word list \<Rightarrow> core_word list list" where
  "speakerRuns words =
     (case foldl absorb [] (foldl add_word [] words) of
        r # s # rs \<Rightarrow> if \<not> isTurn r then (r @ s) # rs else r # s # rs
      | out \<Rightarrow> out)"

definition tieBreak :: real where "tieBreak = 1 / 100"

definition speaker_time :: "core_word list \<Rightarrow> runes \<Rightarrow> real" where
  "speaker_time ws sp =
     (\<Sum>w\<leftarrow>filter (\<lambda>w. w_speaker w = Some sp) ws. max 0 (w_end w - w_start w) + tieBreak)"

text \<open>The keys of the code's map, and the loop over them; the loop's result does not depend on
  the order it meets them in.\<close>

definition speakers_of :: "core_word list \<Rightarrow> runes list" where
  "speakers_of ws = remdups (List.map_filter w_speaker ws)"

definition dominant_step :: "core_word list \<Rightarrow> runes \<times> real \<Rightarrow> runes \<Rightarrow> runes \<times> real" where
  "dominant_step ws b sp =
     (let t = speaker_time ws sp in if t > snd b \<or> t = snd b \<and> sp < fst b then (sp, t) else b)"

definition dominantSpeaker :: "core_word list \<Rightarrow> runes option" where
  "dominantSpeaker ws =
     (if speakers_of ws = [] then None else Some (fst (foldl (dominant_step ws) ([], -1) (speakers_of ws))))"

definition averageConfidence :: "core_word list \<Rightarrow> real" where
  "averageConfidence ws =
     (let cs = filter (\<lambda>c. c > 0) (map w_confidence ws)
      in if cs = [] then 0 else sum_list cs / real (length cs))"

definition split_child :: "segment \<Rightarrow> core_word list list \<Rightarrow> nat \<Rightarrow> segment" where
  "split_child s runs i =
     (let ws = runs ! i in
      \<lparr>s_id = 0, s_start = (if i = 0 then s_start s else w_start (hd ws)),
       s_end = (if Suc i = length runs then s_end s else w_end (last ws)),
       s_text = words_text ws, s_channel = s_channel s, s_speaker = dominantSpeaker ws,
       s_avg_conf = averageConfidence ws, s_words = ws\<rparr>)"

definition splitOne :: "segment \<Rightarrow> segment list" where
  "splitOne s =
     (if s_words s = [] then [s]
      else let runs = speakerRuns (s_words s) in
        if length runs \<le> 1 then [s\<lparr>s_speaker := dominantSpeaker (s_words s)\<rparr>]
        else map (split_child s runs) [0..<length runs])"

definition renumber :: "segment list \<Rightarrow> segment list" where
  "renumber ss = map (\<lambda>(i, s). s\<lparr>s_id := int i\<rparr>) (List.enumerate 0 ss)"

definition Split :: "segment list \<Rightarrow> segment list" where
  "Split segs = renumber (concat (map splitOne segs))"

record speaker_sum =
  ss_id :: runes
  ss_speech :: real
  ss_segments :: nat

definition Speakers :: "segment list \<Rightarrow> speaker_sum list" where
  "Speakers segs =
     map (\<lambda>sp. let own = filter (\<lambda>s. s_speaker s = Some sp) segs in
            \<lparr>ss_id = sp, ss_speech = (\<Sum>s\<leftarrow>own. s_end s - s_start s), ss_segments = length own\<rparr>)
       (sort (remdups (List.map_filter s_speaker segs)))"

subsection \<open>Attribution\<close>

lemma itoa_digits: "0 < n \<Longrightarrow> itoa_digits n acc = digits_of n @ acc"
proof (induction n arbitrary: acc rule: less_induct)
  case (less n)
  show ?case
  proof (cases "n < 10")
    case True
    then show ?thesis using less.prems
      by (simp add: itoa_digits.simps [of n] itoa_digits.simps [of 0] digits_of.simps [of n])
  next
    case False
    with less show ?thesis by (simp add: itoa_digits.simps [of n] digits_of.simps [of n])
  qed
qed

lemma itoa_FormatInt: "itoa n = FormatInt n"
proof -
  have "char_of (of_char (CHR ''0'') :: nat) = CHR ''0''" by (rule char_of_char)
  then have "char_of (48::nat) = CHR ''0''" by simp
  then have "digits_of 0 = ''0''" by (simp add: digits_of.simps [of 0] digit_char_def)
  then show ?thesis by (simp add: itoa_def FormatInt_def itoa_digits)
qed

lemma speakerID_inj: "speakerID m = speakerID n \<longleftrightarrow> m = n"
proof -
  have "inj (of_char :: char \<Rightarrow> nat)" by (rule inj_of_char)
  then show ?thesis by (simp add: speakerID_def lit_def itoa_FormatInt FormatInt_inj inj_map_eq_map)
qed

lemma best_fold:
  fixes w k v
  assumes "\<forall>t\<in>set turns. 0 \<le> t_speaker t" "0 \<le> v" "v > 0 \<longrightarrow> 0 \<le> k"
  defines "b \<equiv> foldl (best_step w) (k, v) turns"
    and "ov \<equiv> \<lambda>t. turn_overlap (w_start w) (w_end w) (t_start t) (t_end t)"
  shows "v \<le> snd b \<and> (\<forall>t\<in>set turns. ov t \<le> snd b) \<and> (snd b > 0 \<longrightarrow> 0 \<le> fst b)
    \<and> (b = (k, v) \<or> (\<exists>t\<in>set turns. b = (t_speaker t, ov t) \<and> ov t > 0))"
  using assms(1-3) unfolding b_def ov_def
proof (induction turns arbitrary: k v)
  case (Cons t ts)
  let ?o = "turn_overlap (w_start w) (w_end w) (t_start t) (t_end t)"
  show ?case
  proof (cases "?o > v")
    case True
    have "\<forall>t\<in>set ts. 0 \<le> t_speaker t" "0 \<le> ?o" "?o > 0 \<longrightarrow> 0 \<le> t_speaker t" using Cons.prems True by auto
    from Cons.IH [OF this] True Cons.prems(2) show ?thesis by (auto simp: best_step_def Let_def)
  next
    case False
    have "\<forall>t\<in>set ts. 0 \<le> t_speaker t" using Cons.prems by auto
    from Cons.IH [OF this Cons.prems(2,3)] False show ?thesis by (auto simp: best_step_def Let_def)
  qed
qed simp

lemma nearest_fold:
  fixes m k v
  assumes "\<forall>t\<in>set turns. 0 \<le> t_speaker t" "0 \<le> k"
  defines "b \<equiv> foldl (nearest_step m) (k, v) turns"
  shows "snd b \<le> v \<and> (\<forall>t\<in>set turns. snd b \<le> turn_distance m t) \<and> 0 \<le> fst b
    \<and> (b = (k, v) \<or> (\<exists>t\<in>set turns. b = (t_speaker t, turn_distance m t)))"
  using assms(1,2) unfolding b_def
proof (induction turns arbitrary: k v)
  case (Cons t ts)
  show ?case
  proof (cases "turn_distance m t < v")
    case True
    have "\<forall>t\<in>set ts. 0 \<le> t_speaker t" "0 \<le> t_speaker t" using Cons.prems by auto
    from Cons.IH [OF this, of "turn_distance m t"] True Cons.prems(2) show ?thesis
      by (auto simp: nearest_step_def)
  next
    case False
    have "\<forall>t\<in>set ts. 0 \<le> t_speaker t" using Cons.prems by auto
    from Cons.IH [OF this Cons.prems(2), of v] False Cons.prems(2) show ?thesis by (auto simp: nearest_step_def)
  qed
qed simp

lemma nearest_spec:
  fixes w :: core_word
  assumes "\<forall>t\<in>set turns. 0 \<le> t_speaker t" "turns \<noteq> []"
  defines "m \<equiv> (w_start w + w_end w) / 2"
  shows "\<exists>t\<in>set turns. nearest w turns = t_speaker t \<and> (\<forall>u\<in>set turns. turn_distance m t \<le> turn_distance m u)"
proof -
  obtain t ts where t: "turns = t # ts" using assms(2) by (cases turns) auto
  have "foldl (nearest_step m) (-1, 0) turns = foldl (nearest_step m) (t_speaker t, turn_distance m t) ts"
    by (simp add: t nearest_step_def)
  with nearest_fold [of ts "t_speaker t" m "turn_distance m t"] assms(1)
  show ?thesis unfolding nearest_def m_def [symmetric] by (auto simp: t)
qed

lemma overlap_nonneg: "0 \<le> turn_overlap a b c d"
  unfolding turn_overlap_def Let_def by (auto simp del: min_less_iff_conj max_less_iff_conj)

lemma assign_one_best:
  fixes w :: core_word
  assumes "\<forall>t\<in>set turns. 0 \<le> t_speaker t" "turns \<noteq> []" "w_start w \<le> w_end w"
  defines "ov \<equiv> \<lambda>t. turn_overlap (w_start w) (w_end w) (t_start t) (t_end t)"
    and "away \<equiv> turn_distance ((w_start w + w_end w) / 2)"
  shows "(\<exists>t\<in>set turns. a_speaker (assign_one turns w) = speakerID (t_speaker t)
        \<and> (if \<exists>u\<in>set turns. ov u > 0
           then (\<forall>u\<in>set turns. ov u \<le> ov t)
             \<and> a_confidence (assign_one turns w) = share (ov t) (w_end w - w_start w)
           else (\<forall>u\<in>set turns. away t \<le> away u) \<and> a_confidence (assign_one turns w) = FallbackConfidence))
    \<and> 0 \<le> a_confidence (assign_one turns w) \<and> a_confidence (assign_one turns w) \<le> 1"
proof -
  let ?b = "foldl (best_step w) (-1, 0) turns"
  have B: "0 \<le> snd ?b" "\<forall>t\<in>set turns. ov t \<le> snd ?b" "snd ?b > 0 \<longrightarrow> 0 \<le> fst ?b"
    "?b = (-1, 0) \<or> (\<exists>t\<in>set turns. ?b = (t_speaker t, ov t) \<and> ov t > 0)"
    using best_fold [OF assms(1), of 0 "-1" w] unfolding ov_def by auto
  have sh: "0 \<le> share (ov t) d \<and> share (ov t) d \<le> 1" for t d
    using overlap_nonneg by (auto simp: share_def FallbackConfidence_def ov_def)
  have "\<exists>t\<in>set turns. a_speaker (assign_one turns w) = speakerID (t_speaker t)
      \<and> (if \<exists>u\<in>set turns. ov u > 0
         then (\<forall>u\<in>set turns. ov u \<le> ov t) \<and> a_confidence (assign_one turns w) = share (ov t) (w_end w - w_start w)
         else (\<forall>u\<in>set turns. away t \<le> away u) \<and> a_confidence (assign_one turns w) = FallbackConfidence)"
  proof (cases "\<exists>u\<in>set turns. ov u > 0")
    case True
    then have "?b \<noteq> (-1, 0)" using B(2) by (metis leD snd_conv)
    then obtain t where t: "t \<in> set turns" "?b = (t_speaker t, ov t)" using B(4) by blast
    then have "assign_one turns w = \<lparr>a_speaker = speakerID (t_speaker t), a_confidence = share (ov t) (w_end w - w_start w)\<rparr>"
      using assms(1) by (simp add: assign_one_def Let_def)
    with t B(2) True show ?thesis by auto
  next
    case False
    then have "?b = (-1, 0)" using B(4) by blast
    obtain t where t: "t \<in> set turns" "nearest w turns = t_speaker t" "\<forall>u\<in>set turns. away t \<le> away u"
      using nearest_spec [OF assms(1,2), of w] unfolding away_def by blast
    then have "assign_one turns w = \<lparr>a_speaker = speakerID (t_speaker t), a_confidence = FallbackConfidence\<rparr>"
      using assms(1) \<open>?b = (-1, 0)\<close> by (simp add: assign_one_def Let_def)
    with t False show ?thesis by auto
  qed
  moreover from this have "0 \<le> a_confidence (assign_one turns w) \<and> a_confidence (assign_one turns w) \<le> 1"
    using sh by (auto simp: FallbackConfidence_def split: if_splits)
  ultimately show ?thesis by simp
qed

text \<open>C23: the attributions come one per word and in the words' order. Each word gets the speaker whose turn
  covers most of it, with a confidence between 0 and 1 that is the share covered; a word no turn overlaps
  gets the speaker of the nearest turn, at the fallback confidence; and only when there are no turns
  does a word get no speaker.\<close>

theorem assign_best_turn:
  assumes "\<forall>t\<in>set turns. 0 \<le> t_speaker t" "\<forall>w\<in>set words. w_start w \<le> w_end w"
  shows "length (Assign words turns) = length words \<and> (\<forall>i<length words.
    let w = words ! i; a = Assign words turns ! i; ov = (\<lambda>t. turn_overlap (w_start w) (w_end w) (t_start t) (t_end t));
        away = turn_distance ((w_start w + w_end w) / 2) in
    if turns = [] then a = no_attribution
    else (\<exists>t\<in>set turns. a_speaker a = speakerID (t_speaker t)
        \<and> (if \<exists>u\<in>set turns. ov u > 0
           then (\<forall>u\<in>set turns. ov u \<le> ov t) \<and> a_confidence a = share (ov t) (w_end w - w_start w)
           else (\<forall>u\<in>set turns. away t \<le> away u) \<and> a_confidence a = FallbackConfidence))
      \<and> 0 \<le> a_confidence a \<and> a_confidence a \<le> 1)"
proof (intro conjI allI impI)
  fix i
  assume "i < length words"
  then have i: "Assign words turns ! i = assign_one turns (words ! i)" "words ! i \<in> set words" by (simp_all add: Assign_def)
  have none: "assign_one [] w = no_attribution" for w by (simp add: assign_one_def nearest_def)
  show "let w = words ! i; a = Assign words turns ! i; ov = (\<lambda>t. turn_overlap (w_start w) (w_end w) (t_start t) (t_end t));
        away = turn_distance ((w_start w + w_end w) / 2) in
    if turns = [] then a = no_attribution
    else (\<exists>t\<in>set turns. a_speaker a = speakerID (t_speaker t)
        \<and> (if \<exists>u\<in>set turns. ov u > 0
           then (\<forall>u\<in>set turns. ov u \<le> ov t) \<and> a_confidence a = share (ov t) (w_end w - w_start w)
           else (\<forall>u\<in>set turns. away t \<le> away u) \<and> a_confidence a = FallbackConfidence))
      \<and> 0 \<le> a_confidence a \<and> a_confidence a \<le> 1"
    using assign_one_best [OF assms(1), of "words ! i"] assms(2) i(2) unfolding i(1) Let_def by (simp add: none)
qed (simp add: Assign_def)

definition demo_word :: "real \<Rightarrow> real \<Rightarrow> core_word" where
  "demo_word a b = \<lparr>w_text = lit ''x'', w_start = a, w_end = b, w_confidence = 0, w_original = [],
     w_speaker = None, w_speaker_conf = 0, w_channel = 0\<rparr>"

theorem assign_best_turn_witness:
  "let turns = [\<lparr>t_start = 0, t_end = 1, t_speaker = 0\<rparr>, \<lparr>t_start = 1, t_end = 3, t_speaker = 1\<rparr>];
       as = Assign [demo_word 0 3, demo_word 0 1] turns in
   length as = 2 \<and> a_speaker (as ! 0) = speakerID 1 \<and> a_speaker (as ! 1) = speakerID 0"
proof -
  let ?turns = "[\<lparr>t_start = 0, t_end = 1, t_speaker = 0\<rparr>, \<lparr>t_start = 1, t_end = 3, t_speaker = 1\<rparr>]"
  have "\<forall>t\<in>set ?turns. 0 \<le> t_speaker t" "\<forall>w\<in>set [demo_word 0 3, demo_word 0 1]. w_start w \<le> w_end w"
    by (simp_all add: demo_word_def)
  note t = assign_best_turn [OF this]
  show ?thesis
    using t [THEN conjunct1] t [THEN conjunct2, THEN spec [of _ 0]] t [THEN conjunct2, THEN spec [of _ 1]]
    unfolding Let_def by (auto simp: demo_word_def turn_overlap_def)
qed

subsection \<open>The cut\<close>

text \<open>Lists by zero, one or more elements, for case analysis.\<close>

fun apart2 :: "'a list \<Rightarrow> bool" where
  "apart2 (r # s # rs) \<longleftrightarrow> True"
| "apart2 [] \<longleftrightarrow> False"
| "apart2 [r] \<longleftrightarrow> False"

lemma add_word_concat: "concat (foldl add_word runs ws) = concat runs @ ws"
proof (induction ws arbitrary: runs)
  case (Cons w ws)
  have "concat (add_word runs w) = concat runs @ [w]"
    by (cases runs rule: rev_cases) (simp_all add: add_word_def)
  with Cons show ?case by simp
qed simp

lemma add_word_nonempty: "[] \<notin> set runs \<Longrightarrow> [] \<notin> set (foldl add_word runs ws)"
proof (induction ws arbitrary: runs)
  case (Cons w ws)
  have "[] \<notin> set (add_word runs w)" using Cons.prems
    by (cases runs rule: rev_cases) (simp_all add: add_word_def)
  with Cons show ?case by simp
qed simp

lemma absorb_concat: "concat (foldl absorb out rs) = concat out @ concat rs"
proof (induction rs arbitrary: out)
  case (Cons r rs)
  have "concat (absorb out r) = concat out @ r"
    by (cases out rule: rev_cases) (simp_all add: absorb_def)
  with Cons show ?case by simp
qed simp

lemma absorb_nonempty: "[] \<notin> set out \<Longrightarrow> [] \<notin> set rs \<Longrightarrow> [] \<notin> set (foldl absorb out rs)"
proof (induction rs arbitrary: out)
  case (Cons r rs)
  have "[] \<notin> set (absorb out r)" using Cons.prems
    by (cases out rule: rev_cases) (auto simp: absorb_def)
  with Cons show ?case by simp
qed simp

lemma speakerRuns_partition: "concat (speakerRuns ws) = ws \<and> [] \<notin> set (speakerRuns ws)"
proof -
  let ?out = "foldl absorb [] (foldl add_word [] ws)"
  have c: "concat ?out = ws" by (simp add: absorb_concat add_word_concat)
  have n: "[] \<notin> set ?out" by (intro absorb_nonempty add_word_nonempty) simp_all
  show ?thesis
  proof (cases ?out rule: apart2.cases)
    case (1 r s rs)
    with c n show ?thesis by (auto simp: speakerRuns_def)
  qed (use c n in \<open>auto simp: speakerRuns_def\<close>)
qed

text \<open>Words in time order: neither starts nor ends go back.\<close>

definition in_time :: "core_word list \<Rightarrow> bool" where
  "in_time ws \<longleftrightarrow> sorted (map w_start ws) \<and> sorted (map w_end ws)"

lemma in_time_append: "in_time (a @ b) \<Longrightarrow> in_time a \<and> in_time b
    \<and> (\<forall>x\<in>set a. \<forall>y\<in>set b. w_start x \<le> w_start y \<and> w_end x \<le> w_end y)"
  by (auto simp: in_time_def sorted_append)

lemma isTurn_grow_right:
  assumes "isTurn a" "in_time (a @ b)"
  shows "isTurn (a @ b)"
proof -
  have a: "a \<noteq> []" using assms(1) by (auto simp: isTurn_def MinTurnWords_def)
  have "w_end (last a) \<le> w_end (last (a @ b))"
    using in_time_append [OF assms(2)] a by (cases b rule: rev_cases) auto
  with assms(1) a show ?thesis by (simp add: isTurn_def)
qed

lemma isTurn_grow_left:
  assumes "isTurn b" "in_time (a @ b)"
  shows "isTurn (a @ b)"
proof -
  have b: "b \<noteq> []" using assms(1) by (auto simp: isTurn_def MinTurnWords_def)
  have "w_start (hd (a @ b)) \<le> w_start (hd b)"
    using in_time_append [OF assms(2)] b by (cases a) auto
  with assms(1) b show ?thesis by (simp add: isTurn_def)
qed

lemma absorb_turns:
  "in_time (concat out @ concat rs) \<Longrightarrow> \<forall>r\<in>set (tl out). isTurn r \<Longrightarrow>
    \<forall>r\<in>set (tl (foldl absorb out rs)). isTurn r"
proof (induction rs arbitrary: out)
  case (Cons r rs)
  have time: "in_time (concat (absorb out r) @ concat rs)"
    using Cons.prems(1) absorb_concat [of out "[r]"] by simp
  have "\<forall>x\<in>set (tl (absorb out r)). isTurn x"
  proof (cases out rule: rev_cases)
    case Nil
    then show ?thesis by (simp add: absorb_def)
  next
    case (snoc ys y)
    have ty: "in_time (y @ r)"
    proof -
      have "in_time (concat ys @ ((y @ r) @ concat rs))" using Cons.prems(1) by (simp add: snoc)
      then have "in_time ((y @ r) @ concat rs)" by (rule in_time_append [THEN conjunct2, THEN conjunct1])
      then show ?thesis by (rule in_time_append [THEN conjunct1])
    qed
    show ?thesis
    proof (cases "ys = []")
      case True
      then show ?thesis by (auto simp: absorb_def snoc)
    next
      case False
      then have t: "\<forall>x\<in>set (tl ys). isTurn x" "isTurn y" using Cons.prems(2) by (auto simp: snoc)
      with isTurn_grow_right [OF t(2) ty] False show ?thesis by (auto simp: absorb_def snoc)
    qed
  qed
  from Cons.IH [OF time this] show ?case by simp
qed simp

lemma speakerRuns_turns:
  assumes "in_time ws" "length (speakerRuns ws) > 1" "r \<in> set (speakerRuns ws)"
  shows "isTurn r"
proof -
  let ?out = "foldl absorb [] (foldl add_word [] ws)"
  have c: "concat ?out = ws" by (simp add: absorb_concat add_word_concat)
  have t: "\<forall>x\<in>set (tl ?out). isTurn x"
    by (rule absorb_turns) (simp_all add: add_word_concat assms(1))
  show ?thesis
  proof (cases ?out rule: apart2.cases)
    case (1 a b rs)
    show ?thesis
    proof (cases "isTurn a")
      case True
      with 1 t assms(3) show ?thesis by (auto simp: speakerRuns_def)
    next
      case False
      have "in_time (a @ b)" using assms(1) c 1 in_time_append [of "a @ b" "concat rs"] by simp
      then have "isTurn (a @ b)" using t 1 by (intro isTurn_grow_left) simp_all
      with 1 t assms(3) False show ?thesis by (auto simp: speakerRuns_def)
    qed
  qed (use assms(2) in \<open>simp_all add: speakerRuns_def\<close>)
qed

lemma split_child_words: "i < length runs \<Longrightarrow> s_words (split_child s runs i) = runs ! i"
  by (simp add: split_child_def Let_def)

lemma splitOne_words: "concat (map s_words (splitOne s)) = s_words s"
proof -
  have "map s_words (map (split_child s runs) [0..<length runs]) = runs" for runs
    by (rule nth_equalityI) (simp_all add: split_child_words)
  then show ?thesis using speakerRuns_partition [of "s_words s"] by (auto simp: splitOne_def Let_def)
qed

lemma renumber_words: "map s_words (renumber ss) = map s_words ss"
  by (rule nth_equalityI) (simp_all add: renumber_def nth_enumerate_eq)

lemma renumber_ids: "map s_id (renumber ss) = map int [0..<length ss]"
  by (rule nth_equalityI) (simp_all add: renumber_def nth_enumerate_eq)

text \<open>C24: cutting at the turns only regroups the transcript. The words of the result are the
  words of the input, all of them and in order, and the pieces are numbered from 0; the pieces of
  a segment keep its channel, begin where it began and end where it ended; and where a segment
  is cut at all and its words are in time order, no piece is confetti: each has at least two
  words and half a second.\<close>

theorem split_regroups:
  assumes "\<forall>s\<in>set segs. in_time (s_words s)"
  shows "result_words (Split segs) = result_words segs
    \<and> map s_id (Split segs) = map int [0..<length (Split segs)]
    \<and> (\<forall>s\<in>set segs. splitOne s \<noteq> [] \<and> s_start (hd (splitOne s)) = s_start s
        \<and> s_end (last (splitOne s)) = s_end s \<and> (\<forall>p\<in>set (splitOne s). s_channel p = s_channel s)
        \<and> (length (splitOne s) > 1 \<longrightarrow> (\<forall>p\<in>set (splitOne s). isTurn (s_words p))))"
proof (intro conjI)
  have m: "map s_words (Split segs) = concat (map (\<lambda>s. map s_words (splitOne s)) segs)"
    by (simp add: Split_def renumber_words map_concat comp_def)
  have "result_words (Split segs) = concat (map (\<lambda>s. concat (map s_words (splitOne s))) segs)"
    unfolding result_words_def m by (induction segs) simp_all
  also have "\<dots> = result_words segs" by (simp add: splitOne_words result_words_def)
  finally show "result_words (Split segs) = result_words segs" .
  show "map s_id (Split segs) = map int [0..<length (Split segs)]"
    unfolding Split_def renumber_ids by (simp add: renumber_def)
  show "\<forall>s\<in>set segs. splitOne s \<noteq> [] \<and> s_start (hd (splitOne s)) = s_start s
        \<and> s_end (last (splitOne s)) = s_end s \<and> (\<forall>p\<in>set (splitOne s). s_channel p = s_channel s)
        \<and> (length (splitOne s) > 1 \<longrightarrow> (\<forall>p\<in>set (splitOne s). isTurn (s_words p)))"
  proof
    fix s assume s: "s \<in> set segs"
    show "splitOne s \<noteq> [] \<and> s_start (hd (splitOne s)) = s_start s
        \<and> s_end (last (splitOne s)) = s_end s \<and> (\<forall>p\<in>set (splitOne s). s_channel p = s_channel s)
        \<and> (length (splitOne s) > 1 \<longrightarrow> (\<forall>p\<in>set (splitOne s). isTurn (s_words p)))"
    proof (cases "s_words s = [] \<or> length (speakerRuns (s_words s)) \<le> 1")
      case True
      then show ?thesis by (auto simp: splitOne_def Let_def)
    next
      case False
      let ?r = "speakerRuns (s_words s)"
      have sp: "splitOne s = map (split_child s ?r) [0..<length ?r]" and n: "length ?r > 1"
        using False by (auto simp: splitOne_def Let_def)
      have "isTurn (s_words (split_child s ?r i))" if "i < length ?r" for i
        using speakerRuns_turns [OF _ n] assms s that by (simp add: split_child_words)
      moreover have ne: "[0..<length ?r] \<noteq> []" using n by auto
      have hd0: "hd [0..<length ?r] = 0" by (rule hd_upt) (use n in linarith)
      have "s_start (hd (splitOne s)) = s_start s" unfolding sp hd_map [OF ne] hd0
        by (simp add: split_child_def Let_def)
      moreover have pos: "0 < length ?r" using n by linarith
      have l0: "Suc (last [0..<length ?r]) = length ?r" using last_upt [OF pos] pos by linarith
      have "s_end (last (splitOne s)) = s_end s" unfolding sp last_map [OF ne]
        by (simp add: split_child_def Let_def l0)
      ultimately show ?thesis using n unfolding sp by (auto simp: split_child_def Let_def)
    qed
  qed
qed

theorem split_regroups_witness:
  "result_words (Split [\<lparr>s_id = 7, s_start = 0, s_end = 3, s_text = [], s_channel = 0, s_speaker = None,
      s_avg_conf = 0, s_words = [demo_word 0 1, demo_word 1 2]\<rparr>]) = [demo_word 0 1, demo_word 1 2]"
  by (subst split_regroups [THEN conjunct1]) (simp_all add: in_time_def demo_word_def result_words_def)

end
