(* ===== verification/Postproc.thy ===== *)
theory Postproc
  imports Diarize JobRecord
begin

section \<open>The stages after recognition (internal/postproc)\<close>

text \<open>
  A stage takes words and gives words back, with how many input words each output word consumed
  (no vector means one each). Here: the chain that runs the stages and checks their bookkeeping,
  the way the result is put back into the segments it came from, the punctuation stage, and the
  choice of the stages. A stage is a function; the ones behind models or other packages are
  parameters.
\<close>

type_synonym stage_fun = "core_word list \<Rightarrow> gerr + (core_word list \<times> int list option)"

definition checkSpans :: "nat \<Rightarrow> core_word list \<Rightarrow> int list option \<Rightarrow> bool" where
  "checkSpans inputs out spans =
     (case spans of
        None \<Rightarrow> length out = inputs
      | Some sp \<Rightarrow> length sp = length out \<and> list_all (\<lambda>n. \<not> n < 1) sp \<and> sum_list sp = int inputs)"

text \<open>Taking \<open>n\<close> entries at a time and adding them up; an \<open>n\<close> below one takes none.\<close>

fun sum_groups :: "int list \<Rightarrow> int list \<Rightarrow> int list" where
  "sum_groups outer [] = []"
| "sum_groups outer (n # ns) = sum_list (take (nat n) outer) # sum_groups (drop (nat n) outer) ns"

definition composeSpans :: "int list option \<Rightarrow> int list option \<Rightarrow> int list option" where
  "composeSpans outer inner =
     (case inner of None \<Rightarrow> outer
      | Some i \<Rightarrow> (case outer of None \<Rightarrow> inner | Some o' \<Rightarrow> Some (sum_groups o' i)))"

fun chain_loop :: "stage_fun list \<Rightarrow> core_word list \<Rightarrow> int list option \<Rightarrow> gerr + (core_word list \<times> int list option)" where
  "chain_loop [] out spans = Inr (out, spans)"
| "chain_loop (s # ss) out spans =
     (case s out of
        Inl e \<Rightarrow> Inl e
      | Inr (got, gotSpans) \<Rightarrow>
          if \<not> checkSpans (length out) got gotSpans then Inl (Domain CodeInternal [])
          else chain_loop ss got (composeSpans spans gotSpans))"

definition chain_Apply :: "stage_fun list \<Rightarrow> core_word list \<Rightarrow> gerr + (core_word list \<times> int list option)" where
  "chain_Apply c ws = chain_loop c ws None"

subsection \<open>Back into the segments (segments.go)\<close>

definition flatten :: "segment list \<Rightarrow> core_word list \<times> nat list" where
  "flatten segs = (concat (map s_words segs), map (length \<circ> s_words) segs)"

text \<open>Advancing to the segment that owns the next input word.\<close>

function advance :: "nat list \<Rightarrow> nat \<Rightarrow> nat \<Rightarrow> nat \<times> nat" where
  "advance layout seg seen =
     (if Suc seg < length layout \<and> seen \<ge> layout ! seg then advance layout (Suc seg) 0 else (seg, seen))"
  by auto
termination by (relation "measure (\<lambda>(layout, seg, seen). length layout - seg)") auto

declare advance.simps [simp del]

fun consume :: "nat \<Rightarrow> nat list \<Rightarrow> nat \<times> nat \<Rightarrow> nat \<times> nat" where
  "consume 0 layout st = st"
| "consume (Suc n) layout st = consume n layout (advance layout (fst st) (Suc (snd st)))"

fun scatter_loop ::
  "nat list \<Rightarrow> nat \<times> nat \<Rightarrow> (nat \<Rightarrow> core_word list) \<Rightarrow> (core_word \<times> int) list \<Rightarrow> (nat \<Rightarrow> core_word list)" where
  "scatter_loop layout st buckets [] = buckets"
| "scatter_loop layout st buckets ((w, n) # rest) =
     (let st1 = advance layout (fst st) (snd st);
          buckets1 = buckets(fst st1 := buckets (fst st1) @ [w])
      in scatter_loop layout (consume (nat n) layout st1) buckets1 rest)"

definition spans_list :: "core_word list \<Rightarrow> int list option \<Rightarrow> int list" where
  "spans_list out spans = (case spans of None \<Rightarrow> replicate (length out) 1 | Some sp \<Rightarrow> sp)"

definition scatter_buckets :: "nat list \<Rightarrow> core_word list \<Rightarrow> int list option \<Rightarrow> nat \<Rightarrow> core_word list" where
  "scatter_buckets layout out spans =
     scatter_loop layout (0, 0) (\<lambda>_. []) (zip out (spans_list out spans))"

definition retime :: "segment \<Rightarrow> segment" where
  "retime s =
     (if s_words s = [] then s
      else s\<lparr>s_start := (if w_start (hd (s_words s)) < s_start s then w_start (hd (s_words s)) else s_start s),
             s_end := (if w_end (last (s_words s)) > s_end s then w_end (last (s_words s)) else s_end s)\<rparr>)"

fun enforceOrder :: "segment list \<Rightarrow> segment list" where
  "enforceOrder (s # t # ss) =
     (let t1 = (if s_start t < s_end s then t\<lparr>s_start := s_end s\<rparr> else t);
          t2 = (if s_end t1 < s_start t1 then t1\<lparr>s_end := s_start t1\<rparr> else t1)
      in s # enforceOrder (t2 # ss))"
| "enforceOrder ss = ss"

definition refill :: "segment \<Rightarrow> core_word list \<Rightarrow> segment" where
  "refill s ws = retime (s\<lparr>s_words := ws, s_text := words_text ws, s_avg_conf := averageConfidence ws\<rparr>)"

definition scatter :: "segment list \<Rightarrow> core_word list \<Rightarrow> int list option \<Rightarrow> nat list \<Rightarrow> segment list" where
  "scatter segs out spans layout =
     (let b = scatter_buckets layout out spans in
      renumber (enforceOrder (List.map_filter (\<lambda>(i, s). if b i = [] then None else Some (refill s (b i)))
        (List.enumerate 0 segs))))"

definition postproc_Apply :: "stage_fun list \<Rightarrow> segment list \<Rightarrow> gerr + segment list" where
  "postproc_Apply c segs =
     (if c = [] \<or> segs = [] then Inr segs
      else case flatten segs of (flat, layout) \<Rightarrow>
        if flat = [] then Inr segs
        else case chain_Apply c flat of
          Inl e \<Rightarrow> Inl e
        | Inr (out, spans) \<Rightarrow> Inr (scatter segs out spans layout))"

subsection \<open>One channel at a time\<close>

definition seg_channel :: "segment \<Rightarrow> int" where
  "seg_channel s = (if s_words s = [] then 0 else w_channel (hd (s_words s)))"

definition hasMultipleChannels :: "segment list \<Rightarrow> bool" where
  "hasMultipleChannels segs \<longleftrightarrow>
     length (remdups (map seg_channel (filter (\<lambda>s. s_words s \<noteq> []) segs))) > 1"

fun apply_groups :: "stage_fun list \<Rightarrow> segment list list \<Rightarrow> gerr + segment list" where
  "apply_groups c [] = Inr []"
| "apply_groups c (g # gs) =
     (case postproc_Apply c g of
        Inl e \<Rightarrow> Inl e
      | Inr out \<Rightarrow> (case apply_groups c gs of Inl e \<Rightarrow> Inl e | Inr rest \<Rightarrow> Inr (out @ rest)))"

text \<open>The channels in the order they first appear.\<close>

definition channel_order :: "segment list \<Rightarrow> int list" where
  "channel_order segs = rev (remdups (rev (map seg_channel segs)))"

definition applyPerChannel :: "stage_fun list \<Rightarrow> segment list \<Rightarrow> gerr + segment list" where
  "applyPerChannel c segs =
     (case apply_groups c (map (\<lambda>ch. filter (\<lambda>s. seg_channel s = ch) segs) (channel_order segs)) of
        Inl e \<Rightarrow> Inl e
      | Inr merged \<Rightarrow> Inr (renumber (sort_key (\<lambda>s. (s_start s, seg_channel s)) merged)))"

definition ApplyWithChannels :: "stage_fun list \<Rightarrow> segment list \<Rightarrow> gerr + segment list" where
  "ApplyWithChannels c segs =
     (if segs = [] \<or> c = [] then Inr segs
      else if \<not> hasMultipleChannels segs then postproc_Apply c segs
      else applyPerChannel c segs)"

subsection \<open>Punctuation (punct.go)\<close>

definition chunkWords :: nat where "chunkWords = 200"
definition chunk_overlap :: nat where "chunk_overlap = 20"

text \<open>The tables of the package unicode are parameters: letter or digit, and lower case.\<close>

fun skip_marks :: "(rune \<Rightarrow> bool) \<Rightarrow> (rune \<Rightarrow> rune) \<Rightarrow> rune \<Rightarrow> runes \<Rightarrow> runes \<Rightarrow> (runes \<times> runes) option" where
  "skip_marks alnum lower want b [] = None"
| "skip_marks alnum lower want b (c # src) =
     (if lower c = lower want then Some (b @ [c], src)
      else if is_space c then skip_marks alnum lower want b src
      else if alnum c then None
      else skip_marks alnum lower want (b @ [c]) src)"

fun match_letters :: "(rune \<Rightarrow> bool) \<Rightarrow> (rune \<Rightarrow> rune) \<Rightarrow> runes \<Rightarrow> runes \<Rightarrow> runes \<Rightarrow> (runes \<times> runes) option" where
  "match_letters alnum lower [] b src = Some (b, src)"
| "match_letters alnum lower (want # ws) b src =
     (if \<not> alnum want then match_letters alnum lower ws b src
      else case skip_marks alnum lower want b src of
        None \<Rightarrow> None | Some (b', src') \<Rightarrow> match_letters alnum lower ws b' src')"

definition trailing :: "(rune \<Rightarrow> bool) \<Rightarrow> rune \<Rightarrow> bool" where
  "trailing alnum c \<longleftrightarrow> \<not> is_space c \<and> \<not> alnum c"

fun reattach :: "(rune \<Rightarrow> bool) \<Rightarrow> (rune \<Rightarrow> rune) \<Rightarrow> core_word list \<Rightarrow> runes \<Rightarrow> core_word list option" where
  "reattach alnum lower [] src = Some []"
| "reattach alnum lower (w # ws) src =
     (case match_letters alnum lower (w_text w) [] src of
        None \<Rightarrow> None
      | Some (b, src1) \<Rightarrow>
          if b = [] then None
          else (case reattach alnum lower ws (dropWhile (trailing alnum) src1) of
                  None \<Rightarrow> None
                | Some out \<Rightarrow> Some (w\<lparr>w_text := b @ takeWhile (trailing alnum) src1\<rparr> # out)))"

text \<open>The chunks from \<open>start\<close> on; \<open>model\<close> is the punctuation model's answer.\<close>

function punct_loop ::
  "(rune \<Rightarrow> bool) \<Rightarrow> (rune \<Rightarrow> rune) \<Rightarrow> (runes \<Rightarrow> gerr + runes) \<Rightarrow> core_word list \<Rightarrow> nat \<Rightarrow> gerr + core_word list" where
  "punct_loop alnum lower model ws start =
     (if start \<ge> length ws then Inr []
      else
        let en = min (start + chunkWords) (length ws);
            ctx = start - chunk_overlap;
            chunk = take (en - ctx) (drop ctx ws) in
        case model (words_text chunk) of
          Inl e \<Rightarrow> Inl e
        | Inr text \<Rightarrow>
            let got = (case reattach alnum lower chunk text of None \<Rightarrow> chunk | Some g \<Rightarrow> g) in
            (case punct_loop alnum lower model ws en of
               Inl e \<Rightarrow> Inl e
             | Inr rest \<Rightarrow> Inr (drop (start - ctx) got @ rest)))"
  by auto
termination
  by (relation "measure (\<lambda>(alnum, lower, model, ws, start). length ws - start)") (auto simp: chunkWords_def)

declare punct_loop.simps [simp del]

definition punctuate ::
  "(rune \<Rightarrow> bool) \<Rightarrow> (rune \<Rightarrow> rune) \<Rightarrow> (runes \<Rightarrow> gerr + runes) \<Rightarrow> stage_fun" where
  "punctuate alnum lower model ws =
     (if ws = [] then Inr (ws, None)
      else case punct_loop alnum lower model ws 0 of Inl e \<Rightarrow> Inl e | Inr out \<Rightarrow> Inr (out, None))"

subsection \<open>Which stages a request gets (build.go)\<close>

record postproc_factory =
  pf_has_punct :: bool
  pf_locale :: string
  pf_punct_default :: bool
  pf_itn_default :: bool

datatype stage_choice = PunctuationStage | ITNStage string
datatype postproc_warning = PunctuationUnavailable | ITNUnavailable

definition itnLocale :: "postproc_factory \<Rightarrow> 'a request \<Rightarrow> string \<Rightarrow> string" where
  "itnLocale f req language =
     (if rq_language req \<noteq> [] then rq_language req else if language \<noteq> [] then language else pf_locale f)"

definition factory_Chain ::
  "(string \<Rightarrow> bool) \<Rightarrow> postproc_factory \<Rightarrow> 'a request \<Rightarrow> bool \<Rightarrow> string \<Rightarrow> stage_choice list \<times> postproc_warning list" where
  "factory_Chain has_rules f req builtin language =
     (let wantsP = (rq_punctuate req \<or> pf_punct_default f) \<and> \<not> builtin;
          wantsI = rq_itn req \<or> pf_itn_default f;
          loc = itnLocale f req language
      in ((if wantsP \<and> pf_has_punct f then [PunctuationStage] else [])
            @ (if wantsI \<and> has_rules loc then [ITNStage loc] else []),
          (if wantsP \<and> \<not> pf_has_punct f then [PunctuationUnavailable] else [])
            @ (if wantsI \<and> \<not> has_rules loc then [ITNUnavailable] else [])))"

subsection \<open>The chain's bookkeeping\<close>

lemma checkSpans_Some:
  "checkSpans n out (Some sp) \<longleftrightarrow> length sp = length out \<and> (\<forall>k\<in>set sp. 1 \<le> k) \<and> sum_list sp = int n"
  by (auto simp: checkSpans_def list_all_iff)

lemma sum_groups_length [simp]: "length (sum_groups outer inner) = length inner"
  by (induction outer inner rule: sum_groups.induct) simp_all

lemma sum_groups_ok:
  "\<forall>k\<in>set inner. 1 \<le> k \<Longrightarrow> \<forall>k\<in>set outer. 1 \<le> k \<Longrightarrow> sum_list inner = int (length outer) \<Longrightarrow>
    (\<forall>k\<in>set (sum_groups outer inner). 1 \<le> k) \<and> sum_list (sum_groups outer inner) = sum_list outer"
proof (induction outer inner rule: sum_groups.induct)
  case (2 outer n ns)
  have n: "1 \<le> n" using "2.prems"(1) by simp
  have rest: "0 \<le> sum_list ns" using "2.prems"(1) by (intro sum_list_nonneg) force
  have total': "n + sum_list ns = int (length outer)" using "2.prems"(3) by simp
  then have len: "nat n \<le> length outer" using rest n by linarith
  have "sum_list ns = int (length (drop (nat n) outer))" using total' n len by simp
  moreover have "\<forall>k\<in>set (drop (nat n) outer). 1 \<le> k" using "2.prems"(2) by (meson in_set_dropD)
  moreover have "\<forall>k\<in>set ns. 1 \<le> k" using "2.prems"(1) by simp
  ultimately have IH: "\<forall>k\<in>set (sum_groups (drop (nat n) outer) ns). 1 \<le> k"
    "sum_list (sum_groups (drop (nat n) outer) ns) = sum_list (drop (nat n) outer)"
    using "2.IH" by blast+
  have "1 \<le> sum_list (take (nat n) outer)"
  proof -
    obtain m where m: "nat n = Suc m" using n by (cases "nat n") auto
    obtain x xs where x: "outer = x # xs" using len m by (cases outer) auto
    have "1 \<le> y" if "y \<in> set (take m xs)" for y
      using in_set_takeD [OF that] "2.prems"(2) x by simp
    then have "0 \<le> sum_list (take m xs)" by (intro sum_list_nonneg) force
    then show ?thesis using "2.prems"(2) by (simp add: m x)
  qed
  moreover have "sum_list (take (nat n) outer) + sum_list (drop (nat n) outer) = sum_list outer"
    by (metis append_take_drop_id sum_list_append)
  ultimately show ?case using IH by simp
qed simp

lemma composeSpans_ok:
  assumes "checkSpans n out spans" "checkSpans (length out) got g"
  shows "checkSpans n got (composeSpans spans g)"
proof (cases g)
  case None
  then have "length got = length out" using assms(2) by (simp add: checkSpans_def)
  then show ?thesis using assms(1) None by (simp add: composeSpans_def checkSpans_def split: option.splits)
next
  case g: (Some i)
  show ?thesis
  proof (cases spans)
    case None
    then have "length out = n" using assms(1) by (simp add: checkSpans_def)
    then show ?thesis using assms(2) by (simp add: composeSpans_def g None)
  next
    case (Some o')
    then have "\<forall>k\<in>set i. 1 \<le> k" "\<forall>k\<in>set o'. 1 \<le> k" "sum_list i = int (length o')" "sum_list o' = int n"
      "length i = length got"
      using assms unfolding g by (simp_all add: checkSpans_Some)
    then show ?thesis using sum_groups_ok [of i o'] by (simp add: composeSpans_def g Some checkSpans_Some)
  qed
qed

lemma chain_loop_ok:
  "chain_loop c out spans = Inr (out', spans') \<Longrightarrow> checkSpans n out spans \<Longrightarrow> checkSpans n out' spans'"
proof (induction c arbitrary: out spans)
  case (Cons s c)
  then obtain got g where g: "s out = Inr (got, g)" "checkSpans (length out) got g"
    "chain_loop c got (composeSpans spans g) = Inr (out', spans')"
    by (auto split: sum.splits if_splits)
  from Cons.IH [OF g(3) composeSpans_ok [OF Cons.prems(2) g(2)]] show ?case .
qed simp

text \<open>C25: a chain that succeeds accounts for every word it was given. However the stages merge
  words, and however wrong a stage's vector may be, the composed vector of a result has one
  entry per output word, every entry at least one, and they add up to the number of input words
  (no vector means one each); a stage whose vector does not add up makes the chain fail.\<close>

theorem chain_accounts_for_every_word:
  assumes "chain_Apply c ws = Inr (out, spans)"
  shows "(case spans of None \<Rightarrow> length out = length ws
      | Some sp \<Rightarrow> length sp = length out \<and> (\<forall>n\<in>set sp. 1 \<le> n) \<and> sum_list sp = int (length ws))
    \<and> (\<forall>s got g. s ws = Inr (got, g) \<and> \<not> checkSpans (length ws) got g \<longrightarrow>
         chain_Apply (s # c) ws = Inl (Domain CodeInternal []))"
proof -
  have "checkSpans (length ws) ws None" by (simp add: checkSpans_def)
  from chain_loop_ok [OF assms [unfolded chain_Apply_def] this] show ?thesis
    by (auto simp: checkSpans_Some chain_Apply_def split: option.split) (simp add: checkSpans_def)
qed

definition merge_two :: stage_fun where
  "merge_two ws = Inr (take 1 ws @ drop 2 ws, Some (2 # replicate (length ws - 2) 1))"

theorem chain_accounts_for_every_word_witness:
  "chain_Apply [merge_two, merge_two] [demo_word 0 1, demo_word 1 2, demo_word 2 3] = Inr ([demo_word 0 1], Some [3])
   \<and> sum_list [3] = int (length [demo_word 0 1, demo_word 1 2, demo_word 2 3])"
proof -
  have e: "chain_Apply [merge_two, merge_two] [demo_word 0 1, demo_word 1 2, demo_word 2 3] = Inr ([demo_word 0 1], Some [3])"
    by (simp add: chain_Apply_def merge_two_def checkSpans_def composeSpans_def numeral_2_eq_2 numeral_3_eq_3)
  from chain_accounts_for_every_word [OF e] e show ?thesis by simp
qed

subsection \<open>Ownership\<close>

definition owns :: "nat list \<Rightarrow> nat \<Rightarrow> nat \<Rightarrow> bool" where
  "owns layout k c \<longleftrightarrow> sum_list (take k layout) \<le> c \<and> c < sum_list (take (Suc k) layout)"

fun offsets :: "nat \<Rightarrow> int list \<Rightarrow> nat list" where
  "offsets c [] = []"
| "offsets c (n # ns) = c # offsets (c + nat n) ns"

definition at_pos :: "nat list \<Rightarrow> nat \<Rightarrow> nat \<times> nat \<Rightarrow> bool" where
  "at_pos layout c st \<longleftrightarrow> fst st < length layout \<and> sum_list (take (fst st) layout) + snd st = c
     \<and> snd st \<le> layout ! fst st"

lemma sum_take_Suc: "k < length layout \<Longrightarrow> sum_list (take (Suc k) layout) = sum_list (take k layout) + layout ! k"
  for layout :: "nat list"
  by (simp add: take_Suc_conv_app_nth)

lemma sum_take_mono: "i \<le> j \<Longrightarrow> sum_list (take i layout) \<le> sum_list (take j layout)" for layout :: "nat list"
proof -
  assume "i \<le> j"
  then have "take i layout = take i (take j layout)" by (simp add: min_absorb1)
  then show ?thesis by (metis append_take_drop_id le_add1 sum_list_append)
qed

lemma owns_unique: "owns layout k c \<Longrightarrow> owns layout k' c \<Longrightarrow> k = k'"
proof (rule ccontr)
  assume o: "owns layout k c" "owns layout k' c" and "k \<noteq> k'"
  then consider "Suc k \<le> k'" | "Suc k' \<le> k" by linarith
  then show False
    using o sum_take_mono [of "Suc k" k' layout] sum_take_mono [of "Suc k'" k layout]
    by cases (auto simp: owns_def)
qed

lemma advance_at:
  "at_pos layout c (seg, seen) \<Longrightarrow> at_pos layout c (advance layout seg seen) \<and> seg \<le> fst (advance layout seg seen)
    \<and> (c < sum_list layout \<longrightarrow> snd (advance layout seg seen) < layout ! fst (advance layout seg seen))"
proof (induction layout seg seen rule: advance.induct)
  case (1 layout seg seen)
  show ?case
  proof (cases "Suc seg < length layout \<and> seen \<ge> layout ! seg")
    case True
    then have "at_pos layout c (Suc seg, 0)" using "1.prems" sum_take_Suc [of seg layout]
      by (auto simp: at_pos_def)
    from "1.IH" [OF True this] True show ?thesis by (simp add: advance.simps [of layout seg])
  next
    case False
    then have a: "advance layout seg seen = (seg, seen)" by (subst advance.simps) (rule if_not_P)
    have "seen < layout ! seg" if "c < sum_list layout"
    proof (cases "Suc seg < length layout")
      case True
      with False show ?thesis by simp
    next
      case last: False
      then have "Suc seg = length layout" using "1.prems" by (simp add: at_pos_def)
      then have "sum_list layout = sum_list (take seg layout) + layout ! seg"
        using sum_take_Suc [of seg layout] by simp
      with that "1.prems" show ?thesis by (simp add: at_pos_def)
    qed
    with a "1.prems" show ?thesis by simp
  qed
qed

lemma consume_at:
  "at_pos layout c st \<Longrightarrow> (c < sum_list layout \<longrightarrow> snd st < layout ! fst st) \<Longrightarrow> c + n \<le> sum_list layout \<Longrightarrow>
    at_pos layout (c + n) (consume n layout st) \<and> fst st \<le> fst (consume n layout st)
    \<and> (c + n < sum_list layout \<longrightarrow> snd (consume n layout st) < layout ! fst (consume n layout st))"
proof (induction n layout st arbitrary: c rule: consume.induct)
  case (2 n layout st)
  have lt: "snd st < layout ! fst st" using "2.prems" by simp
  then have "at_pos layout (Suc c) (fst st, Suc (snd st))" using "2.prems"(1) by (auto simp: at_pos_def)
  note A = advance_at [OF this]
  have "Suc c + n \<le> sum_list layout" using "2.prems"(3) by simp
  from "2.IH" [OF A [THEN conjunct1] A [THEN conjunct2, THEN conjunct2] this] A show ?case by simp
qed simp

definition owned :: "nat list \<Rightarrow> nat \<Rightarrow> (core_word \<times> nat) list \<Rightarrow> core_word list" where
  "owned layout k items = map fst (filter (\<lambda>x. owns layout k (snd x)) items)"

lemma scatter_loop_owned:
  assumes "at_pos layout c st" "\<forall>n\<in>set (map snd items). 1 \<le> n"
    "int c + sum_list (map snd items) = int (sum_list layout)"
  shows "scatter_loop layout st b items k =
      b k @ owned layout k (zip (map fst items) (offsets c (map snd items)))"
  using assms
proof (induction items arbitrary: c st b)
  case Nil
  then show ?case by (simp add: owned_def)
next
  case (Cons x items)
  obtain w n where x: "x = (w, n)" by (cases x)
  have n: "1 \<le> n" "\<forall>m\<in>set (map snd items). 1 \<le> m" using Cons.prems(2) x by auto
  have nn: "0 \<le> sum_list (map snd items)" using n(2) by (intro sum_list_nonneg) auto
  have c: "c < sum_list layout" "c + nat n \<le> sum_list layout" using Cons.prems(3) n(1) nn x by auto
  let ?st1 = "advance layout (fst st) (snd st)"
  have "at_pos layout c (fst st, snd st)" using Cons.prems(1) by simp
  note A = advance_at [OF this]
  note C = consume_at [OF A [THEN conjunct1] A [THEN conjunct2, THEN conjunct2] c(2)]
  have o: "owns layout (fst ?st1) c"
    using A c(1) sum_take_Suc [of "fst ?st1" layout] by (auto simp: at_pos_def owns_def)
  then have ok: "owns layout k c \<longleftrightarrow> k = fst ?st1" using owns_unique by blast
  have "int (c + nat n) + sum_list (map snd items) = int (sum_list layout)"
    using Cons.prems(3) n(1) x by simp
  note IH = Cons.IH [OF C [THEN conjunct1] n(2) this]
  show ?case by (simp add: x Let_def IH owned_def ok)
qed

lemma concat_upd:
  assumes "s < n" "\<forall>k>s. b k = []"
  shows "concat (map (b(s := b s @ [w])) [0..<n]) = concat (map b [0..<n]) @ [w]"
proof -
  have split: "[0..<n] = [0..<s] @ s # [Suc s..<n]" using assms(1)
    upt_add_eq_append [of 0 s "n - s"] upt_conv_Cons [of s n] by simp
  have "concat (map b [Suc s..<n]) = []" "concat (map (b(s := b s @ [w])) [Suc s..<n]) = []"
    using assms(2) by auto
  moreover have "map (b(s := b s @ [w])) [0..<s] = map b [0..<s]" by simp
  ultimately show ?thesis unfolding split
    by (simp only: map_append list.map concat_append concat.simps append_assoc append_Nil2 fun_upd_same)
qed

lemma scatter_loop_all:
  assumes "at_pos layout c st" "\<forall>n\<in>set (map snd items). 1 \<le> n"
    "int c + sum_list (map snd items) = int (sum_list layout)" "\<forall>k>fst st. b k = []"
  shows "concat (map (scatter_loop layout st b items) [0..<length layout]) =
      concat (map b [0..<length layout]) @ map fst items"
  using assms
proof (induction items arbitrary: c st b)
  case (Cons x items)
  obtain w n where x: "x = (w, n)" by (cases x)
  have n: "1 \<le> n" "\<forall>m\<in>set (map snd items). 1 \<le> m" using Cons.prems(2) x by auto
  have nn: "0 \<le> sum_list (map snd items)" using n(2) by (intro sum_list_nonneg) auto
  have c: "c + nat n \<le> sum_list layout" using Cons.prems(3) n(1) nn x by auto
  let ?st1 = "advance layout (fst st) (snd st)"
  let ?b1 = "b(fst ?st1 := b (fst ?st1) @ [w])"
  have "at_pos layout c (fst st, snd st)" using Cons.prems(1) by simp
  note A = advance_at [OF this]
  note C = consume_at [OF A [THEN conjunct1] A [THEN conjunct2, THEN conjunct2] c]
  have e: "\<forall>k>fst ?st1. b k = []" using Cons.prems(4) A by auto
  have e1: "\<forall>k>fst (consume (nat n) layout ?st1). ?b1 k = []" using e C by auto
  have "int (c + nat n) + sum_list (map snd items) = int (sum_list layout)"
    using Cons.prems(3) n(1) x by simp
  note IH = Cons.IH [OF C [THEN conjunct1] n(2) this e1]
  have "fst ?st1 < length layout" using A by (simp add: at_pos_def)
  from concat_upd [OF this e, of w] show ?case by (simp add: x Let_def IH del: fun_upd_apply)
qed simp

lemma buckets_spec:
  assumes "checkSpans (sum_list layout) out spans" "layout \<noteq> []"
  shows "scatter_buckets layout out spans k = owned layout k (zip out (offsets 0 (spans_list out spans)))"
    and "concat (map (scatter_buckets layout out spans) [0..<length layout]) = out"
proof -
  let ?items = "zip out (spans_list out spans)"
  have len: "length (spans_list out spans) = length out"
    using assms(1) by (auto simp: spans_list_def checkSpans_def split: option.splits)
  then have m: "map fst ?items = out" "map snd ?items = spans_list out spans" by simp_all
  have p: "at_pos layout 0 (0, 0)" using assms(2) by (simp add: at_pos_def)
  have pos: "\<forall>n\<in>set (map snd ?items). 1 \<le> n" unfolding m
    using assms(1) by (auto simp: spans_list_def checkSpans_Some split: option.splits)
  have sm: "int 0 + sum_list (map snd ?items) = int (sum_list layout)" unfolding m
    using assms(1) by (auto simp: spans_list_def checkSpans_Some sum_list_replicate split: option.splits)
      (simp add: checkSpans_def)
  show "scatter_buckets layout out spans k = owned layout k (zip out (offsets 0 (spans_list out spans)))"
    using scatter_loop_owned [OF p pos sm, of "\<lambda>_. []" k] unfolding m by (simp add: scatter_buckets_def)
  show "concat (map (scatter_buckets layout out spans) [0..<length layout]) = out"
    using scatter_loop_all [OF p pos sm, of "\<lambda>_. []"] unfolding m
    by (simp add: scatter_buckets_def cong: map_cong)
qed

lemma enforceOrder_keeps:
  "map s_words (enforceOrder ss) = map s_words ss \<and> map s_text (enforceOrder ss) = map s_text ss
    \<and> map s_id (enforceOrder ss) = map s_id ss"
  by (induction ss rule: enforceOrder.induct) (auto simp: Let_def)

lemma enforceOrder_ordered:
  "successively (\<lambda>s t. s_end s \<le> s_start t) (enforceOrder ss)"
proof (induction ss rule: enforceOrder.induct)
  case (1 s t ss)
  let ?t1 = "if s_start t < s_end s then t\<lparr>s_start := s_end s\<rparr> else t"
  let ?t2 = "if s_end ?t1 < s_start ?t1 then ?t1\<lparr>s_end := s_start ?t1\<rparr> else ?t1"
  have IH: "successively (\<lambda>s t. s_end s \<le> s_start t) (enforceOrder (?t2 # ss))"
    by (rule "1.IH" [OF refl refl])
  have "s_end s \<le> s_start ?t2" by simp
  moreover obtain rest where "enforceOrder (?t2 # ss) = ?t2 # rest" by (cases ss) (auto simp: Let_def)
  ultimately show ?case using IH by (simp add: Let_def)
qed simp_all

lemma refilled:
  "map s_words (List.map_filter (\<lambda>(i, s). if b i = [] then None else Some (refill s (b i))) (List.enumerate n segs))
    = filter (\<lambda>ws. ws \<noteq> []) (map b [n..<n + length segs])"
proof (induction segs arbitrary: n)
  case (Cons s segs)
  have "[n..<n + length (s # segs)] = n # [Suc n..<Suc n + length segs]"
    by (simp add: upt_conv_Cons del: upt_Suc)
  then show ?case using Cons [of "Suc n"]
    by (simp add: List.map_filter_simps refill_def retime_def)
qed (simp add: List.map_filter_simps)

lemma refilled_text:
  "x \<in> set (List.map_filter (\<lambda>(i, s). if b i = [] then None else Some (refill s (b i))) xs) \<Longrightarrow>
    s_text x = words_text (s_words x)"
  by (auto simp: List.map_filter_def refill_def retime_def split: if_splits)

lemma map_pair_text:
  "map s_words xs = map s_words ys \<Longrightarrow> map s_text xs = map s_text ys \<Longrightarrow>
    (\<forall>y\<in>set ys. s_text y = words_text (s_words y)) \<Longrightarrow> \<forall>x\<in>set xs. s_text x = words_text (s_words x)"
proof (induction xs arbitrary: ys)
  case (Cons x xs)
  then show ?case by (cases ys) auto
qed simp

lemma renumber_texts: "map s_text (renumber ss) = map s_text ss"
  by (rule nth_equalityI) (simp_all add: renumber_def nth_enumerate_eq)

lemma renumber_ordered:
  "successively (\<lambda>s t. s_end s \<le> s_start t) ss \<Longrightarrow> successively (\<lambda>s t. s_end s \<le> s_start t) (renumber ss)"
  by (simp add: successively_conv_nth renumber_def nth_enumerate_eq)

lemma concat_nonempty: "concat (filter (\<lambda>xs. xs \<noteq> []) xss) = concat xss"
  by (induction xss) simp_all

definition words_owned :: "segment list \<Rightarrow> core_word list \<Rightarrow> int list option \<Rightarrow> nat \<Rightarrow> core_word list" where
  "words_owned segs out spans k =
     owned (map (length \<circ> s_words) segs) k (zip out (offsets 0 (spans_list out spans)))"

text \<open>C26: putting a processed transcript back into its segments loses and moves nothing. When
  the stages succeed, the words of the result are exactly what the chain returned, in order; every
  output word goes to the segment that owned the first of the input words it consumed, and a segment
  left with no word is dropped; each segment's text is its words', the segments are numbered from 0,
  and no segment starts before the one in front of it ends.\<close>

theorem apply_keeps_every_word:
  assumes "postproc_Apply c segs = Inr segs'" "c \<noteq> []" "result_words segs \<noteq> []"
  shows "\<exists>out spans. chain_Apply c (result_words segs) = Inr (out, spans)
    \<and> result_words segs' = out
    \<and> map s_words segs' = filter (\<lambda>ws. ws \<noteq> []) (map (words_owned segs out spans) [0..<length segs])
    \<and> (\<forall>s\<in>set segs'. s_text s = words_text (s_words s))
    \<and> map s_id segs' = map int [0..<length segs']
    \<and> successively (\<lambda>s t. s_end s \<le> s_start t) segs'"
proof -
  define layout where "layout = map (length \<circ> s_words) segs"
  have ne: "segs \<noteq> []" using assms(3) by (auto simp: result_words_def)
  have fl: "flatten segs = (result_words segs, layout)" by (simp add: flatten_def result_words_def layout_def)
  obtain out spans where ch: "chain_Apply c (result_words segs) = Inr (out, spans)"
    and sg: "segs' = scatter segs out spans layout"
    using assms ne by (auto simp: postproc_Apply_def fl split: sum.splits)
  define b where "b = scatter_buckets layout out spans"
  define raw where "raw = List.map_filter (\<lambda>(i, s). if b i = [] then None else Some (refill s (b i))) (List.enumerate 0 segs)"
  have sum: "sum_list layout = length (result_words segs)"
    by (simp add: layout_def result_words_def length_concat comp_def)
  have "checkSpans (length (result_words segs)) (result_words segs) None" by (simp add: checkSpans_def)
  from chain_loop_ok [OF ch [unfolded chain_Apply_def] this]
  have ck: "checkSpans (sum_list layout) out spans" unfolding sum .
  have lne: "layout \<noteq> []" using ne by (simp add: layout_def)
  have segs': "segs' = renumber (enforceOrder raw)" unfolding sg scatter_def b_def raw_def by (simp add: Let_def)
  have w: "map s_words segs' = filter (\<lambda>ws. ws \<noteq> []) (map b [0..<length segs])"
    unfolding segs' renumber_words raw_def
    using enforceOrder_keeps refilled [of b 0 segs] by simp
  moreover have "b k = words_owned segs out spans k" for k
    unfolding b_def words_owned_def layout_def [symmetric] by (rule buckets_spec(1) [OF ck lne])
  then have "b = words_owned segs out spans" ..
  moreover have "result_words segs' = out"
    using buckets_spec(2) [OF ck lne] unfolding result_words_def w concat_nonempty b_def
    by (simp add: layout_def)
  moreover have "\<forall>s\<in>set segs'. s_text s = words_text (s_words s)"
  proof (rule map_pair_text)
    show "map s_words segs' = map s_words raw" "map s_text segs' = map s_text raw"
      unfolding segs' renumber_words renumber_texts using enforceOrder_keeps by blast+
    show "\<forall>s\<in>set raw. s_text s = words_text (s_words s)" unfolding raw_def using refilled_text by blast
  qed
  moreover have "map s_id segs' = map int [0..<length segs']"
    unfolding segs' renumber_ids by (simp add: renumber_def)
  moreover have "successively (\<lambda>s t. s_end s \<le> s_start t) segs'"
    unfolding segs' by (rule renumber_ordered [OF enforceOrder_ordered])
  ultimately show ?thesis using ch by metis
qed

definition demo_segment :: "int \<Rightarrow> core_word list \<Rightarrow> segment" where
  "demo_segment i ws = \<lparr>s_id = i, s_start = 0, s_end = 1, s_text = [], s_channel = 0, s_speaker = None,
     s_avg_conf = 0, s_words = ws\<rparr>"

theorem apply_keeps_every_word_witness:
  "\<exists>segs'. postproc_Apply [merge_two] [demo_segment 0 [demo_word 0 1], demo_segment 1 [demo_word 1 2, demo_word 2 3]] = Inr segs'
    \<and> result_words segs' = [demo_word 0 1, demo_word 2 3]"
proof -
  let ?segs = "[demo_segment 0 [demo_word 0 1], demo_segment 1 [demo_word 1 2, demo_word 2 3]]"
  have f: "result_words ?segs = [demo_word 0 1, demo_word 1 2, demo_word 2 3]"
    by (simp add: result_words_def demo_segment_def)
  have c: "chain_Apply [merge_two] (result_words ?segs) = Inr ([demo_word 0 1, demo_word 2 3], Some [2, 1])"
    unfolding f by (simp add: chain_Apply_def merge_two_def checkSpans_def composeSpans_def numeral_2_eq_2)
  have fl: "flatten ?segs = (result_words ?segs, [1, 2])"
    unfolding f by (simp add: flatten_def demo_segment_def numeral_2_eq_2)
  obtain segs' where e: "postproc_Apply [merge_two] ?segs = Inr segs'"
    using c f fl by (simp add: postproc_Apply_def)
  have "result_words ?segs \<noteq> []" unfolding f by simp
  from apply_keeps_every_word [OF e _ this] c e show ?thesis by auto
qed

subsection \<open>Punctuation moves nothing\<close>

definition spoken :: "(rune \<Rightarrow> bool) \<Rightarrow> (rune \<Rightarrow> rune) \<Rightarrow> runes \<Rightarrow> runes" where
  "spoken alnum lower t = map lower (filter alnum t)"

definition same_word :: "(rune \<Rightarrow> bool) \<Rightarrow> (rune \<Rightarrow> rune) \<Rightarrow> core_word \<Rightarrow> core_word \<Rightarrow> bool" where
  "same_word alnum lower v w \<longleftrightarrow> w = v\<lparr>w_text := w_text w\<rparr> \<and> spoken alnum lower (w_text w) = spoken alnum lower (w_text v)"

lemma spoken_append [simp]: "spoken a l (xs @ ys) = spoken a l xs @ spoken a l ys"
  by (simp add: spoken_def)

lemma skip_marks_spoken:
  assumes "\<forall>c. alnum c \<longleftrightarrow> alnum (lower c)" "alnum want"
  shows "skip_marks alnum lower want b src = Some (b', src') \<Longrightarrow> spoken alnum lower b' = spoken alnum lower b @ [lower want]"
proof (induction src arbitrary: b)
  case (Cons c src)
  show ?case
  proof (cases "lower c = lower want")
    case True
    then have "alnum c" using assms by metis
    then show ?thesis using Cons.prems True by (auto simp: spoken_def)
  next
    case False
    show ?thesis
    proof (cases "is_space c")
      case True
      then show ?thesis using Cons False by simp
    next
      case sp: False
      then have "\<not> alnum c" using Cons.prems False by (auto split: if_splits)
      then show ?thesis using Cons.IH [of "b @ [c]"] Cons.prems False sp by (simp add: spoken_def)
    qed
  qed
qed simp

lemma match_letters_spoken:
  assumes "\<forall>c. alnum c \<longleftrightarrow> alnum (lower c)"
  shows "match_letters alnum lower ws b src = Some (b', src') \<Longrightarrow>
    spoken alnum lower b' = spoken alnum lower b @ spoken alnum lower ws"
proof (induction ws arbitrary: b src)
  case Nil
  then show ?case by (simp add: spoken_def)
next
  case (Cons want ws)
  show ?case
  proof (cases "alnum want")
    case True
    then obtain b1 src1 where m: "skip_marks alnum lower want b src = Some (b1, src1)"
      "match_letters alnum lower ws b1 src1 = Some (b', src')"
      using Cons.prems by (auto split: option.splits)
    show ?thesis using Cons.IH [OF m(2)] skip_marks_spoken [OF assms True m(1)] True by (simp add: spoken_def)
  next
    case False
    then show ?thesis using Cons by (simp add: spoken_def)
  qed
qed

lemma trailing_silent: "spoken alnum lower (takeWhile (trailing alnum) src) = []"
  by (auto simp: spoken_def trailing_def filter_empty_conv dest: set_takeWhileD)

lemma reattach_same:
  assumes "\<forall>c. alnum c \<longleftrightarrow> alnum (lower c)"
  shows "reattach alnum lower ws src = Some out \<Longrightarrow> list_all2 (same_word alnum lower) ws out"
proof (induction ws arbitrary: src out)
  case (Cons w ws)
  then obtain b src1 rest where m: "match_letters alnum lower (w_text w) [] src = Some (b, src1)"
    "reattach alnum lower ws (dropWhile (trailing alnum) src1) = Some rest"
    "out = w\<lparr>w_text := b @ takeWhile (trailing alnum) src1\<rparr> # rest"
    by (auto split: option.splits if_splits prod.splits)
  have "spoken alnum lower b = spoken alnum lower (w_text w)"
    using match_letters_spoken [OF assms m(1)] by (simp add: spoken_def)
  then show ?case using Cons.IH [OF m(2)] by (simp add: m(3) same_word_def trailing_silent)
qed simp

lemma same_word_refl: "list_all2 (same_word alnum lower) ws ws"
  by (rule list.rel_refl) (simp add: same_word_def)

lemma punct_loop_same:
  assumes "\<forall>c. alnum c \<longleftrightarrow> alnum (lower c)"
  shows "case punct_loop alnum lower model ws start of
      Inl e \<Rightarrow> \<exists>t. model t = Inl e
    | Inr out \<Rightarrow> list_all2 (same_word alnum lower) (drop start ws) out"
proof (induction "length ws - start" arbitrary: start rule: less_induct)
  case less
  show ?case
  proof (cases "start \<ge> length ws")
    case True
    then show ?thesis by (simp add: punct_loop.simps [of alnum lower model ws start])
  next
    case False
    define en where "en = min (start + chunkWords) (length ws)"
    define ctx where "ctx = start - chunk_overlap"
    define chunk where "chunk = take (en - ctx) (drop ctx ws)"
    have bounds: "start < en" "en \<le> length ws" "ctx \<le> start" using False by (auto simp: en_def ctx_def chunkWords_def)
    have unf: "punct_loop alnum lower model ws start =
        (case model (words_text chunk) of Inl e \<Rightarrow> Inl e
         | Inr ans \<Rightarrow> (case punct_loop alnum lower model ws en of Inl e \<Rightarrow> Inl e
           | Inr rest \<Rightarrow> Inr (drop (start - ctx) (case reattach alnum lower chunk ans of None \<Rightarrow> chunk | Some g \<Rightarrow> g) @ rest)))"
      using False unfolding en_def ctx_def chunk_def
      by (simp only: punct_loop.simps [of alnum lower model ws start] Let_def if_False)
    show ?thesis
    proof (cases "model (words_text chunk)")
      case (Inl e)
      then show ?thesis unfolding unf by auto
    next
      case (Inr ans)
      define got where "got = (case reattach alnum lower chunk ans of None \<Rightarrow> chunk | Some g \<Rightarrow> g)"
      have "list_all2 (same_word alnum lower) chunk got"
        using reattach_same [where ws = chunk and src = ans, OF assms] same_word_refl [of alnum lower chunk] by (auto simp: got_def split: option.split)
      then have "list_all2 (same_word alnum lower) (drop (start - ctx) chunk) (drop (start - ctx) got)"
        by (rule list_all2_dropI)
      moreover have "drop (start - ctx) chunk = take (en - start) (drop start ws)"
        using bounds by (simp add: chunk_def drop_take)
      moreover have "drop start ws = take (en - start) (drop start ws) @ drop en ws"
        using bounds append_take_drop_id [of "en - start" "drop start ws"] by simp
      ultimately have pre: "list_all2 (same_word alnum lower) (take (en - start) (drop start ws)) (drop (start - ctx) got)"
        and sp: "drop start ws = take (en - start) (drop start ws) @ drop en ws" by simp_all
      have "length ws - en < length ws - start" using bounds by simp
      note rest = less [OF this]
      show ?thesis
      proof (cases "punct_loop alnum lower model ws en")
        case (Inl e)
        then show ?thesis using rest by (simp add: unf Inr)
      next
        case r: (Inr out)
        have "list_all2 (same_word alnum lower) (drop start ws) (drop (start - ctx) got @ out)"
          by (subst sp) (use list_all2_appendI [OF pre] rest r in auto)
        then show ?thesis unfolding unf Inr by (simp add: r got_def)
      qed
    qed
  qed
qed

text \<open>C27: punctuation rewrites text and nothing else. If lower-casing keeps a character's being a
  letter or digit, then for every answer of the model - however it paraphrases, drops or invents
  words - the stage returns one word per word given, with the times, channel, speaker and
  confidence it had, and with the same letters and digits up to case; it fails only when the model
  call failed.\<close>

theorem punctuation_moves_nothing:
  assumes "\<forall>c. alnum c \<longleftrightarrow> alnum (lower c)"
  shows "(\<exists>out. punctuate alnum lower model ws = Inr (out, None)
            \<and> list_all2 (\<lambda>v w. w = v\<lparr>w_text := w_text w\<rparr>
                  \<and> map lower (filter alnum (w_text w)) = map lower (filter alnum (w_text v))) ws out)
    \<or> (\<exists>e t. punctuate alnum lower model ws = Inl e \<and> model t = Inl e)"
  using punct_loop_same [where start = 0 and model = model and ws = ws, OF assms]
  by (auto simp: punctuate_def same_word_def [abs_def] spoken_def split: sum.splits)

definition demo_lower :: "rune \<Rightarrow> rune" where
  "demo_lower c = (if 65 \<le> c \<and> c \<le> 90 then c + 32 else c)"

definition demo_alnum :: "rune \<Rightarrow> bool" where
  "demo_alnum c = (65 \<le> c \<and> c \<le> 90 \<or> 97 \<le> c \<and> c \<le> 122)"

theorem punctuation_moves_nothing_witness:
  "\<exists>out. punctuate demo_alnum demo_lower (\<lambda>t. Inr [88, 46]) [demo_word 0 1] = Inr (out, None)
    \<and> map demo_lower (filter demo_alnum (w_text (hd out))) = [120]"
proof -
  have lower: "\<forall>c. demo_alnum c \<longleftrightarrow> demo_alnum (demo_lower c)"
    by (auto simp: demo_alnum_def demo_lower_def)
  have "map demo_lower (filter demo_alnum (w_text (demo_word 0 1))) = [120]"
    by (simp add: demo_word_def lit_def demo_alnum_def demo_lower_def)
  with punctuation_moves_nothing [OF lower, of "\<lambda>t. Inr [88, 46]" "[demo_word 0 1]"] show ?thesis
    by (auto simp: list_all2_Cons1)
qed

end
