(* ===== verification/ITN.thy ===== *)
theory ITN
  imports Postproc
begin

section \<open>Inverse text normalisation (internal/postproc/itn)\<close>

text \<open>
  The rewriting engine for an arbitrary rule set, and the Russian rules: numerals, money,
  percentages, clock times, dates and dictated phone numbers. The word tables are the source's,
  spelled with one Latin letter per Cyrillic one (\<open>cyr\<close>). Go's \<open>strings.ToLower\<close> is a parameter.
  Values are \<open>int\<close>; \<open>parse_bounded\<close> shows that the int64 of the code cannot wrap on an input of
  fewer than ten million words.
\<close>

record itn_token =
  tk_text :: runes
  tk_lower :: runes
  tk_start :: real
  tk_end :: real

type_synonym itn_rules = "itn_token list \<Rightarrow> (runes \<times> int) option"

definition MaxGap :: real where "MaxGap = 35 / 100"

definition itn_joins :: "itn_token \<Rightarrow> itn_token \<Rightarrow> bool" where
  "itn_joins prev next \<longleftrightarrow> tk_start next - tk_end prev \<le> MaxGap"

subsection \<open>The engine (engine.go)\<close>

definition originalOf :: "core_word list \<Rightarrow> runes" where
  "originalOf ws = join [32] (map (\<lambda>w. if w_original w \<noteq> [] then w_original w else w_text w) ws)"

fun minConfidence :: "core_word list \<Rightarrow> real" where
  "minConfidence [] = 0"
| "minConfidence (w # ws) = foldl (\<lambda>out v. if w_confidence v < out then w_confidence v else out) (w_confidence w) ws"

definition token_of :: "(runes \<Rightarrow> runes) \<Rightarrow> core_word \<Rightarrow> itn_token" where
  "token_of lower w = \<lparr>tk_text = w_text w, tk_lower = lower (w_text w), tk_start = w_start w, tk_end = w_end w\<rparr>"

definition rewritten :: "core_word list \<Rightarrow> runes \<Rightarrow> core_word" where
  "rewritten g str =
     (let orig = originalOf g in
      \<lparr>w_text = str, w_start = w_start (hd g), w_end = w_end (last g), w_confidence = minConfidence g,
       w_original = (if str = orig then [] else orig), w_speaker = w_speaker (hd g),
       w_speaker_conf = w_speaker_conf (hd g), w_channel = w_channel (hd g)\<rparr>)"

text \<open>The loop from one position on: the words, the spans, and whether any word was rewritten.\<close>

function rewrite_loop ::
  "(runes \<Rightarrow> runes) \<Rightarrow> itn_rules \<Rightarrow> core_word list \<Rightarrow> core_word list \<times> int list \<times> bool" where
  "rewrite_loop lower rules ws =
     (case ws of [] \<Rightarrow> ([], [], False)
      | w # rest \<Rightarrow>
        let keep = (case rewrite_loop lower rules rest of (out, spans, rw) \<Rightarrow> (w # out, 1 # spans, rw)) in
        (case rules (map (token_of lower) ws) of
           None \<Rightarrow> keep
         | Some (str, n) \<Rightarrow>
             if n < 1 \<or> n > int (length ws) then keep
             else
               let g = take (nat n) ws; v = rewritten g str in
               (case rewrite_loop lower rules (drop (nat n) ws) of
                  (out, spans, rw) \<Rightarrow> (v # out, n # spans, str \<noteq> originalOf g \<or> rw))))"
  by auto
termination
  by (relation "measure (\<lambda>(lower, rules, ws). length ws)") auto

declare rewrite_loop.simps [simp del]

definition Rewrite ::
  "(runes \<Rightarrow> runes) \<Rightarrow> itn_rules option \<Rightarrow> core_word list \<Rightarrow> core_word list \<times> int list option" where
  "Rewrite lower rules ws =
     (case rules of None \<Rightarrow> (ws, None)
      | Some r \<Rightarrow>
        if ws = [] then (ws, None)
        else (case rewrite_loop lower r ws of (out, spans, rw) \<Rightarrow> if rw then (out, Some spans) else (ws, None)))"

definition ITN_Apply :: "(runes \<Rightarrow> runes) \<Rightarrow> itn_rules \<Rightarrow> stage_fun" where
  "ITN_Apply lower rules ws = Inr (Rewrite lower (Some rules) ws)"

text \<open>The registry: the locale asked for, else its base language.\<close>

definition itn_Get :: "(runes \<Rightarrow> runes) \<Rightarrow> (runes \<rightharpoonup> 'r) \<Rightarrow> runes \<Rightarrow> 'r option" where
  "itn_Get lower registry locale =
     (let key = lower (trim_space locale) in
      case registry key of
        Some r \<Rightarrow> Some r
      | None \<Rightarrow> if 45 \<in> set key then registry (takeWhile (\<lambda>c. c \<noteq> 45) key) else None)"

subsection \<open>Russian number words (ru_numbers.go)\<close>

definition cyr_letter :: "char \<Rightarrow> rune" where
  "cyr_letter c =
     (case map_of (zip ''abvgdejziJklmnoprstufxchwWQyqAUY'' [1072..<1104]) c of
        Some r \<Rightarrow> r | None \<Rightarrow> if c = CHR ''E'' then 1105 else of_char c)"

definition cyr :: "string \<Rightarrow> runes" where
  "cyr = map cyr_letter"

definition cyr_keys :: "(string \<times> 'v) list \<Rightarrow> (runes \<times> 'v) list" where
  "cyr_keys = map (\<lambda>(k, v). (cyr k, v))"

definition ruUnits :: "(runes \<times> int) list" where
  "ruUnits = cyr_keys [
   (''nolq'', 0), (''nulq'', 0), (''odin'', 1), (''odna'', 1), (''odno'', 1), (''odnogo'', 1),
   (''odnoJ'', 1), (''odnim'', 1), (''dva'', 2), (''dve'', 2), (''dvux'', 2), (''dvum'', 2), (''dvumY'', 2),
   (''tri'', 3), (''trEx'', 3), (''trex'', 3), (''trEm'', 3), (''trem'', 3), (''tremY'', 3),
   (''hetyre'', 4), (''hetyrEx'', 4), (''hetyrex'', 4), (''hetyrEm'', 4), (''hetyrem'', 4),
   (''hetyrqmY'', 4), (''pYtq'', 5), (''pYti'', 5), (''pYtqU'', 5), (''westq'', 6), (''westi'', 6),
   (''westqU'', 6), (''semq'', 7), (''semi'', 7), (''semqU'', 7), (''vosemq'', 8), (''vosqmi'', 8),
   (''vosemqU'', 8), (''vosqmqU'', 8), (''devYtq'', 9), (''devYti'', 9), (''devYtqU'', 9), (''desYtq'', 10),
   (''desYti'', 10), (''desYtqU'', 10), (''odinnadcatq'', 11), (''odinnadcati'', 11), (''dvenadcatq'', 12),
   (''dvenadcati'', 12), (''trinadcatq'', 13), (''trinadcati'', 13), (''hetyrnadcatq'', 14),
   (''hetyrnadcati'', 14), (''pYtnadcatq'', 15), (''pYtnadcati'', 15), (''westnadcatq'', 16),
   (''westnadcati'', 16), (''semnadcatq'', 17), (''semnadcati'', 17), (''vosemnadcatq'', 18),
   (''vosemnadcati'', 18), (''devYtnadcatq'', 19), (''devYtnadcati'', 19)]"

definition ruTens :: "(runes \<times> int) list" where
  "ruTens = cyr_keys [
   (''dvadcatq'', 20), (''dvadcati'', 20), (''tridcatq'', 30), (''tridcati'', 30), (''sorok'', 40),
   (''soroka'', 40), (''pYtqdesYt'', 50), (''pYtidesYti'', 50), (''westqdesYt'', 60), (''westidesYti'', 60),
   (''semqdesYt'', 70), (''semidesYti'', 70), (''vosemqdesYt'', 80), (''vosqmidesYti'', 80),
   (''devYnosto'', 90), (''devYnosta'', 90)]"

definition ruHundreds :: "(runes \<times> int) list" where
  "ruHundreds = cyr_keys [
   (''sto'', 100), (''sta'', 100), (''dvesti'', 200), (''dvuxsot'', 200), (''dvumstam'', 200),
   (''trista'', 300), (''trExsot'', 300), (''trexsot'', 300), (''hetyresta'', 400), (''hetyrExsot'', 400),
   (''hetyrexsot'', 400), (''pYtqsot'', 500), (''pYtisot'', 500), (''westqsot'', 600), (''westisot'', 600),
   (''semqsot'', 700), (''semisot'', 700), (''vosemqsot'', 800), (''vosqmisot'', 800), (''devYtqsot'', 900),
   (''devYtisot'', 900)]"

definition ruScales :: "(runes \<times> int) list" where
  "ruScales = cyr_keys [
   (''tysYha'', 1000), (''tysYhi'', 1000), (''tysYh'', 1000), (''tysYhu'', 1000), (''tysYheJ'', 1000),
   (''million'', 1000000), (''milliona'', 1000000), (''millionov'', 1000000), (''milliard'', 1000000000),
   (''milliarda'', 1000000000), (''milliardov'', 1000000000)]"

text \<open>Reading a missing key of a Go map gives zero.\<close>

definition tab :: "(runes \<times> int) list \<Rightarrow> runes \<Rightarrow> int" where
  "tab t w = (case map_of t w of Some n \<Rightarrow> n | None \<Rightarrow> 0)"

definition has :: "(runes \<times> 'v) list \<Rightarrow> runes \<Rightarrow> bool" where
  "has t w = (map_of t w \<noteq> None)"

text \<open>The marks \<open>.,!?;:\<close> at the end of a word.\<close>

definition is_mark :: "rune \<Rightarrow> bool" where
  "is_mark c \<longleftrightarrow> c \<in> {46, 44, 33, 63, 59, 58}"

definition trimPunct :: "runes \<Rightarrow> runes \<times> runes" where
  "trimPunct s = (rev (dropWhile is_mark (rev s)), rev (takeWhile is_mark (rev s)))"

definition closeNumber :: "int \<Rightarrow> int \<Rightarrow> nat \<Rightarrow> bool \<Rightarrow> (int \<times> nat) option" where
  "closeNumber tot grp consumed sawAny =
     (if \<not> sawAny \<or> consumed = 0 then None else Some (tot + grp, consumed))"

text \<open>One turn of the loop per token: \<open>prev\<close> is the token before, \<open>i\<close> the index.\<close>

fun parse_loop ::
  "itn_token option \<Rightarrow> itn_token list \<Rightarrow> nat \<Rightarrow> int \<Rightarrow> int \<Rightarrow> nat \<Rightarrow> bool \<Rightarrow> bool \<Rightarrow> (int \<times> nat) option" where
  "parse_loop prev [] i tot grp consumed sawAny sawGroup = closeNumber tot grp consumed sawAny"
| "parse_loop prev (t # ts) i tot grp consumed sawAny sawGroup =
     (if (case prev of None \<Rightarrow> False | Some p \<Rightarrow> \<not> itn_joins p t) then closeNumber tot grp consumed sawAny
      else case trimPunct (tk_lower t) of (w, mark) \<Rightarrow>
        let more = (\<lambda>grp'. if mark \<noteq> [] then closeNumber tot grp' (Suc i) True
                      else parse_loop (Some t) ts (Suc i) tot grp' (Suc i) True True) in
        if tab ruHundreds w \<noteq> 0 then more (grp + tab ruHundreds w)
        else if tab ruTens w \<noteq> 0 then more (grp + tab ruTens w)
        else if has ruUnits w then
          (if sawGroup \<and> grp mod 10 \<noteq> 0 then None else more (grp + tab ruUnits w))
        else if tab ruScales w \<noteq> 0 then
          (let tot' = tot + (if grp = 0 then 1 else grp) * tab ruScales w in
           if mark \<noteq> [] then closeNumber tot' 0 (Suc i) True
           else parse_loop (Some t) ts (Suc i) tot' 0 (Suc i) True False)
        else closeNumber tot grp consumed sawAny)"

definition parseNumber :: "itn_token list \<Rightarrow> (int \<times> nat) option" where
  "parseNumber ts = parse_loop None ts 0 0 0 0 False False"

subsection \<open>The rules (ru.go)\<close>

definition word_of :: "itn_token \<Rightarrow> runes" where "word_of t = fst (trimPunct (tk_lower t))"
definition tail_of :: "runes \<Rightarrow> runes" where "tail_of s = snd (trimPunct s)"
definition decimal :: "int \<Rightarrow> runes" where "decimal n = lit (FormatInt n)"

definition matchPlainNumber :: itn_rules where
  "matchPlainNumber ts =
     (case parseNumber ts of None \<Rightarrow> None
      | Some (v, n) \<Rightarrow>
          if n = 1 \<and> v < 10 then None
          else Some (decimal v @ tail_of (tk_text (ts ! (n - 1))), int n))"

definition ruCurrency :: "(runes \<times> runes) list" where
  "ruCurrency = cyr_keys [
   (''rublq'', cyr ''rub'' @ [46]), (''rublY'', cyr ''rub'' @ [46]), (''rubleJ'', cyr ''rub'' @ [46]),
   (''rublU'', cyr ''rub'' @ [46]), (''rublYmi'', cyr ''rub'' @ [46]), (''kopeJka'', cyr ''kop'' @ [46]),
   (''kopeJki'', cyr ''kop'' @ [46]), (''kopeek'', cyr ''kop'' @ [46]), (''dollar'', [36]),
   (''dollara'', [36]), (''dollarov'', [36]), (''evro'', [8364]), (''tenge'', [8376])]"

text \<open>What the money, percent and date rules share: a next token after \<open>used\<close>, close enough.\<close>

definition next_joined :: "itn_token list \<Rightarrow> nat \<Rightarrow> itn_token option" where
  "next_joined ts used =
     (if used \<ge> length ts then None
      else if \<not> itn_joins (ts ! (used - 1)) (ts ! used) then None else Some (ts ! used))"

definition matchMoney :: itn_rules where
  "matchMoney ts =
     (case parseNumber ts of None \<Rightarrow> None
      | Some (v, n) \<Rightarrow> (case next_joined ts n of None \<Rightarrow> None
        | Some t \<Rightarrow> (case map_of ruCurrency (word_of t) of None \<Rightarrow> None
          | Some unit \<Rightarrow>
              Some ((if unit \<in> {[36], [8364], [8376]} then unit @ decimal v else decimal v @ [32] @ unit)
                      @ tail_of (tk_lower t), int n + 1))))"

definition ruPercent :: "runes list" where
  "ruPercent = map cyr [
   ''procent'', ''procenta'', ''procentov'', ''procentax'']"

definition matchPercent :: itn_rules where
  "matchPercent ts =
     (case parseNumber ts of None \<Rightarrow> None
      | Some (v, n) \<Rightarrow> (case next_joined ts n of None \<Rightarrow> None
        | Some t \<Rightarrow>
            if word_of t \<notin> set ruPercent then None
            else Some (decimal v @ [37] @ tail_of (tk_lower t), int n + 1)))"

definition ruMonths :: "(runes \<times> int) list" where
  "ruMonths = cyr_keys [
   (''YnvarY'', 1), (''fevralY'', 2), (''marta'', 3), (''aprelY'', 4), (''maY'', 5), (''iUnY'', 6),
   (''iUlY'', 7), (''avgusta'', 8), (''sentYbrY'', 9), (''oktYbrY'', 10), (''noYbrY'', 11),
   (''dekabrY'', 12)]"

definition ruDayOrdinals :: "(runes \<times> int) list" where
  "ruDayOrdinals = cyr_keys [
   (''pervoe'', 1), (''pervogo'', 1), (''vtoroe'', 2), (''vtorogo'', 2), (''tretqe'', 3), (''tretqego'', 3),
   (''hetvErtoe'', 4), (''hetvertoe'', 4), (''hetvErtogo'', 4), (''hetvertogo'', 4), (''pYtoe'', 5),
   (''pYtogo'', 5), (''westoe'', 6), (''westogo'', 6), (''sedqmoe'', 7), (''sedqmogo'', 7),
   (''vosqmoe'', 8), (''vosqmogo'', 8), (''devYtoe'', 9), (''devYtogo'', 9), (''desYtoe'', 10),
   (''desYtogo'', 10), (''odinnadcatoe'', 11), (''odinnadcatogo'', 11), (''dvenadcatoe'', 12),
   (''dvenadcatogo'', 12), (''trinadcatoe'', 13), (''trinadcatogo'', 13), (''hetyrnadcatoe'', 14),
   (''hetyrnadcatogo'', 14), (''pYtnadcatoe'', 15), (''pYtnadcatogo'', 15), (''westnadcatoe'', 16),
   (''westnadcatogo'', 16), (''semnadcatoe'', 17), (''semnadcatogo'', 17), (''vosemnadcatoe'', 18),
   (''vosemnadcatogo'', 18), (''devYtnadcatoe'', 19), (''devYtnadcatogo'', 19), (''dvadcatoe'', 20),
   (''dvadcatogo'', 20), (''tridcatoe'', 30), (''tridcatogo'', 30), (''dvadcatq'', 20), (''tridcatq'', 30)]"

definition ruCompoundDay :: "(runes \<times> int) list" where
  "ruCompoundDay = cyr_keys [
   (''pervogo'', 1), (''vtorogo'', 2), (''tretqego'', 3), (''hetvErtogo'', 4), (''hetvertogo'', 4),
   (''pYtogo'', 5), (''westogo'', 6), (''sedqmogo'', 7), (''vosqmogo'', 8), (''devYtogo'', 9),
   (''pervoe'', 1), (''vtoroe'', 2), (''tretqe'', 3), (''hetvErtoe'', 4), (''hetvertoe'', 4),
   (''pYtoe'', 5), (''westoe'', 6), (''sedqmoe'', 7), (''vosqmoe'', 8), (''devYtoe'', 9)]"

definition day_tens :: "(runes \<times> int) list" where
  "day_tens = cyr_keys [(''dvadcatq'', 20), (''tridcatq'', 30)]"

definition parseDay :: "itn_token list \<Rightarrow> (int \<times> nat) option" where
  "parseDay ts =
     (let first = word_of (ts ! 0);
          simple = (if has ruDayOrdinals first then
                      (if first = cyr ''dvadcatq'' \<or> first = cyr ''tridcatq'' then None
                       else Some (tab ruDayOrdinals first, 1)) else None)
      in if has day_tens first \<and> length ts > 1 \<and> itn_joins (ts ! 0) (ts ! 1) then
           (let second = word_of (ts ! 1) in
            if has ruCompoundDay second then Some (tab day_tens first + tab ruCompoundDay second, 2) else simple)
         else simple)"

definition matchDate :: itn_rules where
  "matchDate ts =
     (case parseDay ts of None \<Rightarrow> None
      | Some (day, used) \<Rightarrow> (case next_joined ts used of None \<Rightarrow> None
        | Some t \<Rightarrow>
            if \<not> has ruMonths (word_of t) then None
            else Some (decimal day @ [32] @ fst (trimPunct (tk_text t)) @ tail_of (tk_lower t), int used + 1)))"

definition ruHourWords :: "runes list" where
  "ruHourWords = map cyr [
   ''has'', ''hasa'', ''hasov'']"

definition ruMinuteWords :: "runes list" where
  "ruMinuteWords = map cyr [
   ''minuta'', ''minuty'', ''minut'']"

definition pad2 :: "int \<Rightarrow> runes" where
  "pad2 n = (if length (decimal n) < 2 then 48 # decimal n else decimal n)"

definition matchTime :: itn_rules where
  "matchTime ts =
     (case parseNumber ts of None \<Rightarrow> None
      | Some (h, n) \<Rightarrow>
        if h > 23 then None
        else (case next_joined ts n of None \<Rightarrow> None
          | Some t \<Rightarrow>
            if word_of t \<notin> set ruHourWords then None
            else (case next_joined ts (n + 1) of None \<Rightarrow> None
              | Some t1 \<Rightarrow>
                (case parseNumber (drop (n + 1) ts) of None \<Rightarrow> None
                 | Some (m, k) \<Rightarrow>
                   if m > 59 then None
                   else (case next_joined ts (n + 1 + k) of None \<Rightarrow> None
                     | Some t2 \<Rightarrow>
                       if word_of t2 \<notin> set ruMinuteWords then None
                       else Some (decimal h @ [58] @ pad2 m @ tail_of (tk_lower t2), int (n + 1 + k) + 1))))))"

text \<open>The dictated digits from index \<open>i\<close> on: where the run stops and what it spells.\<close>

fun phone_loop :: "itn_token option \<Rightarrow> itn_token list \<Rightarrow> nat \<Rightarrow> runes \<Rightarrow> nat \<times> runes" where
  "phone_loop prev [] i digits = (i, digits)"
| "phone_loop prev (t # ts) i digits =
     (if (case prev of None \<Rightarrow> False | Some p \<Rightarrow> \<not> itn_joins p t) then (i, digits)
      else if \<not> has ruUnits (word_of t) \<or> tab ruUnits (word_of t) > 9 then (i, digits)
      else phone_loop (Some t) ts (Suc i) (digits @ decimal (tab ruUnits (word_of t))))"

definition matchPhone :: itn_rules where
  "matchPhone ts =
     (let plus = (word_of (ts ! 0) = cyr ''plUs'');
          st = (if plus then phone_loop (Some (ts ! 0)) (drop 1 ts) 1 [] else phone_loop None ts 0 []);
          i = fst st; digits = snd st
      in if length digits < 10 then None
         else Some ((if plus then 43 # digits else digits) @ tail_of (tk_text (ts ! (i - 1))), int i))"

definition first_match :: "itn_rules list \<Rightarrow> itn_rules" where
  "first_match rules ts = fold (\<lambda>r m. case m of None \<Rightarrow> r ts | Some x \<Rightarrow> Some x) rules None"

definition ruMatch :: itn_rules where
  "ruMatch ts =
     (if ts = [] then None
      else first_match [matchPhone, matchTime, matchDate, matchMoney, matchPercent, matchPlainNumber] ts)"

subsection \<open>What a rule consumes\<close>

lemma next_joined_Some:
  "next_joined ts k = Some t \<longleftrightarrow> k < length ts \<and> itn_joins (ts ! (k - 1)) (ts ! k) \<and> t = ts ! k"
  by (auto simp: next_joined_def)

lemma parse_loop_joined:
  "parse_loop (if pre = [] then None else Some (last pre)) ts (length pre) tot grp (length pre) a g = Some (v, n) \<Longrightarrow>
    successively itn_joins pre \<Longrightarrow>
    1 \<le> n \<and> n \<le> length (pre @ ts) \<and> successively itn_joins (take n (pre @ ts))"
proof (induction ts arbitrary: pre tot grp a g)
  case Nil
  then show ?case by (auto simp: closeNumber_def Suc_le_eq split: if_splits)
next
  case (Cons t ts)
  let ?prev = "if pre = [] then None else Some (last pre)"
  define Q where "Q \<longleftrightarrow> 1 \<le> n \<and> n \<le> length (pre @ t # ts) \<and> successively itn_joins (take n (pre @ t # ts))"
  have stop: Q if "closeNumber tot grp (length pre) a = Some (v, n)"
    using that Cons.prems(2) by (auto simp: Q_def closeNumber_def Suc_le_eq split: if_splits)
  have Q
  proof (cases "case ?prev of None \<Rightarrow> False | Some p \<Rightarrow> \<not> itn_joins p t")
    case True
    then show ?thesis using Cons.prems(1) stop by simp
  next
    case False
    then have pre1: "successively itn_joins (pre @ [t])"
      using Cons.prems(2) by (auto simp: successively_append_iff split: if_splits)
    have take1: "take (Suc (length pre)) (pre @ t # ts) = pre @ [t]" by simp
    have close: ?thesis if "closeNumber tot' grp' (Suc (length pre)) True = Some (v, n)" for tot' grp'
      using that pre1 take1 by (auto simp: Q_def closeNumber_def)
    have more: ?thesis
      if "parse_loop (Some t) ts (Suc (length pre)) tot' grp' (Suc (length pre)) True g' = Some (v, n)" for tot' grp' g'
      using Cons.IH [of "pre @ [t]" tot' grp' True g'] that pre1 by (simp add: Q_def)
    obtain w mark where w: "trimPunct (tk_lower t) = (w, mark)" by (cases "trimPunct (tk_lower t)")
    show ?thesis using Cons.prems(1) False
      by (auto simp: w Let_def split: if_splits intro: stop close more)
  qed
  then show ?case by (simp add: Q_def)
qed

lemma parseNumber_joined:
  assumes "parseNumber ts = Some (v, n)"
  shows "1 \<le> n \<and> n \<le> length ts \<and> successively itn_joins (take n ts)"
  using parse_loop_joined [of "[]" ts 0 0 False False v n] assms by (simp add: parseNumber_def)

lemma last_take: "1 \<le> n \<Longrightarrow> n \<le> length ts \<Longrightarrow> last (take n ts) = ts ! (n - 1)"
  by (subst last_conv_nth) (auto simp: min_absorb2)

lemma joined_Suc:
  assumes "successively itn_joins (take n ts)" "next_joined ts n = Some t" "1 \<le> n"
  shows "successively itn_joins (take (Suc n) ts)"
proof -
  have "n < length ts" "itn_joins (ts ! (n - 1)) (ts ! n)" using assms(2) by (auto simp: next_joined_Some)
  then show ?thesis using assms(1,3)
    by (simp add: take_Suc_conv_app_nth successively_append_iff last_take)
qed

lemma joined_append:
  assumes "successively itn_joins (take n ts)" "next_joined ts n = Some t" "1 \<le> n"
    "successively itn_joins (take k (drop n ts))" "1 \<le> k"
  shows "successively itn_joins (take (n + k) ts)"
proof -
  have "n < length ts" "itn_joins (ts ! (n - 1)) (ts ! n)" using assms(2) by (auto simp: next_joined_Some)
  then show ?thesis using assms(1,3,4,5)
    by (simp add: take_add successively_append_iff last_take hd_drop_conv_nth hd_conv_nth)
qed

definition rule_ok :: "itn_rules \<Rightarrow> bool" where
  "rule_ok r \<longleftrightarrow> (\<forall>ts str n. ts \<noteq> [] \<longrightarrow> r ts = Some (str, n) \<longrightarrow>
     1 \<le> n \<and> n \<le> int (length ts) \<and> successively itn_joins (take (nat n) ts))"

lemma rule_okI:
  assumes "\<And>ts str n. ts \<noteq> [] \<Longrightarrow> r ts = Some (str, n) \<Longrightarrow>
     \<exists>k. n = int k \<and> 1 \<le> k \<and> k \<le> length ts \<and> successively itn_joins (take k ts)"
  shows "rule_ok r"
  unfolding rule_ok_def
proof (intro allI impI)
  fix ts str n assume "ts \<noteq> []" "r ts = Some (str, n)"
  from assms [OF this] show "1 \<le> n \<and> n \<le> int (length ts) \<and> successively itn_joins (take (nat n) ts)" by auto
qed

lemma number_then_word_ok:
  assumes "parseNumber ts = Some (v, n)" "next_joined ts n = Some t"
  shows "1 \<le> Suc n \<and> Suc n \<le> length ts \<and> successively itn_joins (take (Suc n) ts)"
  using parseNumber_joined [OF assms(1)] joined_Suc [OF _ assms(2)] assms(2) by (auto simp: next_joined_Some)

lemma plain_ok: "rule_ok matchPlainNumber"
proof (rule rule_okI)
  fix ts str n assume "matchPlainNumber ts = Some (str, n)"
  then obtain v k where "parseNumber ts = Some (v, k)" "n = int k"
    by (auto simp: matchPlainNumber_def split: option.splits if_splits)
  then show "\<exists>k. n = int k \<and> 1 \<le> k \<and> k \<le> length ts \<and> successively itn_joins (take k ts)"
    using parseNumber_joined by blast
qed

lemma money_ok: "rule_ok matchMoney"
proof (rule rule_okI)
  fix ts str n assume "matchMoney ts = Some (str, n)"
  then obtain v k t where "parseNumber ts = Some (v, k)" "next_joined ts k = Some t" "n = int (Suc k)"
    by (auto simp: matchMoney_def split: option.splits if_splits)
  then show "\<exists>k. n = int k \<and> 1 \<le> k \<and> k \<le> length ts \<and> successively itn_joins (take k ts)"
    using number_then_word_ok by blast
qed

lemma percent_ok: "rule_ok matchPercent"
proof (rule rule_okI)
  fix ts str n assume "matchPercent ts = Some (str, n)"
  then obtain v k t where "parseNumber ts = Some (v, k)" "next_joined ts k = Some t" "n = int (Suc k)"
    by (auto simp: matchPercent_def split: option.splits if_splits)
  then show "\<exists>k. n = int k \<and> 1 \<le> k \<and> k \<le> length ts \<and> successively itn_joins (take k ts)"
    using number_then_word_ok by blast
qed

lemma parseDay_joined:
  assumes "parseDay ts = Some (d, n)" "ts \<noteq> []"
  shows "1 \<le> n \<and> n \<le> length ts \<and> successively itn_joins (take n ts)"
proof -
  have one: "successively itn_joins (take 1 ts)" "1 \<le> length ts" using assms(2) by (cases ts; simp)+
  have "n = 1 \<or> (n = 2 \<and> 1 < length ts \<and> itn_joins (ts ! 0) (ts ! 1))"
    using assms(1) by (auto simp: parseDay_def Let_def split: if_splits)
  then show ?thesis
  proof
    assume two: "n = 2 \<and> 1 < length ts \<and> itn_joins (ts ! 0) (ts ! 1)"
    obtain a ts' where a: "ts = a # ts'" using assms(2) by (cases ts) auto
    then obtain b rest where "ts' = b # rest" using two by (cases ts') auto
    with two a show ?thesis by (simp add: numeral_2_eq_2)
  qed (use one in simp)
qed

lemma date_ok: "rule_ok matchDate"
proof (rule rule_okI)
  fix ts str n assume ne: "ts \<noteq> []" and "matchDate ts = Some (str, n)"
  then obtain d k t where k: "parseDay ts = Some (d, k)" "next_joined ts k = Some t" "n = int (Suc k)"
    by (auto simp: matchDate_def split: option.splits if_splits)
  from parseDay_joined [OF k(1) ne] joined_Suc [OF _ k(2)] k(2,3)
  show "\<exists>k. n = int k \<and> 1 \<le> k \<and> k \<le> length ts \<and> successively itn_joins (take k ts)"
    by (intro exI [of _ "Suc k"]) (auto simp: next_joined_Some)
qed

lemma time_ok: "rule_ok matchTime"
proof (rule rule_okI)
  fix ts str n assume "matchTime ts = Some (str, n)"
  then obtain h k t t1 m j t2 where
    s: "parseNumber ts = Some (h, k)" "next_joined ts k = Some t" "next_joined ts (k + 1) = Some t1"
      "parseNumber (drop (k + 1) ts) = Some (m, j)" "next_joined ts (k + 1 + j) = Some t2" "n = int (Suc (k + 1 + j))"
    by (auto simp: matchTime_def split: option.splits if_splits)
  have a: "successively itn_joins (take (k + 1) ts)" using number_then_word_ok [OF s(1,2)] by simp
  note j = parseNumber_joined [OF s(4)]
  have "successively itn_joins (take (k + 1 + j) ts)" using joined_append [OF a s(3)] j by simp
  from joined_Suc [OF this s(5)] s(5,6)
  show "\<exists>k. n = int k \<and> 1 \<le> k \<and> k \<le> length ts \<and> successively itn_joins (take k ts)"
    by (intro exI [of _ "Suc (k + 1 + j)"]) (auto simp: next_joined_Some)
qed

lemma decimal_digit: "n \<le> 9 \<Longrightarrow> 0 \<le> n \<Longrightarrow> length (decimal n) = 1" for n :: int
proof -
  assume "n \<le> 9" "0 \<le> n"
  then have "nat n < 10" by simp
  then have "length (digits_of (nat n)) = 1" by (subst digits_of.simps) simp
  with \<open>0 \<le> n\<close> show ?thesis by (simp add: decimal_def FormatInt_def lit_def)
qed

lemma tab_bounds:
  assumes "list_all (\<lambda>(k, v). a \<le> v \<and> v \<le> b) t" "a \<le> 0" "0 \<le> b"
  shows "a \<le> tab t w \<and> tab t w \<le> b"
  using assms by (auto simp: tab_def list_all_iff split: option.split dest!: map_of_SomeD)

lemma cyr_keys_all: "list_all (\<lambda>(k, v). P v) (cyr_keys xs) = list_all (P \<circ> snd) xs"
  by (auto simp: cyr_keys_def list_all_iff)

lemma table_bounds:
  "0 \<le> tab ruUnits w \<and> tab ruUnits w \<le> 19" "0 \<le> tab ruTens w \<and> tab ruTens w \<le> 90"
  "0 \<le> tab ruHundreds w \<and> tab ruHundreds w \<le> 900" "0 \<le> tab ruScales w \<and> tab ruScales w \<le> 1000000000"
  by (rule tab_bounds; simp add: ruUnits_def ruTens_def ruHundreds_def ruScales_def cyr_keys_all)+

lemma phone_loop_joined:
  "phone_loop (if pre = [] then None else Some (last pre)) ts (length pre) d = (i, d') \<Longrightarrow>
    successively itn_joins pre \<Longrightarrow>
    i \<le> length (pre @ ts) \<and> successively itn_joins (take i (pre @ ts)) \<and> length d' + length pre = length d + i"
proof (induction ts arbitrary: pre d)
  case (Cons t ts)
  let ?prev = "if pre = [] then None else Some (last pre)"
  show ?case
  proof (cases "(case ?prev of None \<Rightarrow> False | Some p \<Rightarrow> \<not> itn_joins p t)
      \<or> \<not> has ruUnits (word_of t) \<or> tab ruUnits (word_of t) > 9")
    case True
    then show ?thesis using Cons.prems by (auto split: if_splits)
  next
    case False
    then have pre1: "successively itn_joins (pre @ [t])"
      using Cons.prems(2) by (auto simp: successively_append_iff split: if_splits)
    have "phone_loop (Some t) ts (Suc (length pre)) (d @ decimal (tab ruUnits (word_of t))) = (i, d')"
      using Cons.prems(1) False by auto
    with Cons.IH [of "pre @ [t]" "d @ decimal (tab ruUnits (word_of t))"] pre1 False table_bounds(1)
    show ?thesis by (simp add: decimal_digit)
  qed
qed simp

lemma phone_ok: "rule_ok matchPhone"
proof (rule rule_okI)
  fix ts :: "itn_token list" and str n assume ne: "ts \<noteq> []" and m: "matchPhone ts = Some (str, n)"
  define st where "st = (if word_of (ts ! 0) = cyr ''plUs'' then phone_loop (Some (ts ! 0)) (drop 1 ts) 1 [] else phone_loop None ts 0 [])"
  obtain i d where id: "st = (i, d)" by (cases st)
  have d: "10 \<le> length d" "n = int i"
    using m id unfolding st_def by (auto simp: matchPhone_def Let_def split: if_splits)
  obtain a rest where a: "ts = a # rest" using ne by (cases ts) auto
  have "i \<le> length ts \<and> successively itn_joins (take i ts) \<and> length d \<le> i"
  proof (cases "word_of (ts ! 0) = cyr ''plUs''")
    case True
    then show ?thesis using phone_loop_joined [of "[a]" rest "[]" i d] id a by (simp add: st_def)
  next
    case False
    then show ?thesis using phone_loop_joined [of "[]" ts "[]" i d] id by (simp add: st_def)
  qed
  with d show "\<exists>k. n = int k \<and> 1 \<le> k \<and> k \<le> length ts \<and> successively itn_joins (take k ts)" by auto
qed

lemma first_match_ok:
  assumes "list_all rule_ok rs"
  shows "rule_ok (first_match rs)"
proof -
  have keep: "fold (\<lambda>r m. case m of None \<Rightarrow> r ts | Some x \<Rightarrow> Some x) rs (Some y) = Some y" for rs ts and y :: "runes \<times> int"
    by (induction rs) simp_all
  have "fold (\<lambda>r m. case m of None \<Rightarrow> r ts | Some x \<Rightarrow> Some x) rs None = Some y \<Longrightarrow> list_all rule_ok rs \<Longrightarrow>
      \<exists>r\<in>set rs. r ts = Some y" for rs ts and y :: "runes \<times> int"
  proof (induction rs)
    case (Cons r rs)
    show ?case
    proof (cases "r ts")
      case None
      then show ?thesis using Cons by simp
    next
      case (Some x)
      then show ?thesis using Cons.prems(1) keep [of ts rs x] by simp
    qed
  qed simp
  then have pick: "first_match rs ts = Some y \<Longrightarrow> \<exists>r\<in>set rs. r ts = Some y" for ts y
    using assms unfolding first_match_def by blast
  show ?thesis
    unfolding rule_ok_def [of "first_match rs"]
  proof (intro allI impI)
    fix ts str n assume ne: "ts \<noteq> []" and "first_match rs ts = Some (str, n)"
    then obtain r where r: "r \<in> set rs" "r ts = Some (str, n)" using pick by blast
    then have "rule_ok r" using assms by (simp add: list_all_iff)
    with ne r(2) show "1 \<le> n \<and> n \<le> int (length ts) \<and> successively itn_joins (take (nat n) ts)"
      unfolding rule_ok_def by blast
  qed
qed

lemma ruMatch_ok: "rule_ok ruMatch"
proof -
  have "rule_ok (first_match [matchPhone, matchTime, matchDate, matchMoney, matchPercent, matchPlainNumber])"
    by (rule first_match_ok) (simp add: phone_ok time_ok date_ok money_ok percent_ok plain_ok)
  then show ?thesis by (simp add: rule_ok_def ruMatch_def)
qed

subsection \<open>The engine, for any rule set\<close>

text \<open>\<open>group_of rules lower g v\<close>: the output word \<open>v\<close> stands for the input words \<open>g\<close>.\<close>

definition group_of :: "(runes \<Rightarrow> runes) \<Rightarrow> itn_rules \<Rightarrow> core_word list \<Rightarrow> core_word \<Rightarrow> bool" where
  "group_of lower rules g v \<longleftrightarrow> g \<noteq> [] \<and>
     (g = [v] \<or> (v = rewritten g (w_text v)
        \<and> (\<exists>rest. rules (map (token_of lower) (g @ rest)) = Some (w_text v, int (length g)))))"

lemma rewrite_loop_groups:
  "rewrite_loop lower rules ws = (out, spans, rw) \<Longrightarrow>
    \<exists>gs. concat gs = ws \<and> spans = map (\<lambda>g. int (length g)) gs \<and> list_all2 (group_of lower rules) gs out"
proof (induction "length ws" arbitrary: ws out spans rw rule: less_induct)
  case less
  show ?case
  proof (cases ws)
    case Nil
    then show ?thesis using less.prems by (intro exI [of _ "[]"]) (simp add: rewrite_loop.simps [of lower rules "[]"])
  next
    case (Cons w rest)
    obtain out1 spans1 rw1 where l: "rewrite_loop lower rules rest = (out1, spans1, rw1)" by (metis prod_cases3)
    have keep: ?thesis if k: "out = w # out1" "spans = 1 # spans1"
    proof -
      obtain gs where "concat gs = rest" "spans1 = map (\<lambda>g. int (length g)) gs"
        "list_all2 (group_of lower rules) gs out1" using less.hyps [OF _ l] Cons by auto
      then show ?thesis using k Cons by (intro exI [of _ "[w] # gs"]) (simp add: group_of_def)
    qed
    note unf = rewrite_loop.simps [of lower rules ws, unfolded less.prems]
    show ?thesis
    proof (cases "rules (map (token_of lower) ws)")
      case None
      then show ?thesis using unf by (intro keep) (simp_all add: Cons l)
    next
      case (Some m)
      obtain str n where m: "m = (str, n)" by (cases m)
      show ?thesis
      proof (cases "n < 1 \<or> n > int (length ws)")
        case True
        then show ?thesis using unf Some m by (intro keep) (auto simp: Cons l)
      next
        case False
        define g where "g = take (nat n) ws"
        obtain out2 spans2 rw2 where r: "rewrite_loop lower rules (drop (nat n) ws) = (out2, spans2, rw2)"
          by (metis prod_cases3)
        have o: "out = rewritten g str # out2" "spans = n # spans2"
          using unf Some m False r by (auto simp: Cons g_def Let_def)
        have len: "length (drop (nat n) ws) < length ws" using False Cons by simp
        obtain gs where gs: "concat gs = drop (nat n) ws" "spans2 = map (\<lambda>g. int (length g)) gs"
          "list_all2 (group_of lower rules) gs out2" using less.hyps [OF len r] by blast
        have g: "g \<noteq> []" "int (length g) = n" "g @ drop (nat n) ws = ws" using False Cons by (auto simp: g_def)
        have "\<exists>rest. rules (map (token_of lower) (g @ rest)) = Some (str, int (length g))"
          by (rule exI [of _ "drop (nat n) ws"]) (simp only: g(2,3) Some m)
        then have "group_of lower rules g (rewritten g str)"
          using g(1) by (simp add: group_of_def rewritten_def Let_def)
        then show ?thesis using o gs g by (intro exI [of _ "g # gs"]) simp
      qed
    qed
  qed
qed

lemma minConfidence_least: "v \<in> set g \<Longrightarrow> minConfidence g \<le> w_confidence v"
proof (cases g)
  case (Cons w ws)
  have "foldl (\<lambda>out v. if w_confidence v < out then w_confidence v else out) c ws \<le> c
      \<and> (\<forall>v\<in>set ws. foldl (\<lambda>out v. if w_confidence v < out then w_confidence v else out) c ws \<le> w_confidence v)" for c
  proof (induction ws arbitrary: c)
    case (Cons x ws)
    from Cons [of "if w_confidence x < c then w_confidence x else c"] show ?case by (auto split: if_splits)
  qed simp
  then show "v \<in> set g \<Longrightarrow> minConfidence g \<le> w_confidence v" using Cons by auto
qed simp

lemma minConfidence_Min: "g \<noteq> [] \<Longrightarrow> minConfidence g = Min (w_confidence ` set g)"
proof (cases g)
  case (Cons w ws)
  have "foldl (\<lambda>out v. if w_confidence v < out then w_confidence v else out) c ws \<in> insert c (w_confidence ` set ws)" for c
  proof (induction ws arbitrary: c)
    case (Cons x ws)
    from Cons [of "if w_confidence x < c then w_confidence x else c"] show ?case by (auto split: if_splits)
  qed simp
  then have "minConfidence g \<in> w_confidence ` set g" using Cons by auto
  then show ?thesis using minConfidence_least [of _ g] by (intro Min_eqI [symmetric]) auto
qed simp

text \<open>C28: rewriting accounts for every word, whatever the rules answer. Either the stage hands
  the input back with no vector, or the input splits into consecutive groups, one per output word,
  whose lengths are the span vector; an output word is its single input word untouched, or it runs
  from the start of its group's first word to the end of the last, with the least of their
  confidences, its text is what the rules answered where its group stands, and it keeps what was said
  unless it says the same. The result always passes the chain's check.\<close>

theorem itn_rewrite_accounts:
  "\<exists>out spans. ITN_Apply lower rules ws = Inr (out, spans) \<and> checkSpans (length ws) out spans
    \<and> (spans = None \<and> out = ws \<or>
      (\<exists>gs. concat gs = ws \<and> spans = Some (map (\<lambda>g. int (length g)) gs)
        \<and> list_all2 (\<lambda>g v. g = [v] \<or> (w_start v = w_start (hd g) \<and> w_end v = w_end (last g)
             \<and> w_channel v = w_channel (hd g) \<and> w_confidence v = Min (w_confidence ` set g)
             \<and> (\<exists>rest. rules (map (token_of lower) (g @ rest)) = Some (w_text v, int (length g)))
             \<and> (w_original v = originalOf g \<or> w_text v = originalOf g \<and> w_original v = []))) gs out))"
proof (cases "ws = []")
  case True
  then show ?thesis by (simp add: ITN_Apply_def Rewrite_def checkSpans_def)
next
  case False
  obtain out spans rw where l: "rewrite_loop lower rules ws = (out, spans, rw)" by (metis prod_cases3)
  obtain gs where gs: "concat gs = ws" "spans = map (\<lambda>g. int (length g)) gs" "list_all2 (group_of lower rules) gs out"
    using rewrite_loop_groups [OF l] by blast
  show ?thesis
  proof (cases rw)
    case False
    then show ?thesis using l \<open>ws \<noteq> []\<close> by (simp add: ITN_Apply_def Rewrite_def checkSpans_def)
  next
    case True
    have ne: "\<forall>g\<in>set gs. g \<noteq> []" using gs(3) by (auto simp: group_of_def in_set_conv_nth list_all2_conv_all_nth)
    have "sum_list (map (\<lambda>g. int (length g)) gs) = int (length ws)"
      unfolding gs(1) [symmetric] by (induction gs) simp_all
    moreover have "length gs = length out" using gs(3) by (rule list_all2_lengthD)
    moreover have "1 \<le> k" if "k \<in> set spans" for k
    proof -
      obtain g where "g \<in> set gs" "k = int (length g)" using \<open>k \<in> set spans\<close> gs(2) by auto
      moreover from this have "0 < length g" using ne by simp
      ultimately show ?thesis by linarith
    qed
    ultimately have ck: "checkSpans (length ws) out (Some spans)"
      using gs(2) by (simp add: checkSpans_Some)
    have "list_all2 (\<lambda>g v. g = [v] \<or> (w_start v = w_start (hd g) \<and> w_end v = w_end (last g)
        \<and> w_channel v = w_channel (hd g) \<and> w_confidence v = Min (w_confidence ` set g)
        \<and> (\<exists>rest. rules (map (token_of lower) (g @ rest)) = Some (w_text v, int (length g)))
        \<and> (w_original v = originalOf g \<or> w_text v = originalOf g \<and> w_original v = []))) gs out"
      using gs(3)
    proof (rule list_all2_mono)
      fix g v assume "group_of lower rules g v"
      then have gne: "g \<noteq> []" by (simp add: group_of_def)
      from \<open>group_of lower rules g v\<close> consider "g = [v]"
        | "v = rewritten g (w_text v)" "\<exists>rest. rules (map (token_of lower) (g @ rest)) = Some (w_text v, int (length g))"
        by (auto simp: group_of_def)
      then show "g = [v] \<or> (w_start v = w_start (hd g) \<and> w_end v = w_end (last g)
        \<and> w_channel v = w_channel (hd g) \<and> w_confidence v = Min (w_confidence ` set g)
        \<and> (\<exists>rest. rules (map (token_of lower) (g @ rest)) = Some (w_text v, int (length g)))
        \<and> (w_original v = originalOf g \<or> w_text v = originalOf g \<and> w_original v = []))"
      proof cases
        case 2
        have "w_start (rewritten g x) = w_start (hd g) \<and> w_end (rewritten g x) = w_end (last g)
            \<and> w_channel (rewritten g x) = w_channel (hd g) \<and> w_confidence (rewritten g x) = Min (w_confidence ` set g)
            \<and> (w_original (rewritten g x) = originalOf g \<or> w_text (rewritten g x) = originalOf g \<and> w_original (rewritten g x) = [])" for x
          using gne by (simp add: rewritten_def Let_def minConfidence_Min)
        from this [of "w_text v", folded 2(1)] 2(2) show ?thesis by blast
      qed simp
    qed
    moreover have "ITN_Apply lower rules ws = Inr (out, Some spans)"
      using l True \<open>ws \<noteq> []\<close> by (simp add: ITN_Apply_def Rewrite_def)
    ultimately show ?thesis using ck gs by blast
  qed
qed

subsection \<open>What a rule set promises\<close>

text \<open>The contract every locale's rules obey: they consume a non-empty prefix of what they are
  offered, and no pause lies inside it.\<close>

locale itn_rule_set =
  fixes match_rule :: itn_rules
  assumes consumes: "ts \<noteq> [] \<Longrightarrow> match_rule ts = Some (str, n) \<Longrightarrow> 1 \<le> n \<and> n \<le> int (length ts)"
    and no_pause: "ts \<noteq> [] \<Longrightarrow> match_rule ts = Some (str, n) \<Longrightarrow> successively itn_joins (take (nat n) ts)"
begin

lemma group_no_pause:
  assumes "group_of lower match_rule g v"
  shows "successively (\<lambda>a b. w_start b - w_end a \<le> MaxGap) g"
proof (cases "g = [v]")
  case False
  then obtain rest where "g \<noteq> []" "match_rule (map (token_of lower) (g @ rest)) = Some (w_text v, int (length g))"
    using assms by (auto simp: group_of_def)
  then have "successively itn_joins (map (token_of lower) g)"
    using no_pause [of "map (token_of lower) (g @ rest)"] by fastforce
  then show ?thesis by (simp add: successively_map itn_joins_def token_of_def)
qed simp

lemma rewrite_no_pause:
  assumes "ITN_Apply lower match_rule ws = Inr (out, Some spans)"
  shows "\<exists>gs. concat gs = ws \<and> spans = map (\<lambda>g. int (length g)) gs
    \<and> (\<forall>g\<in>set gs. successively (\<lambda>a b. w_start b - w_end a \<le> MaxGap) g)"
proof -
  obtain o1 s1 r1 where l: "rewrite_loop lower match_rule ws = (o1, s1, r1)" by (metis prod_cases3)
  then have "s1 = spans" using assms by (auto simp: ITN_Apply_def Rewrite_def split: if_splits)
  with rewrite_loop_groups [OF l] obtain gs where gs: "concat gs = ws" "spans = map (\<lambda>g. int (length g)) gs"
    "list_all2 (group_of lower match_rule) gs o1" by blast
  have "\<forall>g\<in>set gs. successively (\<lambda>a b. w_start b - w_end a \<le> MaxGap) g"
    using gs(3) group_no_pause by (metis in_set_conv_nth list_all2_conv_all_nth)
  with gs show ?thesis by blast
qed

end

interpretation ru: itn_rule_set ruMatch
  by unfold_locales (use ruMatch_ok in \<open>auto simp: rule_ok_def\<close>)

text \<open>C29: the Russian rules never rewrite across a pause. Whatever is said, every run of words
  merged into one written form was spoken without a gap of more than MaxGap between neighbours, so
  a number that ends one sentence is not joined to the one that begins the next.\<close>

theorem russian_itn_joins_no_pause:
  assumes "ITN_Apply lower ruMatch ws = Inr (out, Some spans)"
  shows "\<exists>gs. concat gs = ws \<and> spans = map (\<lambda>g. int (length g)) gs
    \<and> (\<forall>g\<in>set gs. successively (\<lambda>a b. w_start b - w_end a \<le> 35 / 100) g)"
  using ru.rewrite_no_pause [OF assms] by (simp add: MaxGap_def)

definition spoken_word :: "string \<Rightarrow> real \<Rightarrow> core_word" where
  "spoken_word s t = (demo_word t (t + 1))\<lparr>w_text := cyr s\<rparr>"

definition said_token :: "string \<Rightarrow> itn_token" where
  "said_token s = \<lparr>tk_text = cyr s, tk_lower = cyr s, tk_start = 0, tk_end = 0\<rparr>"

subsection \<open>Numerals as they are spoken\<close>

definition unit_word :: "nat \<Rightarrow> string" where
  "unit_word n = [''nolq'', ''odin'', ''dva'', ''tri'', ''hetyre'', ''pYtq'', ''westq'', ''semq'', ''vosemq'',
     ''devYtq'', ''desYtq'', ''odinnadcatq'', ''dvenadcatq'', ''trinadcatq'', ''hetyrnadcatq'', ''pYtnadcatq'',
     ''westnadcatq'', ''semnadcatq'', ''vosemnadcatq'', ''devYtnadcatq''] ! n"

definition tens_word :: "nat \<Rightarrow> string" where
  "tens_word n = [[], [], ''dvadcatq'', ''tridcatq'', ''sorok'', ''pYtqdesYt'', ''westqdesYt'', ''semqdesYt'',
     ''vosemqdesYt'', ''devYnosto''] ! n"

definition hundreds_word :: "nat \<Rightarrow> string" where
  "hundreds_word n = [[], ''sto'', ''dvesti'', ''trista'', ''hetyresta'', ''pYtqsot'', ''westqsot'', ''semqsot'',
     ''vosemqsot'', ''devYtqsot''] ! n"

text \<open>One and two have a feminine form, which thousands take.\<close>

definition unit_form :: "bool \<Rightarrow> nat \<Rightarrow> string" where
  "unit_form fem n = (if fem \<and> n = 1 then ''odna'' else if fem \<and> n = 2 then ''dve'' else unit_word n)"

definition say_group :: "bool \<Rightarrow> nat \<Rightarrow> string list" where
  "say_group fem n =
     (if n div 100 = 0 then [] else [hundreds_word (n div 100)])
     @ (if n mod 100 < 20 then (if n mod 100 = 0 then [] else [unit_form fem (n mod 100)])
        else tens_word (n mod 100 div 10) # (if n mod 10 = 0 then [] else [unit_form fem (n mod 10)]))"

text \<open>A scale word declines with the number before it: one thousand, two to four, five and more; the numbers
  from eleven to fourteen count as more.\<close>

definition scale_form :: "string \<times> string \<times> string \<Rightarrow> nat \<Rightarrow> string" where
  "scale_form forms k =
     (case forms of (one, few, many) \<Rightarrow>
        if k mod 100 div 10 = 1 then many
        else if k mod 10 = 1 then one
        else if 2 \<le> k mod 10 \<and> k mod 10 \<le> 4 then few
        else many)"

definition thousand :: "string \<times> string \<times> string" where "thousand = (''tysYha'', ''tysYhi'', ''tysYh'')"
definition million :: "string \<times> string \<times> string" where "million = (''million'', ''milliona'', ''millionov'')"
definition milliard :: "string \<times> string \<times> string" where "milliard = (''milliard'', ''milliarda'', ''milliardov'')"

text \<open>A speaker may leave the one before a scale word out.\<close>

definition say_scale :: "bool \<Rightarrow> bool \<Rightarrow> string \<times> string \<times> string \<Rightarrow> nat \<Rightarrow> string list" where
  "say_scale bare fem forms k =
     (if k = 0 then [] else if bare \<and> k = 1 then [scale_form forms k] else say_group fem k @ [scale_form forms k])"

definition say :: "bool \<times> bool \<times> bool \<Rightarrow> nat \<Rightarrow> string list" where
  "say bare n =
     say_scale (fst bare) False milliard (n div 10 ^ 9 mod 1000)
     @ say_scale (fst (snd bare)) False million (n div 10 ^ 6 mod 1000)
     @ say_scale (snd (snd bare)) True thousand (n div 1000 mod 1000) @ say_group False (n mod 1000)"

lemma inj_cyr_letter: "inj cyr_letter"
proof (rule injI)
  fix c d assume e: "cyr_letter c = cyr_letter d"
  let ?A = "''abvgdejziJklmnoprstufxchwWQyqAUY''"
  have some: "\<exists>i<32. ?A ! i = c \<and> r = 1072 + i" if "map_of (zip ?A [1072..<1104]) c = Some r" for c r
  proof -
    from that have "(c, r) \<in> set (zip ?A [1072..<1104])" by (rule map_of_SomeD)
    then show ?thesis by (auto simp: set_zip)
  qed
  have none: "cyr_letter c = (if c = CHR ''E'' then 1105 else of_char c)" if "map_of (zip ?A [1072..<1104]) c = None" for c
    using that by (simp add: cyr_letter_def)
  have small: "of_char c < (256 :: nat)" for c :: char by (simp add: of_char_def)
  have ne: "of_char c \<noteq> (1105 :: nat)" for c :: char using small [of c] by linarith
  show "c = d"
  proof (cases "map_of (zip ?A [1072..<1104]) c"; cases "map_of (zip ?A [1072..<1104]) d")
    assume "map_of (zip ?A [1072..<1104]) c = None" "map_of (zip ?A [1072..<1104]) d = None"
    with e none [of c] none [of d] ne [of c] ne [of d] show "c = d" by (auto split: if_splits)
  next
    fix r assume r: "map_of (zip ?A [1072..<1104]) c = None" "map_of (zip ?A [1072..<1104]) d = Some r"
    from some [OF r(2)] have "1072 \<le> r" "r < 1104" by auto
    moreover have "cyr_letter d = r" using r(2) by (simp add: cyr_letter_def)
    moreover from calculation have "of_char c \<noteq> r" using small [of c] by linarith
    ultimately show "c = d" using e none [OF r(1)] by (auto split: if_splits)
  next
    fix r assume r: "map_of (zip ?A [1072..<1104]) c = Some r" "map_of (zip ?A [1072..<1104]) d = None"
    from some [OF r(1)] have "1072 \<le> r" "r < 1104" by auto
    moreover have "cyr_letter c = r" using r(1) by (simp add: cyr_letter_def)
    moreover from calculation have "of_char d \<noteq> r" using small [of d] by linarith
    ultimately show "c = d" using e none [OF r(2)] by (auto split: if_splits)
  next
    fix r r' assume r: "map_of (zip ?A [1072..<1104]) c = Some r" "map_of (zip ?A [1072..<1104]) d = Some r'"
    then have "r = r'" using e by (simp add: cyr_letter_def)
    with some [OF r(1)] some [OF r(2)] show "c = d" by auto
  qed
qed

lemma cyr_inj: "cyr s = cyr t \<longleftrightarrow> s = t"
  unfolding cyr_def using inj_cyr_letter by (rule inj_map_eq_map)

lemma map_of_cyr_keys: "map_of (cyr_keys t) (cyr s) = map_of t s"
proof (induction t)
  case (Cons p t)
  then show ?case by (cases p) (simp add: cyr_keys_def cyr_inj)
qed (simp add: cyr_keys_def)

lemma all_below: "(\<forall>n<k. P n) \<longleftrightarrow> list_all P [0..<k]" for k :: nat
  by (auto simp: list_all_iff)

lemmas table_defs = ruUnits_def ruTens_def ruHundreds_def ruScales_def tab_def has_def map_of_cyr_keys

lemma unit_words:
  "\<forall>n<20. has ruUnits (cyr (unit_form fem n)) \<and> tab ruUnits (cyr (unit_form fem n)) = int n
    \<and> tab ruTens (cyr (unit_form fem n)) = 0 \<and> tab ruHundreds (cyr (unit_form fem n)) = 0"
proof -
  have "\<forall>n<20. has ruUnits (cyr (unit_form True n)) \<and> tab ruUnits (cyr (unit_form True n)) = int n
      \<and> tab ruTens (cyr (unit_form True n)) = 0 \<and> tab ruHundreds (cyr (unit_form True n)) = 0"
    unfolding all_below table_defs by code_simp
  moreover have "\<forall>n<20. has ruUnits (cyr (unit_form False n)) \<and> tab ruUnits (cyr (unit_form False n)) = int n
      \<and> tab ruTens (cyr (unit_form False n)) = 0 \<and> tab ruHundreds (cyr (unit_form False n)) = 0"
    unfolding all_below table_defs by code_simp
  ultimately show ?thesis by (cases fem) simp_all
qed

lemma tens_words:
  "\<forall>n<10. 2 \<le> n \<longrightarrow> tab ruTens (cyr (tens_word n)) = 10 * int n \<and> tab ruHundreds (cyr (tens_word n)) = 0"
  unfolding all_below table_defs by code_simp

lemma hundreds_words: "\<forall>n<10. 1 \<le> n \<longrightarrow> tab ruHundreds (cyr (hundreds_word n)) = 100 * int n"
  unfolding all_below table_defs by code_simp

lemma scale_words:
  "list_all (\<lambda>(s, v). \<not> has ruUnits (cyr s) \<and> tab ruTens (cyr s) = 0 \<and> tab ruHundreds (cyr s) = 0 \<and> tab ruScales (cyr s) = v)
    [(''milliard'', 10 ^ 9), (''milliarda'', 10 ^ 9), (''milliardov'', 10 ^ 9), (''million'', 10 ^ 6), (''milliona'', 10 ^ 6),
     (''millionov'', 10 ^ 6), (''tysYha'', 1000), (''tysYhi'', 1000), (''tysYh'', 1000)]"
  unfolding table_defs by code_simp

definition scale_value :: "string \<times> string \<times> string \<Rightarrow> int" where
  "scale_value forms = tab ruScales (cyr (fst forms))"

lemma scale_form_value:
  assumes "forms \<in> {thousand, million, milliard}"
  shows "\<not> has ruUnits (cyr (scale_form forms k)) \<and> tab ruTens (cyr (scale_form forms k)) = 0
    \<and> tab ruHundreds (cyr (scale_form forms k)) = 0 \<and> tab ruScales (cyr (scale_form forms k)) = scale_value forms \<and> scale_value forms \<noteq> 0"
  using assms scale_words
  by (auto simp: scale_form_def scale_value_def thousand_def million_def milliard_def split: if_splits)

lemma scale_values: "scale_value thousand = 1000" "scale_value million = 10 ^ 6" "scale_value milliard = 10 ^ 9"
  using scale_words by (simp_all add: scale_value_def thousand_def million_def milliard_def)

lemma trimPunct_cyr: "CHR ''.'' \<notin> set s \<Longrightarrow> CHR '','' \<notin> set s \<Longrightarrow> CHR ''!'' \<notin> set s \<Longrightarrow> CHR ''?'' \<notin> set s \<Longrightarrow>
    CHR '';'' \<notin> set s \<Longrightarrow> CHR '':'' \<notin> set s \<Longrightarrow> trimPunct (cyr s) = (cyr s, [])"
proof -
  have dots: "cyr_letter CHR ''.'' = 46" "cyr_letter CHR '','' = 44" "cyr_letter CHR ''!'' = 33"
    "cyr_letter CHR ''?'' = 63" "cyr_letter CHR '';'' = 59" "cyr_letter CHR '':'' = 58"
    by (simp_all add: cyr_letter_def)
  assume *: "CHR ''.'' \<notin> set s" "CHR '','' \<notin> set s" "CHR ''!'' \<notin> set s" "CHR ''?'' \<notin> set s" "CHR '';'' \<notin> set s" "CHR '':'' \<notin> set s"
  have "\<not> is_mark (cyr_letter c)" if "c \<in> set s" for c
  proof
    assume "is_mark (cyr_letter c)"
    then have "c \<in> {CHR ''.'', CHR '','', CHR ''!'', CHR ''?'', CHR '';'', CHR '':''}"
      unfolding is_mark_def dots [symmetric] by (auto dest: injD [OF inj_cyr_letter])
    with that * show False by auto
  qed
  then have n: "\<forall>c\<in>set (rev (cyr s)). \<not> is_mark c" by (auto simp: cyr_def)
  then have "takeWhile is_mark (rev (cyr s)) = []" by (cases "rev (cyr s)") auto
  moreover from n have "dropWhile is_mark (rev (cyr s)) = rev (cyr s)" by (cases "rev (cyr s)") auto
  ultimately show ?thesis by (simp add: trimPunct_def)
qed

definition plain_word :: "string \<Rightarrow> bool" where
  "plain_word s \<longleftrightarrow> trimPunct (cyr s) = (cyr s, [])"

lemma plain_words:
  "\<forall>n<20. plain_word (unit_form fem n)" "\<forall>n<10. plain_word (tens_word n)" "\<forall>n<10. plain_word (hundreds_word n)"
  "forms \<in> {thousand, million, milliard} \<Longrightarrow> plain_word (scale_form forms k)"
proof -
  have *: "(\<forall>n<k. plain_word (f n))" if "list_all (\<lambda>n. list_all (\<lambda>c. c \<notin> set (f n)) ''.,!?;:'') [0..<k]" for k f
    using that unfolding list_all_iff plain_word_def by (auto intro!: trimPunct_cyr)
  show "\<forall>n<10. plain_word (tens_word n)" "\<forall>n<10. plain_word (hundreds_word n)"
    by (rule *; code_simp)+
  have "\<forall>n<20. plain_word (unit_form True n)" "\<forall>n<20. plain_word (unit_form False n)" by (rule *; code_simp)+
  then show "\<forall>n<20. plain_word (unit_form fem n)" by (cases fem) simp_all
  show "plain_word (scale_form forms k)" if "forms \<in> {thousand, million, milliard}"
    using that by (auto simp: scale_form_def thousand_def million_def milliard_def plain_word_def trimPunct_cyr)
qed

text \<open>What one unmarked word does to the accumulators.\<close>

fun num_step :: "int \<times> int \<times> bool \<Rightarrow> runes \<Rightarrow> (int \<times> int \<times> bool) option" where
  "num_step (tot, grp, g) w =
     (if tab ruHundreds w \<noteq> 0 then Some (tot, grp + tab ruHundreds w, True)
      else if tab ruTens w \<noteq> 0 then Some (tot, grp + tab ruTens w, True)
      else if has ruUnits w then (if g \<and> grp mod 10 \<noteq> 0 then None else Some (tot, grp + tab ruUnits w, True))
      else if tab ruScales w \<noteq> 0 then Some (tot + (if grp = 0 then 1 else grp) * tab ruScales w, 0, False)
      else None)"

fun num_steps :: "int \<times> int \<times> bool \<Rightarrow> string list \<Rightarrow> (int \<times> int \<times> bool) option" where
  "num_steps st [] = Some st"
| "num_steps st (w # ws) = (case num_step st (cyr w) of None \<Rightarrow> None | Some st' \<Rightarrow> num_steps st' ws)"

lemma num_steps_append: "num_steps st (a @ b) = Option.bind (num_steps st a) (\<lambda>st'. num_steps st' b)"
  by (induction a arbitrary: st) (auto split: option.split)

lemma parse_steps:
  assumes "num_steps (tot, grp, g) ws = Some (tot', grp', g')" "map tk_lower ts = map cyr ws" "list_all plain_word ws"
    "ts \<noteq> []" "successively itn_joins ts" "case prev of None \<Rightarrow> True | Some p \<Rightarrow> itn_joins p (hd ts)"
  shows "parse_loop prev (ts @ rest) i tot grp c a g =
    parse_loop (Some (last ts)) rest (i + length ts) tot' grp' (i + length ts) True g'"
  using assms
proof (induction ts arbitrary: tot grp g ws prev i c a)
  case (Cons t ts)
  obtain w ws' where ws: "ws = w # ws'" "tk_lower t = cyr w" "map tk_lower ts = map cyr ws'" "plain_word w" "list_all plain_word ws'"
    using Cons.prems(2,3) by (cases ws) auto
  obtain tot1 grp1 g1 where s: "num_step (tot, grp, g) (cyr w) = Some (tot1, grp1, g1)"
    "num_steps (tot1, grp1, g1) ws' = Some (tot', grp', g')"
    using Cons.prems(1) ws(1) by (auto split: option.splits)
  have tp: "trimPunct (tk_lower t) = (cyr w, [])" using ws by (simp add: plain_word_def)
  have ok: "\<not> (case prev of None \<Rightarrow> False | Some p \<Rightarrow> \<not> itn_joins p t)"
    using Cons.prems(6) by (auto split: option.splits)
  have step: "parse_loop prev (t # ts @ rest) i tot grp c a g = parse_loop (Some t) (ts @ rest) (Suc i) tot1 grp1 (Suc i) True g1"
    using s(1) ok unfolding parse_loop.simps tp
    by (auto simp: num_step.simps Let_def simp del: parse_loop.simps split: if_splits)
  show ?case
  proof (cases "ts = []")
    case True
    then have "ws' = []" using ws(3) by simp
    then show ?thesis using step s(2) True by (simp del: parse_loop.simps)
  next
    case False
    have "successively itn_joins ts" "itn_joins t (hd ts)" using Cons.prems(5) False by (cases ts; simp)+
    with Cons.IH [OF s(2) ws(3,5) False, of "Some t"] False show ?thesis by (simp add: step del: parse_loop.simps)
  qed
qed simp

lemma say_group_steps:
  assumes "n < 1000" "0 < n"
  shows "num_steps (tot, 0, False) (say_group fem n) = Some (tot, int n, True)"
proof -
  define h where "h = n div 100"
  define r where "r = n mod 100"
  have n: "n = 100 * h + r" "h < 10" "r < 100" using assms by (auto simp: h_def r_def)
  have m: "n mod 10 = r mod 10" by (simp add: r_def mod_mod_cancel)
  have hs: "num_steps (tot, 0, False) (if h = 0 then [] else [hundreds_word h]) = Some (tot, 100 * int h, h \<noteq> 0)"
    using hundreds_words n(2) by (auto simp: Suc_le_eq)
  have rs: "num_steps (tot, 100 * int h, h \<noteq> 0)
      (if r < 20 then (if r = 0 then [] else [unit_form fem r])
       else tens_word (r div 10) # (if r mod 10 = 0 then [] else [unit_form fem (r mod 10)])) = Some (tot, 100 * int h + int r, h \<noteq> 0 \<or> r \<noteq> 0)"
  proof (cases "r < 20")
    case True
    then show ?thesis using unit_words by auto
  next
    case False
    have d: "r div 10 < 10" "2 \<le> r div 10" "r mod 10 < 20" using False n(3) by auto
    have e: "int r = 10 * int (r div 10) + int (r mod 10)" by presburger
    have t: "num_step (tot, 100 * int h, h \<noteq> 0) (cyr (tens_word (r div 10))) = Some (tot, 100 * int h + 10 * int (r div 10), True)"
      using tens_words d(1,2) by simp
    have u: "(100 * int h + 10 * int (r div 10)) mod 10 = 0" by presburger
    show ?thesis
    proof (cases "r mod 10 = 0")
      case True
      with False t e show ?thesis by (simp del: num_step.simps)
    next
      case nz: False
      have "num_step (tot, 100 * int h + 10 * int (r div 10), True) (cyr (unit_form fem (r mod 10)))
          = Some (tot, 100 * int h + 10 * int (r div 10) + int (r mod 10), True)"
        using unit_words d(3) u by simp
      with False nz t e show ?thesis by (simp del: num_step.simps)
    qed
  qed
  have "h \<noteq> 0 \<or> r \<noteq> 0" using assms(2) n(1) by auto
  with hs rs n(1) show ?thesis
    unfolding say_group_def num_steps_append h_def [symmetric] r_def [symmetric] m by simp
qed

lemma say_scale_steps:
  assumes "k < 1000" "forms \<in> {thousand, million, milliard}"
  shows "num_steps (tot, 0, False) (say_scale bare fem forms k) = Some (tot + int k * scale_value forms, 0, False)"
proof -
  have form: "num_step (tot, g, b) (cyr (scale_form forms j)) = Some (tot + (if g = 0 then 1 else g) * scale_value forms, 0, False)"
    for g b j using scale_form_value [OF assms(2), of j] by simp
  show ?thesis using say_group_steps [OF assms(1), of tot fem] form
    by (auto simp: say_scale_def num_steps_append simp del: num_step.simps)
qed

lemma say_group_plain: "n < 1000 \<Longrightarrow> list_all plain_word (say_group fem n)"
proof -
  assume "n < 1000"
  then have "n div 100 < 10" "n mod 100 div 10 < 10" "n mod 10 < 20" by auto
  with plain_words show ?thesis by (auto simp: say_group_def)
qed

lemma say_scale_plain: "k < 1000 \<Longrightarrow> forms \<in> {thousand, million, milliard} \<Longrightarrow> list_all plain_word (say_scale bare fem forms k)"
  using say_group_plain [of k fem] by (simp add: say_scale_def plain_words(4))

lemma say_plain: "list_all plain_word (say bare n)"
  by (simp add: say_def say_scale_plain say_group_plain)

text \<open>A token that cannot continue a numeral.\<close>

definition ends_number :: "itn_token \<Rightarrow> itn_token list \<Rightarrow> bool" where
  "ends_number prev rest \<longleftrightarrow>
     (case rest of [] \<Rightarrow> True
      | t # _ \<Rightarrow> \<not> itn_joins prev t \<or> (\<not> has ruUnits (word_of t) \<and> tab ruTens (word_of t) = 0
          \<and> tab ruHundreds (word_of t) = 0 \<and> tab ruScales (word_of t) = 0))"

lemma ends_number_close:
  "ends_number p rest \<Longrightarrow> parse_loop (Some p) rest i tot grp c a g = closeNumber tot grp c a"
  by (cases rest) (auto simp: ends_number_def word_of_def split: prod.split)

text \<open>C30: numerals read back. Say any whole number below a trillion in Russian, in the nominative: hundreds,
  tens and units, the scale words after each group in the form the group asks for, one and two
  thousand in the feminine, and the one before a scale word said or left out. Without a pause inside it, and
  with anything but a number word, or a pause, after it, the rules read exactly that number and consume
  exactly those words. (The other cases the tables list are not spoken here.)\<close>

theorem russian_numerals_read_back:
  assumes "0 < n" "n < 10 ^ 12" "map tk_lower ts = map cyr (say bare n)" "successively itn_joins ts"
    "ends_number (last ts) rest"
  shows "parseNumber (ts @ rest) = Some (int n, length ts)"
proof -
  define b m k r where "b = n div 10 ^ 9 mod 1000" and "m = n div 10 ^ 6 mod 1000" and "k = n div 1000 mod 1000"
    and "r = n mod 1000"
  have lt: "b < 1000" "m < 1000" "k < 1000" "r < 1000" by (simp_all add: b_def m_def k_def r_def)
  have d: "n div 10 ^ 9 mod 1000 = n div 10 ^ 9" using assms(2) by (simp add: less_mult_imp_div_less)
  have six: "(10 :: nat) ^ 6 = 1000 * 1000" by simp
  have split: "x = 1000 * (x div 1000) + x mod 1000" for x :: nat by simp
  have "n = 1000 * (n div 1000) + r" "n div 1000 = 1000 * (n div 1000 div 1000) + k"
    "n div 1000 div 1000 = 1000 * (n div 1000 div 1000 div 1000) + m"
    using split [of n] split [of "n div 1000"] split [of "n div 1000 div 1000"]
    by (simp_all only: r_def k_def m_def six div_mult2_eq [symmetric])
  moreover have "n div 1000 div 1000 div 1000 = b" using d by (simp add: b_def div_mult2_eq [symmetric])
  ultimately have n: "n = b * 10 ^ 9 + m * 10 ^ 6 + k * 1000 + r" by simp
  have ne: "say bare n \<noteq> []"
    using n assms(1) lt unfolding say_def b_def [symmetric] m_def [symmetric] k_def [symmetric] r_def [symmetric]
    by (auto simp: say_group_def say_scale_def split: if_splits)
  have steps: "num_steps (0, 0, False) (say bare n) = Some (int b * 10 ^ 9 + int m * 10 ^ 6 + int k * 1000, int r, r \<noteq> 0)"
    unfolding say_def b_def [symmetric] m_def [symmetric] k_def [symmetric] r_def [symmetric]
    using say_scale_steps [of b milliard 0] say_scale_steps [of m million "int b * 10 ^ 9"]
      say_scale_steps [of k thousand "int b * 10 ^ 9 + int m * 10 ^ 6"]
      say_group_steps [of r "int b * 10 ^ 9 + int m * 10 ^ 6 + int k * 1000" False] lt
    by (cases "r = 0") (simp_all add: num_steps_append say_group_def scale_values)
  have tne: "ts \<noteq> []" using assms(3) ne by auto
  have "parseNumber (ts @ rest) = parse_loop (Some (last ts)) rest (0 + length ts)
      (int b * 10 ^ 9 + int m * 10 ^ 6 + int k * 1000) (int r) (0 + length ts) True (r \<noteq> 0)"
    unfolding parseNumber_def by (rule parse_steps [OF steps assms(3) say_plain tne assms(4)]) simp
  also have "\<dots> = Some (int n, length ts)"
    unfolding ends_number_close [OF assms(5)] using tne n by (simp add: closeNumber_def)
  finally show ?thesis .
qed

theorem russian_numerals_read_back_witness:
  "parseNumber (map said_token [''dve'', ''tysYhi'', ''dvadcatq'', ''pYtq''] @ [said_token ''procentov'']) = Some (2025, 4)
   \<and> parseNumber (map said_token [''tysYha''] @ []) = Some (1000, 1)"
proof -
  let ?ws = "[''dve'', ''tysYhi'', ''dvadcatq'', ''pYtq'']"
  have s: "say (False, False, False) 2025 = ?ws" "say (False, False, True) 1000 = [''tysYha'']"
    by (simp_all add: say_def say_scale_def say_group_def unit_form_def unit_word_def tens_word_def scale_form_def thousand_def)
  have j: "successively itn_joins (map said_token ?ws)"
    by (simp add: itn_joins_def said_token_def MaxGap_def)
  have t: "trimPunct (cyr ''procentov'') = (cyr ''procentov'', [])" by (rule trimPunct_cyr) simp_all
  have no: "\<not> has ruUnits (cyr ''procentov'')" "tab ruTens (cyr ''procentov'') = 0"
    "tab ruHundreds (cyr ''procentov'') = 0" "tab ruScales (cyr ''procentov'') = 0"
    unfolding table_defs by code_simp+
  have e: "ends_number (last (map said_token ?ws)) [said_token ''procentov'']"
    by (simp add: ends_number_def word_of_def said_token_def t no)
  have "map tk_lower (map said_token ?ws) = map cyr (say (False, False, False) 2025)" unfolding s by (simp add: said_token_def)
  note first = russian_numerals_read_back [OF _ _ this j e]
  have "map tk_lower (map said_token [''tysYha'']) = map cyr (say (False, False, True) 1000)" unfolding s by (simp add: said_token_def)
  from russian_numerals_read_back [OF _ _ this, of "[]"] first show ?thesis by (simp add: ends_number_def)
qed

text \<open>What the same loop does with two numbers in a row: tens after tens and hundreds after tens are
  added up, and a zero before a scale counts as one.\<close>

lemma two_numbers_added_up:
  "parseNumber (map said_token [''dvadcatq'', ''tridcatq'']) = Some (50, 2)"
  "parseNumber (map said_token [''nolq'', ''tysYh'']) = Some (1000, 2)"
proof -
  have w: "num_steps (0, 0, False) [''dvadcatq'', ''tridcatq''] = Some (0, 50, True)"
    "num_steps (0, 0, False) [''nolq'', ''tysYh''] = Some (1000, 0, False)"
    using tens_words [rule_format, of 2] tens_words [rule_format, of 3] unit_words [rule_format, of 0 False] scale_words
    by (simp_all add: tens_word_def unit_word_def unit_form_def)
  have p: "list_all plain_word [''dvadcatq'', ''tridcatq'']" "list_all plain_word [''nolq'', ''tysYh'']"
    by (simp_all add: plain_word_def trimPunct_cyr)
  have j: "successively itn_joins (map said_token ws)" for ws
    by (auto simp: successively_conv_nth itn_joins_def said_token_def MaxGap_def)
  have m: "map tk_lower (map said_token ws) = map cyr ws" for ws by (simp add: said_token_def)
  show "parseNumber (map said_token [''dvadcatq'', ''tridcatq'']) = Some (50, 2)"
    using parse_steps [OF w(1) m p(1) _ j, of None "[]" 0 0 False]
    by (simp add: parseNumber_def closeNumber_def del: parse_loop.simps(2))
  show "parseNumber (map said_token [''nolq'', ''tysYh'']) = Some (1000, 2)"
    using parse_steps [OF w(2) m p(2) _ j, of None "[]" 0 0 False]
    by (simp add: parseNumber_def closeNumber_def del: parse_loop.simps(2))
qed

subsection \<open>The accumulators stay small\<close>

lemma parse_loop_bounded:
  "parse_loop prev ts i tot grp i a g = Some (v, n) \<Longrightarrow> 0 \<le> tot \<Longrightarrow> 0 \<le> grp \<Longrightarrow>
    tot + 1000000000 * grp \<le> 900000000000 * int i \<Longrightarrow> 0 \<le> v \<and> v \<le> 900000000000 * int n"
proof (induction ts arbitrary: prev i tot grp a g)
  case Nil
  then show ?case by (auto simp: closeNumber_def split: if_splits)
next
  case (Cons t ts)
  obtain w mark where w: "trimPunct (tk_lower t) = (w, mark)" by (cases "trimPunct (tk_lower t)")
  define Q where "Q \<longleftrightarrow> 0 \<le> v \<and> v \<le> 900000000000 * int n"
  have stop: Q if "closeNumber tot' grp' j b = Some (v, n)" "0 \<le> tot'" "0 \<le> grp'"
    "tot' + 1000000000 * grp' \<le> 900000000000 * int j" for tot' grp' j b
    using that by (auto simp: closeNumber_def Q_def split: if_splits)
  have more: Q if "parse_loop (Some t) ts (Suc i) tot' grp' (Suc i) True g' = Some (v, n)" "0 \<le> tot'" "0 \<le> grp'"
    "tot' + 1000000000 * grp' \<le> 900000000000 * int (Suc i)" for tot' grp' g'
    using Cons.IH [OF that] by (simp add: Q_def)
  have add: Q if "(if mark \<noteq> [] then closeNumber tot (grp + x) (Suc i) True
      else parse_loop (Some t) ts (Suc i) tot (grp + x) (Suc i) True True) = Some (v, n)" "0 \<le> x" "x \<le> 900" for x
    using that Cons.prems(2-4) stop [of tot "grp + x" "Suc i" True] more [of tot "grp + x" True] by (auto split: if_splits)
  have scale: Q if "(if mark \<noteq> [] then closeNumber (tot + (if grp = 0 then 1 else grp) * x) 0 (Suc i) True
      else parse_loop (Some t) ts (Suc i) (tot + (if grp = 0 then 1 else grp) * x) 0 (Suc i) True False) = Some (v, n)"
    "0 \<le> x" "x \<le> 1000000000" for x
  proof -
    have "grp * x \<le> 1000000000 * grp" "0 \<le> grp * x" using that(2,3) Cons.prems(3) by (simp_all add: mult.commute mult_left_mono)
    then show ?thesis using that Cons.prems(2-4)
        stop [of "tot + (if grp = 0 then 1 else grp) * x" 0 "Suc i" True]
        more [of "tot + (if grp = 0 then 1 else grp) * x" 0 False] by (auto split: if_splits)
  qed
  have "Q"
  proof (cases "(case prev of None \<Rightarrow> False | Some p \<Rightarrow> \<not> itn_joins p t)")
    case True
    then show ?thesis using Cons.prems stop [of tot grp i a] by simp
  next
    case False
    then show ?thesis using Cons.prems stop [of tot grp i a] add scale table_bounds
      by (simp add: w Let_def split: if_splits) (smt (verit))+
  qed
  then show ?case by (simp add: Q_def)
qed

lemma parse_bounded:
  "parseNumber ts = Some (v, n) \<Longrightarrow> 0 \<le> v \<and> v \<le> 900000000000 * int n"
  unfolding parseNumber_def by (erule parse_loop_bounded) simp_all


text \<open>Two words of a number, spoken without a pause.\<close>

definition without_pause :: "core_word list" where
  "without_pause = [spoken_word ''dvadcatq'' 0, spoken_word ''pYtq'' 1]"

theorem russian_itn_joins_no_pause_witness:
  "\<exists>out gs. ITN_Apply id ruMatch without_pause = Inr (out, Some [2]) \<and> concat gs = without_pause
    \<and> [2] = map (\<lambda>g. int (length g)) gs"
proof -
  let ?ts = "map (token_of id) without_pause"
  have w: "trimPunct (cyr ''dvadcatq'') = (cyr ''dvadcatq'', [])" "trimPunct (cyr ''pYtq'') = (cyr ''pYtq'', [])"
    by (rule trimPunct_cyr; simp)+
  have t: "?ts = [\<lparr>tk_text = cyr ''dvadcatq'', tk_lower = cyr ''dvadcatq'', tk_start = 0, tk_end = 1\<rparr>,
      \<lparr>tk_text = cyr ''pYtq'', tk_lower = cyr ''pYtq'', tk_start = 1, tk_end = 2\<rparr>]"
    by (simp add: without_pause_def spoken_word_def demo_word_def token_of_def)
  have st: "num_steps (0, 0, False) [''dvadcatq'', ''pYtq''] = Some (0, 25, True)"
    using tens_words [rule_format, of 2] unit_words [rule_format, of 5 False] by (simp add: tens_word_def unit_word_def unit_form_def)
  have j: "successively itn_joins ?ts" unfolding t by (simp add: itn_joins_def MaxGap_def)
  have n: "parseNumber ?ts = Some (25, 2)"
    using parse_steps [OF st _ _ _ j, of None "[]" 0 0 False] w
    by (simp add: t parseNumber_def closeNumber_def plain_word_def del: parse_loop.simps(2))
  have plus: "cyr ''dvadcatq'' \<noteq> cyr ''plUs''" by (simp add: cyr_inj)
  have l: "\<not> has ruUnits (cyr ''dvadcatq'')" "has day_tens (cyr ''dvadcatq'')" "\<not> has ruCompoundDay (cyr ''pYtq'')"
    unfolding table_defs day_tens_def ruCompoundDay_def by code_simp+
  have "matchPhone ?ts = None" by (simp add: t matchPhone_def Let_def word_of_def w l plus)
  moreover have "matchTime ?ts = None" by (simp add: matchTime_def n)
  moreover have "matchDate ?ts = None"
    by (simp add: t matchDate_def parseDay_def Let_def word_of_def w l itn_joins_def MaxGap_def)
  moreover have "matchMoney ?ts = None" "matchPercent ?ts = None"
    by (simp_all add: matchMoney_def matchPercent_def n next_joined_def) (simp_all add: without_pause_def)
  moreover have "matchPlainNumber ?ts = Some (decimal 25, 2)"
    by (simp add: matchPlainNumber_def n) (simp add: t tail_of_def w)
  ultimately have m: "ruMatch ?ts = Some (decimal 25, 2)" by (simp add: ruMatch_def first_match_def) (simp add: without_pause_def)
  have len: "length without_pause = 2" by (simp add: without_pause_def)
  have "length (decimal 25) = 2" by code_simp
  moreover have "length (originalOf without_pause) = 13"
    by (simp add: originalOf_def without_pause_def spoken_word_def demo_word_def cyr_def)
  ultimately have ne: "decimal 25 \<noteq> originalOf without_pause" by auto
  have "rewrite_loop id ruMatch [] = ([], [], False)" by (subst rewrite_loop.simps) simp
  then have "rewrite_loop id ruMatch without_pause = ([rewritten without_pause (decimal 25)], [2], True)"
    by (subst rewrite_loop.simps) (use len in \<open>auto simp: m ne Let_def split: list.split\<close>)
  then have e: "ITN_Apply id ruMatch without_pause = Inr ([rewritten without_pause (decimal 25)], Some [2])"
    by (simp add: ITN_Apply_def Rewrite_def) (simp add: without_pause_def)
  from russian_itn_joins_no_pause [OF e] show ?thesis
    by (elim exE conjE) (intro exI conjI, rule e)
qed

definition pair_rule :: itn_rules where
  "pair_rule ts = (if length ts < 2 then None else Some ([50, 53], 2))"

theorem itn_rewrite_accounts_witness:
  "\<exists>out spans. ITN_Apply id pair_rule [demo_word 0 1, demo_word 1 2, demo_word 2 3] = Inr (out, spans)
    \<and> checkSpans 3 out spans"
  using itn_rewrite_accounts [of id pair_rule "[demo_word 0 1, demo_word 1 2, demo_word 2 3]"]
  by (elim exE conjE) (intro exI conjI, assumption, simp del: ex_simps split del: if_split add: numeral_3_eq_3)

end
