(* ===== verification/RateLimit.thy ===== *)
theory RateLimit
  imports Prelude
begin

section \<open>The per-key rate limiter (internal/httpx/ratelimit.go)\<close>

text \<open>
  A token bucket per API key, two seconds' worth deep. Instants are nanoseconds on the server's
  clock, tokens are reals; \<open>limits\<close> is the configured rate of each key. Each call of Allow is one
  critical section under the mutex.
\<close>

definition burstFactor :: real where "burstFactor = 2"

record bucket =
  tokens :: real
  last_seen :: int

type_synonym limiter = "string \<rightharpoonup> bucket"

definition capacity :: "real \<Rightarrow> real" where "capacity rate = rate * burstFactor"

definition seconds :: "int \<Rightarrow> real" where "seconds ns = real_of_int ns / 1000000000"

text \<open>The bucket a call works on: a fresh one is full; time that has passed tops it up.\<close>

definition topped :: "real \<Rightarrow> int \<Rightarrow> bucket option \<Rightarrow> bucket" where
  "topped rate now seen =
     (let b = (case seen of None \<Rightarrow> \<lparr>tokens = capacity rate, last_seen = now\<rparr> | Some b \<Rightarrow> b);
          elapsed = seconds (now - last_seen b)
      in if elapsed > 0
         then \<lparr>tokens = (if capacity rate < tokens b + elapsed * rate then capacity rate else tokens b + elapsed * rate),
               last_seen = now\<rparr>
         else b)"

definition advised_wait :: "real \<Rightarrow> real \<Rightarrow> int" where
  "advised_wait rate toks = \<lceil>(1 - toks) / rate * 1000\<rceil> * 1000000"

definition Allow :: "(string \<Rightarrow> real option) \<Rightarrow> limiter \<Rightarrow> string \<Rightarrow> int \<Rightarrow> limiter \<times> bool \<times> int" where
  "Allow limits st kid now =
     (case limits kid of
        None \<Rightarrow> (st, True, 0)
      | Some rate \<Rightarrow>
          if rate \<le> 0 then (st, True, 0)
          else
            let b = topped rate now (st kid) in
            if tokens b < 1 then (st(kid \<mapsto> b), False, advised_wait rate (tokens b))
            else (st(kid \<mapsto> b\<lparr>tokens := tokens b - 1\<rparr>), True, 0))"

definition Forget :: "limiter \<Rightarrow> string \<Rightarrow> limiter" where
  "Forget st kid = st(kid := None)"

definition retryAfterSeconds :: "int \<Rightarrow> int" where
  "retryAfterSeconds wait = (let s = \<lceil>seconds wait\<rceil> in if s < 1 then 1 else s)"

text \<open>The middleware: no key, no allowance to enforce. \<open>None\<close> lets the request through.\<close>

definition RateLimit :: "(string \<Rightarrow> real option) \<Rightarrow> limiter \<Rightarrow> string \<Rightarrow> int \<Rightarrow> limiter \<times> int option" where
  "RateLimit limits st kid now =
     (if kid = [] then (st, None)
      else case Allow limits st kid now of (st', ok, wait) \<Rightarrow> (st', if ok then None else Some (retryAfterSeconds wait)))"

subsection \<open>The bucket\<close>

definition bucket_ok :: "real \<Rightarrow> int \<Rightarrow> bucket option \<Rightarrow> bool" where
  "bucket_ok rate t1 seen \<longleftrightarrow>
     (case seen of None \<Rightarrow> True | Some b \<Rightarrow> 0 \<le> tokens b \<and> tokens b \<le> capacity rate \<and> last_seen b \<le> t1)"

text \<open>How many grants a bucket is still good for in a window from \<open>t0\<close> to \<open>t1\<close>: one that has idled
  since before the window may be full at its start, and no fuller.\<close>

definition allowance :: "real \<Rightarrow> int \<Rightarrow> int \<Rightarrow> bucket option \<Rightarrow> real" where
  "allowance rate t0 t1 seen =
     (case seen of None \<Rightarrow> capacity rate + rate * seconds (t1 - t0)
      | Some b \<Rightarrow> if last_seen b < t0 then capacity rate + rate * seconds (t1 - t0)
          else tokens b + rate * seconds (t1 - last_seen b))"

lemma seconds_mono: "a \<le> b \<Longrightarrow> seconds a \<le> seconds b"
  by (simp add: seconds_def divide_right_mono)

lemma seconds_diff: "seconds (a - b) = seconds a - seconds b"
  by (simp add: seconds_def diff_divide_distrib)

lemma topped_ok:
  assumes "0 < rate" "now \<le> t1" "bucket_ok rate t1 seen"
  shows "bucket_ok rate t1 (Some (topped rate now seen))"
  using assms by (auto simp: topped_def bucket_ok_def seconds_def capacity_def burstFactor_def Let_def split: option.splits)

lemma topped_allowance:
  assumes "0 < rate" "t0 \<le> now" "now \<le> t1" "bucket_ok rate t1 seen"
  shows "allowance rate t0 t1 (Some (topped rate now seen)) \<le> allowance rate t0 t1 seen"
proof -
  have late: "rate * seconds (t1 - now) \<le> rate * seconds (t1 - t0)"
    using assms(1,2) by (intro mult_left_mono seconds_mono) auto
  show ?thesis
  proof (cases seen)
    case None
    then show ?thesis using assms(2,3) late by (simp add: topped_def allowance_def seconds_def)
  next
    case (Some b)
    have e: "rate * seconds (t1 - last_seen b) = rate * seconds (t1 - now) + seconds (now - last_seen b) * rate"
      by (simp add: seconds_diff algebra_simps)
    have "0 < seconds (now - last_seen b)" if "last_seen b < t0" using that assms(2) by (simp add: seconds_def)
    then show ?thesis using Some assms(2-4) e late
      by (cases "0 < seconds (now - last_seen b)") (auto simp: topped_def bucket_ok_def allowance_def Let_def)
  qed
qed

lemma Allow_limited:
  "limits kid = Some rate \<Longrightarrow> 0 < rate \<Longrightarrow> Allow limits st kid now =
    (let b = topped rate now (st kid) in
     if tokens b < 1 then (st(kid \<mapsto> b), False, advised_wait rate (tokens b))
     else (st(kid \<mapsto> b\<lparr>tokens := tokens b - 1\<rparr>), True, 0))"
  by (simp add: Allow_def)

lemma Allow_other: "k \<noteq> kid \<Longrightarrow> fst (Allow limits st kid now) k = st k"
  by (auto simp: Allow_def Let_def split: option.split)

subsection \<open>Runs\<close>

text \<open>A run of calls, in the order the mutex serialises them: the answers.\<close>

fun allow_run :: "(string \<Rightarrow> real option) \<Rightarrow> limiter \<Rightarrow> (string \<times> int) list \<Rightarrow> (string \<times> bool) list" where
  "allow_run limits st [] = []"
| "allow_run limits st ((kid, now) # rs) =
     (case Allow limits st kid now of (st', ok, wait) \<Rightarrow> (kid, ok) # allow_run limits st' rs)"

fun after_run :: "(string \<Rightarrow> real option) \<Rightarrow> limiter \<Rightarrow> (string \<times> int) list \<Rightarrow> limiter" where
  "after_run limits st [] = st"
| "after_run limits st ((kid, now) # rs) = after_run limits (fst (Allow limits st kid now)) rs"

lemma allow_run_append:
  "allow_run limits st (as @ bs) = allow_run limits st as @ allow_run limits (after_run limits st as) bs"
  by (induction as arbitrary: st) (auto split: prod.split)

lemma length_allow_run [simp]: "length (allow_run limits st rs) = length rs"
  by (induction rs arbitrary: st) (auto split: prod.split)

definition granted :: "string \<Rightarrow> (string \<times> bool) list \<Rightarrow> nat" where
  "granted k answers = length (filter (\<lambda>a. a = (k, True)) answers)"

lemma Allow_ok:
  assumes "limits k = Some rate" "0 < rate" "bucket_ok rate t1 (st k)" "kid = k \<longrightarrow> now \<le> t1"
  shows "bucket_ok rate t1 (fst (Allow limits st kid now) k)"
proof (cases "kid = k")
  case True
  have "bucket_ok rate t1 (Some (topped rate now (st k)))" using assms True by (intro topped_ok) auto
  then show ?thesis
    using Allow_limited [where limits = limits and kid = k and st = st and now = now, OF assms(1,2)] True
    by (auto simp: Let_def bucket_ok_def)
qed (simp add: Allow_other assms(3))

lemma after_run_ok:
  assumes "limits k = Some rate" "0 < rate"
  shows "bucket_ok rate t1 (st k) \<Longrightarrow> \<forall>(kid, now)\<in>set rs. kid = k \<longrightarrow> now \<le> t1 \<Longrightarrow>
    bucket_ok rate t1 (after_run limits st rs k)"
proof (induction rs arbitrary: st)
  case (Cons r rs)
  then show ?case
    using Allow_ok [where limits = limits and k = k and st = st and kid = "fst r" and now = "snd r" and rate = rate, OF assms]
    by (cases r) auto
qed simp

lemma bucket_ok_mono: "bucket_ok rate t seen \<Longrightarrow> t \<le> t' \<Longrightarrow> bucket_ok rate t' seen"
  by (auto simp: bucket_ok_def split: option.splits)

lemma allow_run_bound:
  assumes "limits k = Some rate" "0 < rate" "t0 \<le> t1"
  shows "bucket_ok rate t1 (st k) \<Longrightarrow> \<forall>(kid, now)\<in>set rs. kid = k \<longrightarrow> t0 \<le> now \<and> now \<le> t1 \<Longrightarrow>
    real (granted k (allow_run limits st rs)) \<le> allowance rate t0 t1 (st k)"
proof (induction rs arbitrary: st)
  case Nil
  have "0 \<le> rate * seconds (t1 - last_seen b)" if "st k = Some b" for b
    using that Nil.prems assms(2) by (intro mult_nonneg_nonneg) (auto simp: bucket_ok_def seconds_def)
  moreover have "0 \<le> rate * seconds (t1 - t0)"
    using assms by (intro mult_nonneg_nonneg) (auto simp: seconds_def)
  ultimately show ?case using Nil.prems assms
    by (auto simp: granted_def allowance_def bucket_ok_def capacity_def burstFactor_def split: option.split)
next
  case (Cons r rs)
  obtain kid now where r: "r = (kid, now)" by (cases r)
  obtain st' ok wait where a: "Allow limits st kid now = (st', ok, wait)" by (metis prod_cases3)
  have rest: "\<forall>(kid, now)\<in>set rs. kid = k \<longrightarrow> t0 \<le> now \<and> now \<le> t1" using Cons.prems(2) by simp
  have ok': "bucket_ok rate t1 (st' k)"
    using Allow_ok [where limits = limits and k = k and st = st and kid = kid and now = now,
        OF assms(1,2) Cons.prems(1)] Cons.prems(2) a r by auto
  note IH = Cons.IH [where st = st', OF ok' rest]
  show ?case
  proof (cases "kid = k")
    case False
    then have "st' k = st k" using Allow_other [of k kid limits st now] a by simp
    then show ?thesis using IH False by (simp add: r a granted_def)
  next
    case True
    have now: "t0 \<le> now" "now \<le> t1" using Cons.prems(2) r True by auto
    define b where "b = topped rate now (st k)"
    note T = topped_allowance [OF assms(2) now Cons.prems(1), folded b_def]
    have late: "t0 \<le> last_seen b" using now by (auto simp: b_def topped_def seconds_def Let_def split: option.split)
    note A = Allow_limited [where limits = limits and kid = k and st = st and now = now, OF assms(1,2), folded b_def]
    show ?thesis
    proof (cases "tokens b < 1")
      case refused: True
      then have "st' k = Some b" "\<not> ok" using A a True by (auto simp: Let_def)
      then show ?thesis using T IH True by (simp add: r a [unfolded True] granted_def)
    next
      case False
      then have st': "st' k = Some (b\<lparr>tokens := tokens b - 1\<rparr>)" "ok" using A a True by (auto simp: Let_def)
      then have "allowance rate t0 t1 (st' k) = allowance rate t0 t1 (Some b) - 1"
        using late by (simp add: allowance_def)
      then show ?thesis using T IH st'(2) True by (simp add: r a [unfolded True] granted_def)
    qed
  qed
qed

text \<open>C31: a key never gets more than its allowance in any window. Take any run of requests of any keys
  since the server started, and in it any stretch of requests: if those of a key limited to
  \<open>rate\<close> per second fall between two instants, in any order, and its earlier ones before them,
  then at most two seconds' worth plus the rate times the length of the window are let through,
  however long the key had idled before the window.\<close>

theorem rate_limit_bound:
  assumes "limits k = Some rate" "0 < rate" "t0 \<le> t1" "\<forall>(kid, now)\<in>set earlier. kid = k \<longrightarrow> now \<le> t0"
    "\<forall>(kid, now)\<in>set rs. kid = k \<longrightarrow> t0 \<le> now \<and> now \<le> t1"
  shows "real (granted k (drop (length earlier) (allow_run limits Map.empty (earlier @ rs @ later))))
      - real (granted k (drop (length (earlier @ rs)) (allow_run limits Map.empty (earlier @ rs @ later))))
    \<le> 2 * rate + rate * (real_of_int (t1 - t0) / 1000000000)"
proof -
  let ?st = "after_run limits Map.empty earlier"
  have b: "bucket_ok rate t0 (?st k)"
    by (rule after_run_ok [where limits = limits and k = k, OF assms(1,2) _ assms(4)]) (simp add: bucket_ok_def)
  have "real (granted k (allow_run limits ?st rs)) \<le> allowance rate t0 t1 (?st k)"
    by (rule allow_run_bound [where limits = limits and k = k and st = ?st, OF assms(1-3) bucket_ok_mono [OF b assms(3)] assms(5)])
  also have "\<dots> \<le> capacity rate + rate * seconds (t1 - t0)"
    using b assms(2) by (auto simp: allowance_def bucket_ok_def split: option.splits)
  finally show ?thesis
    by (simp add: allow_run_append granted_def capacity_def burstFactor_def seconds_def)
qed

text \<open>A key that used its burst and then idled for an hour has two seconds' worth again, and no more.\<close>

theorem rate_limit_bound_witness:
  "real (granted ''k'' (drop 2 (allow_run (\<lambda>_. Some 1) Map.empty
      ([(''k'', 0), (''k'', 0)] @ replicate 4 (''k'', 3600000000000))))) \<le> 2"
  using rate_limit_bound [of "\<lambda>_. Some 1" "''k''" 1 3600000000000 3600000000000 "[(''k'', 0), (''k'', 0)]"
      "replicate 4 (''k'', 3600000000000)" "[]"]
  by (simp add: granted_def numeral_2_eq_2 del: allow_run.simps)

lemma topped_later:
  assumes "0 < rate" "tokens b < 1" "1 \<le> capacity rate" "last_seen b \<le> now"
    "last_seen b + advised_wait rate (tokens b) \<le> now"
  shows "1 \<le> tokens (topped rate now (Some b))"
proof -
  define e where "e = seconds (now - last_seen b)"
  have pos: "0 < (1 - tokens b) / rate" using assms(1,2) by simp
  have "(1 - tokens b) / rate * 1000 \<le> real_of_int \<lceil>(1 - tokens b) / rate * 1000\<rceil>" by (rule le_of_int_ceiling)
  also have "\<dots> = real_of_int (advised_wait rate (tokens b)) / 1000000" by (simp add: advised_wait_def)
  also have "\<dots> \<le> real_of_int (now - last_seen b) / 1000000"
    using assms(5) by (intro divide_right_mono) auto
  also have "\<dots> = 1000 * e" by (simp add: e_def seconds_def)
  finally have "(1 - tokens b) / rate * 1000 \<le> e * 1000" by (simp add: mult.commute)
  then have e: "(1 - tokens b) / rate \<le> e" by (rule mult_right_le_imp_le) simp
  then have "1 - tokens b \<le> e * rate" using assms(1) by (simp add: pos_divide_le_eq)
  moreover have "0 < e" using pos e by linarith
  ultimately show ?thesis using assms(3) by (simp add: topped_def e_def [symmetric])
qed

text \<open>C32: the advised wait is long enough, and only a rate below one request in two seconds is
  never served. A key that is refused and tries again after the wait it was told, having made no
  request in between, is let through if its rate is at least 1/2; a key whose positive rate is
  below 1/2 is refused on every request, the first one included.\<close>

theorem refused_then_served:
  assumes "limits k = Some rate" "0 < rate"
  shows "(1 / 2 \<le> rate \<longrightarrow> Allow limits st k now = (st', False, wait) \<longrightarrow>
      (\<forall>b. st k = Some b \<longrightarrow> last_seen b \<le> now) \<longrightarrow> now + wait \<le> later \<longrightarrow> st'' k = st' k \<longrightarrow>
      fst (snd (Allow limits st'' k later)))
    \<and> (rate < 1 / 2 \<longrightarrow> st k = None \<or> (\<exists>b. st k = Some b \<and> tokens b \<le> 2 * rate) \<longrightarrow>
      \<not> fst (snd (Allow limits st k now)))"
proof (intro conjI impI)
  assume r: "1 / 2 \<le> rate" and a: "Allow limits st k now = (st', False, wait)"
    and past: "\<forall>b. st k = Some b \<longrightarrow> last_seen b \<le> now" and later: "now + wait \<le> later" and same: "st'' k = st' k"
  define b where "b = topped rate now (st k)"
  note A = Allow_limited [where limits = limits and kid = k and st = st and now = now, OF assms, folded b_def]
  have b: "tokens b < 1" "st' = st(k \<mapsto> b)" "wait = advised_wait rate (tokens b)"
    using a A by (auto simp: Let_def split: if_splits)
  have cap: "1 \<le> capacity rate" using r by (simp add: capacity_def burstFactor_def)
  have "last_seen b = now \<or> last_seen b \<le> now"
    using past by (auto simp: b_def topped_def Let_def split: option.split)
  then have seen: "last_seen b \<le> now" by auto
  have "0 \<le> (1 - tokens b) / rate * 1000" using b(1) assms(2) by simp
  from ceiling_mono [OF this] have "0 \<le> wait" by (simp add: b(3) advised_wait_def)
  then have "1 \<le> tokens (topped rate later (Some b))"
    using topped_later [OF assms(2) b(1) cap, of later] seen later b(3) by linarith
  then show "fst (snd (Allow limits st'' k later))"
    using Allow_limited [where limits = limits and kid = k and st = st'' and now = later, OF assms] same b(2) by (simp add: Let_def)
next
  assume r: "rate < 1 / 2" and b: "st k = None \<or> (\<exists>b. st k = Some b \<and> tokens b \<le> 2 * rate)"
  have "tokens (topped rate now (st k)) < 1"
    using r b by (auto simp: topped_def capacity_def burstFactor_def Let_def split: option.split)
  then show "\<not> fst (snd (Allow limits st k now))" using Allow_limited [where limits = limits and kid = k and st = st and now = now, OF assms] by (simp add: Let_def)
qed

theorem refused_then_served_witness:
  "fst (snd (Allow (\<lambda>_. Some 1) [''k'' \<mapsto> \<lparr>tokens = 0, last_seen = 0\<rparr>] ''k'' 1000000000))"
proof -
  let ?st = "[''k'' \<mapsto> \<lparr>tokens = 0, last_seen = 0\<rparr>]"
  have a: "Allow (\<lambda>_. Some 1) ?st ''k'' 0 = (?st, False, 1000000000)"
    by (simp add: Allow_def topped_def seconds_def advised_wait_def)
  show ?thesis
    using refused_then_served [of "\<lambda>_. Some 1" "''k''" 1, THEN conjunct1, rule_format, OF refl _ _ a,
      of 1000000000 ?st] by simp
qed

end
