(* ===== verification/HttpAuth.thy ===== *)
theory HttpAuth
  imports Base64
begin

section \<open>Who a request is from (internal/httpx)\<close>

text \<open>
  API keys, media tickets, the authentication and authorisation layers, the host check and the
  frames of an event stream. Strings are the bytes of the header fields, all ASCII. SHA-256 and
  HMAC-SHA-256 under the process's secret are parameters. A handler that is reached is a value of
  \<open>auth_result\<close>; the context carries the caller it names.
\<close>

definition trim_ascii :: "string \<Rightarrow> string" where
  "trim_ascii s = rev (dropWhile (\<lambda>c. is_space (of_char c)) (rev (dropWhile (\<lambda>c. is_space (of_char c)) s)))"

definition lower_ascii :: "string \<Rightarrow> string" where
  "lower_ascii = map (\<lambda>c. let n = of_char c :: nat in if 65 \<le> n \<and> n \<le> 90 then char_of (n + 32) else c)"

text \<open>strings.CutPrefix: what follows the prefix.\<close>

definition cut_prefix :: "string \<Rightarrow> string \<Rightarrow> string option" where
  "cut_prefix p s = (if take (length p) s = p then Some (drop (length p) s) else None)"

subsection \<open>Hexadecimal (encoding/hex)\<close>

definition hex_char :: "nat \<Rightarrow> char" where
  "hex_char v = char_of (if v < 10 then 48 + v else 87 + v)"

definition hex_val :: "char \<Rightarrow> nat option" where
  "hex_val ch = (let c = of_char ch :: nat in
     if 48 \<le> c \<and> c \<le> 57 then Some (c - 48) else if 97 \<le> c \<and> c \<le> 102 then Some (c - 87)
     else if 65 \<le> c \<and> c \<le> 70 then Some (c - 55) else None)"

definition hex_encode :: "string \<Rightarrow> string" where
  "hex_encode s = concat (map (\<lambda>c. let b = of_char c :: nat in [hex_char (b div 16), hex_char (b mod 16)]) s)"

fun hex_decode :: "string \<Rightarrow> string option" where
  "hex_decode [] = Some []"
| "hex_decode [_] = None"
| "hex_decode (a # b # cs) =
     (case (hex_val a, hex_val b) of
        (Some x, Some y) \<Rightarrow> map_option ((#) (char_of (x * 16 + y))) (hex_decode cs)
      | _ \<Rightarrow> None)"

subsection \<open>Keys (keys.go)\<close>

record key_spec =
  ks_name :: string
  ks_secret :: string
  ks_admin :: bool
  ks_rps :: real
  ks_interactive :: bool

record api_key =
  k_id :: string
  k_name :: string
  k_admin :: bool
  k_rps :: real
  k_interactive :: bool
  k_digest :: string

datatype key_error = NoValue nat string | NotHex | WrongDigestSize nat | TooShort nat | Duplicate string string

definition parseSecret :: "(string \<Rightarrow> string) \<Rightarrow> string \<Rightarrow> key_error + string" where
  "parseSecret sha secret =
     (case cut_prefix ''sha256:'' secret of
        Some rest \<Rightarrow>
          (case hex_decode (trim_ascii rest) of
             None \<Rightarrow> Inl NotHex
           | Some raw \<Rightarrow> if length raw \<noteq> 32 then Inl (WrongDigestSize (length raw)) else Inr raw)
      | None \<Rightarrow> if length secret < 16 then Inl (TooShort (length secret)) else Inr (sha secret))"

text \<open>The specs from index \<open>i\<close> on; \<open>seen\<close> maps the ids taken to the names that took them.\<close>

fun add_keys ::
  "(string \<Rightarrow> string) \<Rightarrow> nat \<Rightarrow> (string \<rightharpoonup> string) \<Rightarrow> key_spec list \<Rightarrow> key_error + api_key list" where
  "add_keys sha i seen [] = Inr []"
| "add_keys sha i seen (spec # specs) =
     (let secret = trim_ascii (ks_secret spec) in
      if secret = [] then Inl (NoValue i (ks_name spec))
      else case parseSecret sha secret of
        Inl e \<Rightarrow> Inl e
      | Inr digest \<Rightarrow>
          let kid = hex_encode (take 4 digest) in
          (case seen kid of
             Some prev \<Rightarrow> Inl (Duplicate (ks_name spec) prev)
           | None \<Rightarrow>
               let name = (if ks_name spec = [] then ''key-'' @ kid else ks_name spec) in
               map_sum (\<lambda>e. e) ((#) \<lparr>k_id = kid, k_name = name, k_admin = ks_admin spec, k_rps = ks_rps spec,
                   k_interactive = ks_interactive spec, k_digest = digest\<rparr>)
                 (add_keys sha (Suc i) (seen(kid \<mapsto> ks_name spec)) specs)))"

definition NewStaticKeyStore :: "(string \<Rightarrow> string) \<Rightarrow> key_spec list \<Rightarrow> key_error + api_key list" where
  "NewStaticKeyStore sha specs = add_keys sha 0 Map.empty specs"

text \<open>Every key is compared; the last that matches wins.\<close>

definition key_Verify :: "(string \<Rightarrow> string) \<Rightarrow> api_key list \<Rightarrow> string \<Rightarrow> string option" where
  "key_Verify sha keys token =
     fold (\<lambda>k match. if sha token = k_digest k then Some (k_id k) else match) keys None"

definition key_Lookup :: "api_key list \<Rightarrow> string \<Rightarrow> api_key option" where
  "key_Lookup keys kid = find (\<lambda>k. k_id k = kid) keys"

definition key_Names :: "api_key list \<Rightarrow> string list" where
  "key_Names keys = map (\<lambda>k. k_name k @ ''/'' @ k_id k @ (if k_admin k then '' (admin)'' else [])) keys"

definition key_Hash :: "(string \<Rightarrow> string) \<Rightarrow> string \<Rightarrow> string" where
  "key_Hash sha secret = ''sha256:'' @ hex_encode (sha secret)"

subsection \<open>Tickets (tickets.go)\<close>

text \<open>\<open>hmac\<close> is HMAC-SHA-256 under the secret made at start. Instants are nanoseconds since 1970.\<close>

definition ticket_mac :: "(string \<Rightarrow> string) \<Rightarrow> string \<Rightarrow> string \<Rightarrow> string" where
  "ticket_mac hmac path payload = b64_encode (take 16 (hmac (path @ [CHR 0x00] @ payload)))"

definition ticket_payload :: "int \<Rightarrow> string \<Rightarrow> string" where
  "ticket_payload expires kid = FormatInt expires @ ''.'' @ b64_encode kid"

text \<open>The ticket for a path and the second it expires; the URL it is put into has it as the query
  parameter \<open>ticket\<close>.\<close>

definition ticket_Sign :: "(string \<Rightarrow> string) \<Rightarrow> int \<Rightarrow> int \<Rightarrow> string \<Rightarrow> string \<Rightarrow> string \<times> int" where
  "ticket_Sign hmac ttl now kid path =
     (let expires = (now + ttl) div 1000000000; payload = ticket_payload expires kid
      in (payload @ ''.'' @ ticket_mac hmac path payload, expires))"

definition ticket_url :: "string \<Rightarrow> string \<Rightarrow> string" where
  "ticket_url path ticket = path @ (if CHR ''?'' \<in> set path then ''&'' else ''?'') @ ''ticket='' @ ticket"

record http_request =
  hr_method :: string
  hr_path :: string
  hr_authorization :: string
  hr_upgrade :: string
  hr_ws_protocol :: string
  hr_ticket :: string
  hr_host :: string

definition ticket_verify :: "(string \<Rightarrow> string) option \<Rightarrow> int \<Rightarrow> http_request \<Rightarrow> string option" where
  "ticket_verify tickets now r =
     (case tickets of None \<Rightarrow> None
      | Some hmac \<Rightarrow>
        if hr_method r \<noteq> ''GET'' \<and> hr_method r \<noteq> ''HEAD'' then None
        else (case split_on CHR ''.'' (hr_ticket r) of
          [expires, owner, mac] \<Rightarrow>
            if mac \<noteq> ticket_mac hmac (hr_path r) (expires @ ''.'' @ owner) then None
            else (case ParseInt expires of None \<Rightarrow> None
              | Some e \<Rightarrow> if now > e * 1000000000 then None else b64_decode owner)
        | _ \<Rightarrow> None))"

subsection \<open>The middleware (middleware.go)\<close>

definition trim_suffix_slash :: "string \<Rightarrow> string" where
  "trim_suffix_slash p = (if p \<noteq> [] \<and> last p = CHR ''/'' then butlast p else p)"

definition isPublicPath :: "string \<Rightarrow> string list \<Rightarrow> bool" where
  "isPublicPath path prefixes =
     list_ex (\<lambda>p. if p = ''/'' then path = ''/''
        else let q = trim_suffix_slash p in
          q \<noteq> [] \<and> (path = q \<or> take (Suc (length q)) path = q @ ''/'')) prefixes"

definition bearer :: "string \<Rightarrow> string" where
  "bearer h = (if length h \<le> 7 \<or> lower_ascii (take 7 h) \<noteq> ''bearer '' then [] else trim_ascii (drop 7 h))"

definition websocketToken :: "http_request \<Rightarrow> string" where
  "websocketToken r =
     (if lower_ascii (hr_upgrade r) \<noteq> ''websocket'' then []
      else case List.map_filter (\<lambda>f. cut_prefix ''openai-insecure-api-key.'' (trim_ascii f))
          (split_on CHR '','' (hr_ws_protocol r)) of
        [] \<Rightarrow> [] | t # _ \<Rightarrow> t)"

record caller =
  c_key :: string
  c_admin :: bool
  c_interactive :: bool

datatype auth_result = Public | Unauthorized | Admitted caller

definition request_token :: "http_request \<Rightarrow> string" where
  "request_token r = (if bearer (hr_authorization r) = [] then websocketToken r else bearer (hr_authorization r))"

definition identify ::
  "(string \<Rightarrow> string) \<Rightarrow> api_key list \<Rightarrow> (string \<Rightarrow> string) option \<Rightarrow> int \<Rightarrow> http_request \<Rightarrow> string option" where
  "identify sha keys tickets now r =
     (if request_token r \<noteq> [] then key_Verify sha keys (request_token r)
      else case ticket_verify tickets now r of
        None \<Rightarrow> None | Some kid \<Rightarrow> (case key_Lookup keys kid of None \<Rightarrow> None | Some _ \<Rightarrow> Some kid))"

definition Auth ::
  "(string \<Rightarrow> string) \<Rightarrow> api_key list \<Rightarrow> (string \<Rightarrow> string) option \<Rightarrow> string list \<Rightarrow> int \<Rightarrow> http_request \<Rightarrow> auth_result" where
  "Auth sha keys tickets prefixes now r =
     (if isPublicPath (hr_path r) prefixes then Public
      else case identify sha keys tickets now r of
        None \<Rightarrow> Unauthorized
      | Some kid \<Rightarrow>
          Admitted (case key_Lookup keys kid of
              None \<Rightarrow> \<lparr>c_key = kid, c_admin = False, c_interactive = False\<rparr>
            | Some k \<Rightarrow> \<lparr>c_key = kid, c_admin = k_admin k, c_interactive = k_interactive k\<rparr>))"

text \<open>Without a caller in the context (open mode) the request is an administrator's.\<close>

definition CallerOf :: "caller option \<Rightarrow> caller" where
  "CallerOf ctx = (case ctx of Some c \<Rightarrow> c | None \<Rightarrow> \<lparr>c_key = [], c_admin = True, c_interactive = True\<rparr>)"

definition RequireAdmin :: "caller option \<Rightarrow> bool" where
  "RequireAdmin ctx = c_admin (CallerOf ctx)"

definition RequireHost :: "string list \<Rightarrow> http_request \<Rightarrow> bool" where
  "RequireHost hosts r = (lower_ascii (hr_host r) \<in> set (map lower_ascii hosts))"

definition JoinHostPort :: "string \<Rightarrow> string \<Rightarrow> string" where
  "JoinHostPort host port = (if CHR '':'' \<in> set host then ''['' @ host @ '']:'' @ port else host @ '':'' @ port)"

definition LoopbackHosts :: "string \<Rightarrow> string list" where
  "LoopbackHosts port = [JoinHostPort ''127.0.0.1'' port, JoinHostPort ''localhost'' port, JoinHostPort ''::1'' port]"

text \<open>Middleware is applied so that the first of the list is the outermost.\<close>

definition http_Chain :: "'h \<Rightarrow> ('h \<Rightarrow> 'h) list \<Rightarrow> 'h" where
  "http_Chain h mw = foldr (\<lambda>m acc. m acc) mw h"

subsection \<open>Event streams (sse.go)\<close>

definition sse_frame :: "string \<Rightarrow> string \<Rightarrow> string \<Rightarrow> string" where
  "sse_frame ident name body =
     (if ident \<noteq> [] then ''id: '' @ ident @ [CHR 0x0A] else [])
     @ (if name \<noteq> [] then ''event: '' @ name @ [CHR 0x0A] else [])
     @ concat (map (\<lambda>line. ''data: '' @ line @ [CHR 0x0A]) (split_on CHR 0x0A body))
     @ [CHR 0x0A]"

definition sse_comment :: "string \<Rightarrow> string" where
  "sse_comment txt = '': '' @ txt @ [CHR 0x0A, CHR 0x0A]"

definition LastEventID :: "string \<Rightarrow> string \<Rightarrow> int" where
  "LastEventID header query =
     (case ParseInt (trim_ascii (if header = [] then query else header)) of
        None \<Rightarrow> 0 | Some n \<Rightarrow> if n < 0 then 0 else n)"

subsection \<open>The keys of a store are told apart\<close>

lemma add_keys_ids:
  "add_keys sha i seen specs = Inr keys \<Longrightarrow>
    distinct (map k_id keys) \<and> (\<forall>k\<in>set keys. seen (k_id k) = None \<and> k_id k = hex_encode (take 4 (k_digest k)))"
proof (induction sha i seen specs arbitrary: keys rule: add_keys.induct)
  case (2 sha i seen spec specs)
  let ?secret = "trim_ascii (ks_secret spec)"
  obtain digest where d: "?secret \<noteq> []" "parseSecret sha ?secret = Inr digest"
    using "2.prems" by (auto simp: Let_def split: if_splits sum.splits)
  define kid where "kid = hex_encode (take 4 digest)"
  have fresh: "seen kid = None"
    using "2.prems" d by (auto simp: Let_def kid_def split: option.splits)
  obtain ks where ks: "add_keys sha (Suc i) (seen(kid \<mapsto> ks_name spec)) specs = Inr ks"
    and keys: "\<exists>k. keys = k # ks \<and> k_id k = kid \<and> k_digest k = digest"
    using "2.prems" d fresh by (cases "add_keys sha (Suc i) (seen(kid \<mapsto> ks_name spec)) specs")
      (auto simp: Let_def kid_def)
  have "distinct (map k_id ks) \<and>
      (\<forall>k\<in>set ks. (seen(kid \<mapsto> ks_name spec)) (k_id k) = None \<and> k_id k = hex_encode (take 4 (k_digest k)))"
    using "2.IH" [OF refl d(1) d(2) kid_def fresh refl ks] .
  then show ?case using keys fresh by (auto simp: kid_def split: if_splits)
qed simp

lemma verify_member: "key_Verify sha keys token = Some kid \<Longrightarrow> \<exists>k\<in>set keys. k_id k = kid \<and> sha token = k_digest k"
proof -
  have "fold (\<lambda>k match. if sha token = k_digest k then Some (k_id k) else match) keys m = Some kid \<Longrightarrow>
      m = Some kid \<or> (\<exists>k\<in>set keys. k_id k = kid \<and> sha token = k_digest k)" for m
    by (induction keys arbitrary: m) (fastforce split: if_splits)+
  then show "key_Verify sha keys token = Some kid \<Longrightarrow> ?thesis" unfolding key_Verify_def by blast
qed

lemma lookup_unique: "distinct (map k_id keys) \<Longrightarrow> k \<in> set keys \<Longrightarrow> key_Lookup keys (k_id k) = Some k"
  by (induction keys) (auto simp: key_Lookup_def rev_image_eqI)

lemma lookup_member: "key_Lookup keys kid = Some k \<Longrightarrow> k \<in> set keys \<and> k_id k = kid"
  by (auto simp: key_Lookup_def find_Some_iff)

lemma verify_known:
  assumes "NewStaticKeyStore sha specs = Inr keys" "k \<in> set keys" "sha token = k_digest k"
  shows "key_Verify sha keys token = Some (k_id k)"
proof -
  note ids = add_keys_ids [OF assms(1) [unfolded NewStaticKeyStore_def]]
  have "fold (\<lambda>k match. if sha token = k_digest k then Some (k_id k) else match) ks m
      = (if \<exists>x\<in>set ks. sha token = k_digest x then Some (k_id k) else m)" if "set ks \<subseteq> set keys" for ks m
    using that
  proof (induction ks arbitrary: m)
    case (Cons x ks)
    have "k_id x = k_id k" if "sha token = k_digest x"
      using that assms(2,3) ids Cons.prems by simp
    with Cons show ?case by auto
  qed simp
  with assms(2,3) show ?thesis unfolding key_Verify_def by auto
qed

lemma split_three: "split_on c s = [x, y, z] \<Longrightarrow> s = x @ [c] @ y @ [c] @ z"
  using join_split_on [of c s] by simp

lemma ticket_verify_Some:
  assumes "ticket_verify tickets now r = Some kid"
  shows "\<exists>hmac e owner t. tickets = Some hmac \<and> hr_method r \<in> {''GET'', ''HEAD''}
    \<and> hr_ticket r = e @ ''.'' @ owner @ ''.'' @ ticket_mac hmac (hr_path r) (e @ ''.'' @ owner)
    \<and> b64_decode owner = Some kid \<and> ParseInt e = Some t \<and> now \<le> t * 1000000000"
proof -
  obtain hmac where h: "tickets = Some hmac" "hr_method r \<in> {''GET'', ''HEAD''}"
    using assms by (auto simp: ticket_verify_def split: option.splits if_splits)
  obtain e owner mac where s: "split_on CHR ''.'' (hr_ticket r) = [e, owner, mac]"
    using assms h by (auto simp: ticket_verify_def split: list.splits if_splits)
  with assms h have "mac = ticket_mac hmac (hr_path r) (e @ ''.'' @ owner)" "b64_decode owner = Some kid"
    "\<exists>t. ParseInt e = Some t \<and> now \<le> t * 1000000000"
    by (auto simp: ticket_verify_def split: option.splits if_splits)
  with h split_three [OF s] show ?thesis by auto
qed

lemma ticket_verify_parts:
  assumes "ticket_verify (Some hmac) now r \<noteq> None"
  shows "\<exists>e owner k i. hr_ticket r = e @ ''.'' @ owner @ ''.'' @ ticket_mac hmac (hr_path r) (e @ ''.'' @ owner)
    \<and> split_on CHR ''.'' (hr_ticket r) = [e, owner, ticket_mac hmac (hr_path r) (e @ ''.'' @ owner)]
    \<and> b64_decode owner = Some k \<and> ParseInt e = Some i"
proof -
  obtain e owner mac where s: "split_on CHR ''.'' (hr_ticket r) = [e, owner, mac]"
    using assms by (auto simp: ticket_verify_def split: list.splits if_splits)
  with assms have "mac = ticket_mac hmac (hr_path r) (e @ ''.'' @ owner)" "\<exists>k. b64_decode owner = Some k" "\<exists>i. ParseInt e = Some i"
    by (auto simp: ticket_verify_def split: option.splits if_splits)
  with s split_three [OF s] show ?thesis by auto
qed

text \<open>C33: nobody is admitted who is not a key's holder. Behind the authentication layer of a store
  built from the configuration, a request that is let through as a caller is let through as exactly
  one configured key, with that key's rights; and either its bearer (or WebSocket) token hashes to
  the key's digest, or it carries no token, reads, and has an unexpired ticket whose signature is
  the server's for this very path and that key. Conversely a token that hashes to a key's digest
  is admitted as that key.\<close>

theorem auth_admits_only_known_keys:
  assumes "NewStaticKeyStore sha specs = Inr keys" "\<not> isPublicPath (hr_path r) prefixes"
  shows "(Auth sha keys tickets prefixes now r = Admitted c \<longrightarrow>
      (\<exists>k\<in>set keys. c = \<lparr>c_key = k_id k, c_admin = k_admin k, c_interactive = k_interactive k\<rparr>
        \<and> (if request_token r \<noteq> [] then sha (request_token r) = k_digest k
           else \<exists>hmac e owner t. tickets = Some hmac \<and> hr_method r \<in> {''GET'', ''HEAD''}
             \<and> hr_ticket r = e @ ''.'' @ owner @ ''.'' @ ticket_mac hmac (hr_path r) (e @ ''.'' @ owner)
             \<and> b64_decode owner = Some (k_id k) \<and> ParseInt e = Some t \<and> now \<le> t * 1000000000)))
    \<and> (\<forall>k\<in>set keys. request_token r \<noteq> [] \<and> sha (request_token r) = k_digest k \<longrightarrow>
        Auth sha keys tickets prefixes now r =
          Admitted \<lparr>c_key = k_id k, c_admin = k_admin k, c_interactive = k_interactive k\<rparr>)"
proof (intro conjI impI ballI)
  note ids = add_keys_ids [OF assms(1) [unfolded NewStaticKeyStore_def]]
  assume a: "Auth sha keys tickets prefixes now r = Admitted c"
  then obtain kid where kid: "identify sha keys tickets now r = Some kid"
    using assms(2) by (auto simp: Auth_def split: option.splits)
  have c: "c = \<lparr>c_key = k_id k, c_admin = k_admin k, c_interactive = k_interactive k\<rparr>"
    if "k \<in> set keys" "k_id k = kid" for k
    using a assms(2) kid that lookup_unique [OF ids [THEN conjunct1] that(1)] by (simp add: Auth_def)
  show "\<exists>k\<in>set keys. c = \<lparr>c_key = k_id k, c_admin = k_admin k, c_interactive = k_interactive k\<rparr>
        \<and> (if request_token r \<noteq> [] then sha (request_token r) = k_digest k
           else \<exists>hmac e owner t. tickets = Some hmac \<and> hr_method r \<in> {''GET'', ''HEAD''}
             \<and> hr_ticket r = e @ ''.'' @ owner @ ''.'' @ ticket_mac hmac (hr_path r) (e @ ''.'' @ owner)
             \<and> b64_decode owner = Some (k_id k) \<and> ParseInt e = Some t \<and> now \<le> t * 1000000000)"
  proof (cases "request_token r = []")
    case False
    with kid verify_member [of sha keys "request_token r" kid]
    obtain k where "k \<in> set keys" "k_id k = kid" "sha (request_token r) = k_digest k" by (auto simp: identify_def)
    then show ?thesis using c False by (intro bexI [of _ k]) auto
  next
    case True
    then have t: "ticket_verify tickets now r = Some kid" and "key_Lookup keys kid \<noteq> None"
      using kid by (auto simp: identify_def split: option.splits)
    then obtain k where k: "k \<in> set keys" "k_id k = kid" using lookup_member by blast
    then show ?thesis using c True ticket_verify_Some [OF t] by (intro bexI [of _ k]) simp_all
  qed
next
  note ids = add_keys_ids [OF assms(1) [unfolded NewStaticKeyStore_def]]
  fix k assume k: "k \<in> set keys" and t: "request_token r \<noteq> [] \<and> sha (request_token r) = k_digest k"
  then have "identify sha keys tickets now r = Some (k_id k)"
    using verify_known [OF assms(1)] by (simp add: identify_def)
  then show "Auth sha keys tickets prefixes now r =
      Admitted \<lparr>c_key = k_id k, c_admin = k_admin k, c_interactive = k_interactive k\<rparr>"
    using assms(2) lookup_unique [OF ids [THEN conjunct1] k] by (simp add: Auth_def)
qed

definition demo_sha :: "string \<Rightarrow> string" where
  "demo_sha s = take 32 (s @ replicate 32 CHR ''0'')"

definition demo_specs :: "key_spec list" where
  "demo_specs = [\<lparr>ks_name = ''ops'', ks_secret = ''0123456789abcdef'', ks_admin = True, ks_rps = 0, ks_interactive = False\<rparr>]"

definition demo_request :: "string \<Rightarrow> string \<Rightarrow> string \<Rightarrow> http_request" where
  "demo_request path auth ticket = \<lparr>hr_method = ''GET'', hr_path = path, hr_authorization = auth, hr_upgrade = [],
     hr_ws_protocol = [], hr_ticket = ticket, hr_host = []\<rparr>"

theorem auth_admits_only_known_keys_witness:
  "\<exists>keys k. NewStaticKeyStore demo_sha demo_specs = Inr keys \<and> k \<in> set keys \<and> k_name k = ''ops'' \<and>
     Auth demo_sha keys None [''/ui''] 0 (demo_request ''/v1'' ''Bearer 0123456789abcdef'' []) =
       Admitted \<lparr>c_key = k_id k, c_admin = True, c_interactive = False\<rparr>"
proof -
  let ?r = "demo_request ''/v1'' ''Bearer 0123456789abcdef'' []"
  let ?k = "\<lparr>k_id = ''30313233'', k_name = ''ops'', k_admin = True, k_rps = 0, k_interactive = False,
    k_digest = demo_sha ''0123456789abcdef''\<rparr>"
  have t: "trim_ascii ''0123456789abcdef'' = ''0123456789abcdef''" by (simp add: trim_ascii_def is_space_def)
  have i: "hex_encode (take 4 (demo_sha ''0123456789abcdef'')) = ''30313233''" by code_simp
  have p: "parseSecret demo_sha ''0123456789abcdef'' = Inr (demo_sha ''0123456789abcdef'')" by code_simp
  have s: "NewStaticKeyStore demo_sha demo_specs = Inr [?k]"
    by (simp add: NewStaticKeyStore_def demo_specs_def Let_def t p i)
  have pub: "\<not> isPublicPath (hr_path ?r) [''/ui'']" by code_simp
  have b: "char_of (98 :: nat) = CHR ''b''" by code_simp
  have tok: "request_token ?r = ''0123456789abcdef''"
    by (simp add: request_token_def bearer_def demo_request_def lower_ascii_def Let_def t b)
  from auth_admits_only_known_keys [OF s pub, of None 0, THEN conjunct2] tok
  have "Auth demo_sha [?k] None [''/ui''] 0 ?r = Admitted \<lparr>c_key = ''30313233'', c_admin = True, c_interactive = False\<rparr>"
    by simp
  with s show ?thesis by auto
qed

text \<open>The message a ticket's signature covers ends in the ticket's own fields, which hold no NUL, so the path
  in front of them can be told.\<close>

lemma ParseInt_no_nul: "ParseInt e = Some t \<Longrightarrow> CHR 0x00 \<notin> set e"
proof
  assume p: "ParseInt e = Some t" and n: "CHR 0x00 \<in> set e"
  then show False
    by (cases e) (auto simp: ParseInt_def Let_def is_digit_def list_all_iff split: if_splits)
qed

lemma all_some_Some: "all_some xs = Some ys \<Longrightarrow> None \<notin> set xs"
  by (induction xs arbitrary: ys rule: all_some.induct) auto

lemma b64_decode_no_nul: "b64_decode s = Some x \<Longrightarrow> CHR 0x00 \<notin> set s"
proof
  assume d: "b64_decode s = Some x" and n: "CHR 0x00 \<in> set s"
  have "b64_val CHR 0x00 = None" by (simp add: b64_val_def)
  moreover have "None \<notin> set (map b64_val (filter (\<lambda>c. c \<noteq> CHR 0x0D \<and> c \<noteq> CHR 0x0A) s))"
    using d by (auto simp: b64_decode_def split: option.splits dest!: all_some_Some)
  ultimately show False using n by force
qed

lemma last_sep_unique:
  assumes "p @ [c] @ x = q @ [c] @ y" "c \<notin> set x" "c \<notin> set y"
  shows "p = q \<and> x = y"
proof -
  have rev: "takeWhile (\<lambda>a. a \<noteq> c) (rev (p @ [c] @ x)) = rev x" if "c \<notin> set x" for p x
    using that by (simp, subst takeWhile_append2) auto
  have "rev x = rev y" unfolding rev [OF assms(2), of p, symmetric] rev [OF assms(3), of q, symmetric] assms(1) ..
  then show ?thesis using assms(1) by simp
qed

text \<open>C34: a ticket opens what it was made for, for as long as it was made for, and nothing else. The
  ticket signed for a path and a key verifies for that path and yields that key until the second it
  expires and not after it, for reads only. And if no other message has the truncated HMAC of the
  path, a NUL and the ticket's expiry and owner, then a request carrying that signature verifies
  only if its path is the one signed and its whole ticket the one signed: the signature cannot be
  moved to another path, a later expiry or another key.\<close>

theorem ticket_opens_its_path:
  assumes "ticket_Sign hmac ttl now0 kid path = (ticket, expires)" "- (2 ^ 63) \<le> expires" "expires < 2 ^ 63"
  shows "(hr_ticket r = ticket \<and> hr_path r = path \<longrightarrow> ticket_verify (Some hmac) now r =
      (if hr_method r \<in> {''GET'', ''HEAD''} \<and> now \<le> expires * 1000000000 then Some kid else None))
    \<and> ((\<forall>m. take 16 (hmac m) = take 16 (hmac (path @ [CHR 0x00] @ FormatInt expires @ ''.'' @ b64_encode kid)) \<longrightarrow>
          m = path @ [CHR 0x00] @ FormatInt expires @ ''.'' @ b64_encode kid) \<longrightarrow>
      last (split_on CHR ''.'' (hr_ticket r)) = last (split_on CHR ''.'' ticket) \<longrightarrow>
      ticket_verify (Some hmac) now r \<noteq> None \<longrightarrow> hr_path r = path \<and> hr_ticket r = ticket)"
proof (intro conjI impI)
  let ?p = "ticket_payload expires kid"
  let ?msg = "path @ [CHR 0x00] @ FormatInt expires @ ''.'' @ b64_encode kid"
  have t: "ticket = FormatInt expires @ [CHR ''.''] @ b64_encode kid @ [CHR ''.''] @ ticket_mac hmac path ?p"
    using assms(1) by (auto simp: ticket_Sign_def Let_def ticket_payload_def)
  have nd: "CHR ''.'' \<notin> set (FormatInt expires)" by (rule FormatInt_notin) (simp_all add: is_digit_def)
  have s: "split_on CHR ''.'' ticket = [FormatInt expires, b64_encode kid, ticket_mac hmac path ?p]"
    unfolding t using nd b64_encode_no_dot by (simp add: split_on_append split_on_none ticket_mac_def)
  show "ticket_verify (Some hmac) now r =
      (if hr_method r \<in> {''GET'', ''HEAD''} \<and> now \<le> expires * 1000000000 then Some kid else None)"
    if "hr_ticket r = ticket \<and> hr_path r = path"
    using that ParseInt_FormatInt [OF assms(2,3)]
    by (auto simp: ticket_verify_def s b64_decode_encode ticket_payload_def split: if_splits)
  assume inj: "\<forall>m. take 16 (hmac m) = take 16 (hmac ?msg) \<longrightarrow> m = ?msg"
    and mac: "last (split_on CHR ''.'' (hr_ticket r)) = last (split_on CHR ''.'' ticket)"
    and "ticket_verify (Some hmac) now r \<noteq> None"
  then obtain e owner k i where v: "hr_ticket r = e @ ''.'' @ owner @ ''.'' @ ticket_mac hmac (hr_path r) (e @ ''.'' @ owner)"
    "split_on CHR ''.'' (hr_ticket r) = [e, owner, ticket_mac hmac (hr_path r) (e @ ''.'' @ owner)]"
    "b64_decode owner = Some k" "ParseInt e = Some i"
    using ticket_verify_parts by blast
  have "ticket_mac hmac (hr_path r) (e @ ''.'' @ owner) = ticket_mac hmac path ?p" using mac v(2) s by simp
  from arg_cong [OF this, of b64_decode]
  have "take 16 (hmac (hr_path r @ [CHR 0x00] @ e @ ''.'' @ owner)) = take 16 (hmac ?msg)"
    by (simp add: ticket_mac_def b64_decode_encode ticket_payload_def)
  with inj have m: "hr_path r @ [CHR 0x00] @ (e @ ''.'' @ owner) = path @ [CHR 0x00] @ (FormatInt expires @ ''.'' @ b64_encode kid)"
    by simp
  have "hr_path r = path \<and> e @ ''.'' @ owner = FormatInt expires @ ''.'' @ b64_encode kid"
    using ParseInt_no_nul [OF v(4)] b64_decode_no_nul [OF v(3)] ParseInt_no_nul [OF ParseInt_FormatInt [OF assms(2,3)]]
      b64_decode_no_nul [OF b64_decode_encode]
    by (intro last_sep_unique [OF m]) auto
  then show "hr_path r = path" "hr_ticket r = ticket" using v(1) t by (auto simp: ticket_payload_def)
qed

text \<open>A ticket for one path, good until its ninth second, presented for it and for another.\<close>

theorem ticket_opens_its_path_witness:
  fixes hmac :: "string \<Rightarrow> string" and ticket :: string
  defines "hmac \<equiv> \<lambda>m. if m = ''/a'' @ [CHR 0x00] @ FormatInt 9 @ ''.'' @ b64_encode ''key'' then ''signed'' else []"
  defines "ticket \<equiv> fst (ticket_Sign hmac 9000000000 0 ''key'' ''/a'')"
  shows "ticket_verify (Some hmac) 5000000000 (demo_request ''/a'' [] ticket) = Some ''key''
    \<and> ticket_verify (Some hmac) 5000000000 (demo_request ''/b'' [] ticket) = None"
proof -
  let ?msg = "''/a'' @ [CHR 0x00] @ FormatInt 9 @ ''.'' @ b64_encode ''key''"
  have s: "ticket_Sign hmac 9000000000 0 ''key'' ''/a'' = (ticket, 9)" by (simp add: ticket_Sign_def Let_def ticket_def)
  have inj: "\<forall>m. take 16 (hmac m) = take 16 (hmac ?msg) \<longrightarrow> m = ?msg" unfolding hmac_def by simp
  have r: "hr_ticket (demo_request p [] ticket) = ticket" "hr_path (demo_request p [] ticket) = p"
    "hr_method (demo_request p [] ticket) = ''GET''" for p by (simp_all add: demo_request_def)
  note T = ticket_opens_its_path [OF s, of "demo_request p [] ticket" 5000000000 for p, unfolded r]
  have "ticket_verify (Some hmac) 5000000000 (demo_request ''/a'' [] ticket) = Some ''key''"
    using T [of "''/a''", THEN conjunct1] by simp
  moreover have "ticket_verify (Some hmac) 5000000000 (demo_request ''/b'' [] ticket) = None"
    using T [of "''/b''", THEN conjunct2, THEN mp, OF _ _ inj] by fastforce
  ultimately show ?thesis ..
qed

end
