(* ===== verification/Resample.thy ===== *)
theory Resample
  imports Prelude
begin

section \<open>The resampler (internal/audio/resample.go)\<close>

text \<open>
  A polyphase filter bank for one pair of rates, and the convolution that uses it. Samples, times
  and filter taps are reals. The theorem shows that the bank, the phase arithmetic and the
  clipping of the tap range compute the direct windowed-sinc convolution of the signal.
\<close>

definition filterWidth :: real where "filterWidth = 6"
definition cutoffRatio :: real where "cutoffRatio = 99 / 100 * (1 / 2)"

fun go_gcd :: "nat \<Rightarrow> nat \<Rightarrow> nat" where
  "go_gcd a b = (if b = 0 then (if a = 0 then 1 else a) else go_gcd b (a mod b))"

declare go_gcd.simps [simp del]

record resampler =
  rs_in :: nat
  rs_out :: nat
  rs_in_unit :: nat
  rs_out_unit :: nat
  rs_first :: "int list"
  rs_weights :: "real list list"

definition filterFunc :: "real \<Rightarrow> real \<Rightarrow> real \<Rightarrow> real" where
  "filterFunc t cutoff width =
     (if \<bar>t\<bar> \<ge> width then 0
      else let window = 1 / 2 * (1 + cos (pi * t / width)) in
        if t = 0 then 2 * cutoff * window
        else sin (2 * pi * cutoff * t) / (pi * t) * window)"

definition cutoff_of :: "nat \<Rightarrow> nat \<Rightarrow> real" where
  "cutoff_of rateIn rateOut = cutoffRatio * real (if rateOut < rateIn then rateOut else rateIn)"

definition width_of :: "nat \<Rightarrow> nat \<Rightarrow> real" where
  "width_of rateIn rateOut = filterWidth / (2 * cutoff_of rateIn rateOut)"

definition min_index :: "nat \<Rightarrow> nat \<Rightarrow> nat \<Rightarrow> int" where
  "min_index rateIn rateOut i = \<lceil>(real i / real rateOut - width_of rateIn rateOut) * real rateIn\<rceil>"

definition max_index :: "nat \<Rightarrow> nat \<Rightarrow> nat \<Rightarrow> int" where
  "max_index rateIn rateOut i = \<lfloor>(real i / real rateOut + width_of rateIn rateOut) * real rateIn\<rfloor>"

definition tap :: "nat \<Rightarrow> nat \<Rightarrow> nat \<Rightarrow> nat \<Rightarrow> real" where
  "tap rateIn rateOut i j =
     filterFunc (real_of_int (min_index rateIn rateOut i + int j) / real rateIn - real i / real rateOut)
       (cutoff_of rateIn rateOut) (width_of rateIn rateOut) / real rateIn"

definition NewResampler :: "nat \<Rightarrow> nat \<Rightarrow> resampler" where
  "NewResampler rateIn rateOut =
     (let g = go_gcd rateIn rateOut; n = rateOut div g in
      \<lparr>rs_in = rateIn, rs_out = rateOut, rs_in_unit = rateIn div g, rs_out_unit = n,
        rs_first = map (min_index rateIn rateOut) [0..<n],
        rs_weights = map (\<lambda>i. map (tap rateIn rateOut i)
            [0..<nat (max_index rateIn rateOut i - min_index rateIn rateOut i + 1)]) [0..<n]\<rparr>)"

definition OutputLen :: "resampler \<Rightarrow> nat \<Rightarrow> nat" where
  "OutputLen r n = (if n = 0 then 0 else nat \<lceil>real n * real (rs_out r) / real (rs_in r)\<rceil>)"

text \<open>One output sample: the tap range is clipped to the input there is.\<close>

definition resample_one :: "resampler \<Rightarrow> real list \<Rightarrow> nat \<Rightarrow> real" where
  "resample_one r xs n =
     (let phase = n mod rs_out_unit r; unit = n div rs_out_unit r;
          first = rs_first r ! phase + int (unit * rs_in_unit r);
          taps = rs_weights r ! phase;
          lo = (if first < 0 then - first else 0);
          hi = (if first + int (length taps) > int (length xs) then int (length xs) - first else int (length taps))
      in sum_list (map (\<lambda>j. xs ! nat (first + j) * taps ! nat j) [lo..hi - 1]))"

definition rs_Resample :: "resampler \<Rightarrow> real list \<Rightarrow> real list" where
  "rs_Resample r xs = (if xs = [] then [] else map (resample_one r xs) [0..<OutputLen r (length xs)])"

definition Resample :: "real list \<Rightarrow> nat \<Rightarrow> nat \<Rightarrow> real list" where
  "Resample xs from to = (if from = to \<or> xs = [] then xs else rs_Resample (NewResampler from to) xs)"

subsection \<open>The greatest common divisor\<close>

lemma go_gcd_gcd: "go_gcd a b = (if a = 0 \<and> b = 0 then 1 else gcd a b)"
proof (induction a b rule: go_gcd.induct)
  case (1 a b)
  show ?case
  proof (cases "b = 0")
    case True
    then show ?thesis by (subst go_gcd.simps) simp
  next
    case False
    then have "go_gcd a b = go_gcd b (a mod b)" by (subst go_gcd.simps) simp
    with 1 [OF False] False show ?thesis by (simp add: gcd_red_nat [symmetric])
  qed
qed

subsection \<open>The bank computes the direct convolution\<close>

text \<open>The specification: the input as a train of impulses, each contributing the filter at its
  distance from the output instant.\<close>

definition convolution :: "nat \<Rightarrow> nat \<Rightarrow> real list \<Rightarrow> nat \<Rightarrow> real" where
  "convolution rateIn rateOut xs n =
     (\<Sum>k<length xs. xs ! k * (filterFunc (real k / real rateIn - real n / real rateOut)
        (cutoff_of rateIn rateOut) (width_of rateIn rateOut) / real rateIn))"

lemma sum_upto: "sum_list (map f [lo..hi - 1]) = sum f {lo..<hi}" for lo hi :: int
proof -
  have "sum_list (map f [lo..hi - 1]) = sum f (set [lo..hi - 1])"
    by (rule sum_list_distinct_conv_sum_set) simp
  also have "set [lo..hi - 1] = {lo..<hi}" by auto
  finally show ?thesis .
qed

lemma outside_bank:
  assumes "0 < rateIn" "0 < rateOut" "k < min_index rateIn rateOut i \<or> max_index rateIn rateOut i < k"
  shows "filterFunc (real_of_int k / real rateIn - real i / real rateOut) c (width_of rateIn rateOut) = 0"
proof -
  let ?t = "real i / real rateOut" and ?w = "width_of rateIn rateOut"
  have "real_of_int k < (?t - ?w) * real rateIn \<or> (?t + ?w) * real rateIn < real_of_int k"
    using assms(3) unfolding min_index_def max_index_def by (simp add: less_ceiling_iff floor_less_iff)
  then have "real_of_int k / real rateIn < ?t - ?w \<or> ?t + ?w < real_of_int k / real rateIn"
    using assms(1) by (simp add: pos_divide_less_eq pos_less_divide_eq)
  then have "?w \<le> \<bar>real_of_int k / real rateIn - ?t\<bar>" by linarith
  then show ?thesis by (simp add: filterFunc_def)
qed

lemma phase_shift:
  assumes "0 < rateIn" "0 < rateOut" "g = gcd rateIn rateOut"
  shows "real_of_int (k + int (n div (rateOut div g) * (rateIn div g))) / real rateIn - real n / real rateOut
    = real_of_int k / real rateIn - real (n mod (rateOut div g)) / real rateOut"
proof -
  define p q u where "p = rateIn div g" and "q = rateOut div g" and "u = n div q"
  have g: "rateIn = g * p" "rateOut = g * q" "0 < g" using assms by (simp_all add: p_def q_def)
  have pq: "0 < p" "0 < q" using g assms(1,2) by (auto intro: gr0I)
  have n: "real n = real u * real q + real (n mod q)"
    using mult_div_mod_eq [of q n] unfolding u_def by (metis mult.commute of_nat_add of_nat_mult)
  have "real u * real p / real rateIn = real u * real q / real rateOut"
    using g pq by simp
  then show ?thesis unfolding p_def [symmetric] q_def [symmetric] u_def [symmetric]
    by (simp add: n add_divide_distrib)
qed

lemma resample_one_convolution:
  assumes "0 < rateIn" "0 < rateOut"
  shows "resample_one (NewResampler rateIn rateOut) xs n = convolution rateIn rateOut xs n"
proof -
  define g where "g = gcd rateIn rateOut"
  have gg: "go_gcd rateIn rateOut = g" using assms by (simp add: go_gcd_gcd g_def)
  define q where "q = rateOut div g"
  define p where "p = rateIn div g"
  have q: "0 < q" using assms by (simp add: q_def g_def div_greater_zero_iff)
  define i where "i = n mod q"
  have i: "i < q" using q by (simp add: i_def)
  define shift where "shift = int (n div q * p)"
  define mi where "mi = min_index rateIn rateOut i"
  define len where "len = nat (max_index rateIn rateOut i - mi + 1)"
  define first where "first = mi + shift"
  define lo where "lo = (if first < 0 then - first else 0)"
  define hi where "hi = (if first + int len > int (length xs) then int (length xs) - first else int len)"
  define h where "h k = filterFunc (real k / real rateIn - real n / real rateOut)
      (cutoff_of rateIn rateOut) (width_of rateIn rateOut) / real rateIn" for k
  have at: "tap rateIn rateOut i (nat j) = h (nat (first + j))" if "0 \<le> j" "0 \<le> first + j" for j
  proof -
    have s: "mi + j + shift = first + j" by (simp add: first_def)
    have "real_of_int (mi + j + shift) / real rateIn - real n / real rateOut =
        real_of_int (mi + j) / real rateIn - real i / real rateOut"
      unfolding shift_def p_def i_def q_def by (rule phase_shift [OF assms g_def])
    then have e: "real_of_int (first + j) / real rateIn - real n / real rateOut =
        real_of_int (mi + j) / real rateIn - real i / real rateOut" unfolding s .
    have "real (nat (first + j)) = real_of_int (first + j)" "mi + int (nat j) = mi + j" using that by simp_all
    then show ?thesis by (simp only: tap_def h_def mi_def [symmetric] e)
  qed
  have zero: "h k = 0" if "k < length xs" "int k < first \<or> first + int len \<le> int k" for k
  proof -
    have "int k - shift < mi \<or> max_index rateIn rateOut i < int k - shift"
      using that(2) by (auto simp: first_def len_def split: if_splits)
    from outside_bank [OF assms this [unfolded mi_def], of "cutoff_of rateIn rateOut"]
      phase_shift [OF assms g_def, of "int k - shift" n]
    show ?thesis unfolding h_def shift_def p_def i_def q_def by simp
  qed
  have "resample_one (NewResampler rateIn rateOut) xs n =
      (\<Sum>j\<in>{lo..<hi}. xs ! nat (first + j) * map (tap rateIn rateOut i) [0..<len] ! nat j)"
  proof -
    let ?r = "NewResampler rateIn rateOut"
    have units: "rs_out_unit ?r = q" "rs_in_unit ?r = p"
      by (simp_all add: NewResampler_def Let_def gg q_def p_def)
    have phase: "rs_first ?r ! i = mi" "rs_weights ?r ! i = map (tap rateIn rateOut i) [0..<len]"
      using i by (simp_all add: NewResampler_def Let_def gg q_def [symmetric] mi_def len_def)
    have len': "length (map (tap rateIn rateOut i) [0..<len]) = len" by simp
    show ?thesis
      unfolding resample_one_def Let_def units i_def [symmetric] phase shift_def [symmetric] first_def [symmetric]
        len' lo_def [symmetric] hi_def [symmetric] by (rule sum_upto)
  qed
  also have "\<dots> = (\<Sum>j\<in>{lo..<hi}. xs ! nat (first + j) * h (nat (first + j)))"
  proof (rule sum.cong [OF refl])
    fix j assume j: "j \<in> {lo..<hi}"
    then have "0 \<le> j" "0 \<le> first + j" "nat j < len" by (auto simp: lo_def hi_def split: if_splits)
    then show "xs ! nat (first + j) * map (tap rateIn rateOut i) [0..<len] ! nat j = xs ! nat (first + j) * h (nat (first + j))"
      using at [of j] by simp
  qed
  also have "\<dots> = (\<Sum>k\<in>{k. k < length xs \<and> first \<le> int k \<and> int k < first + int len}. xs ! k * h k)"
    by (rule sum.reindex_bij_witness [of _ "\<lambda>k. int k - first" "\<lambda>j. nat (first + j)"])
      (auto simp: lo_def hi_def split: if_splits)
  also have "\<dots> = (\<Sum>k<length xs. xs ! k * h k)"
  proof (rule sum.mono_neutral_left)
    have "h k = 0" if "k < length xs" "\<not> (first \<le> int k \<and> int k < first + int len)" for k
      using that by (intro zero) auto
    then show "\<forall>k\<in>{..<length xs} - {k. k < length xs \<and> first \<le> int k \<and> int k < first + int len}. xs ! k * h k = 0"
      by auto
  qed auto
  finally show ?thesis by (simp add: convolution_def h_def)
qed

text \<open>C35: the resampler computes the filter it is meant to. For positive rates, the polyphase bank
  with its phase arithmetic and its clipped tap ranges gives, for every output sample, exactly the
  convolution of the whole input with the windowed sinc at that sample's instant, and the output
  has one sample for every instant inside the input's duration.\<close>

theorem resample_is_convolution:
  assumes "0 < from" "0 < to" "from \<noteq> to"
  shows "Resample xs from to = map (convolution from to xs) [0..<nat \<lceil>real (length xs) * real to / real from\<rceil>]
    \<and> (\<forall>n. n < length (Resample xs from to) \<longleftrightarrow> real n / real to < real (length xs) / real from)"
proof -
  have len: "OutputLen (NewResampler from to) (length xs) = nat \<lceil>real (length xs) * real to / real from\<rceil>" if "xs \<noteq> []"
    using that by (simp add: OutputLen_def NewResampler_def Let_def)
  have eq: "Resample xs from to = map (convolution from to xs) [0..<nat \<lceil>real (length xs) * real to / real from\<rceil>]"
  proof (cases "xs = []")
    case False
    then show ?thesis
      using assms(3) resample_one_convolution [OF assms(1,2)] by (simp add: Resample_def rs_Resample_def len)
  qed (simp add: Resample_def)
  have "n < nat \<lceil>real (length xs) * real to / real from\<rceil> \<longleftrightarrow> real n / real to < real (length xs) / real from" for n
  proof -
    have "n < nat \<lceil>real (length xs) * real to / real from\<rceil> \<longleftrightarrow> int n < \<lceil>real (length xs) * real to / real from\<rceil>"
      by (simp add: zless_nat_eq_int_zless)
    also have "\<dots> \<longleftrightarrow> real n < real (length xs) * real to / real from"
      by (simp add: less_ceiling_iff)
    also have "\<dots> \<longleftrightarrow> real n / real to < real (length xs) / real from"
      using assms(1,2) by (simp add: field_simps)
    finally show ?thesis .
  qed
  then show ?thesis by (simp add: eq)
qed

theorem resample_is_convolution_witness:
  "length (Resample [1, 0, 0] 8000 16000) = 6"
proof -
  have "Resample [1, 0, 0] 8000 16000 =
      map (convolution 8000 16000 [1, 0, 0]) [0..<nat \<lceil>real (length [1, 0, 0 :: real]) * real 16000 / real 8000\<rceil>]"
    by (rule resample_is_convolution [THEN conjunct1]) simp_all
  then show ?thesis by simp
qed

end
