(* ===== verification/Audio.thy ===== *)
theory Audio
  imports Core Resample "HOL-Library.Word"
begin

section \<open>Decoding audio (internal/audio)\<close>

unbundle bit_operations_syntax

text \<open>
  The container sniffer and router, the native WAV path with its G.711 codecs, the raw streams of
  the realtime API, the WAV writer, and the command line and output reader of the ffmpeg path.
  Bytes are 8-bit words and the codecs' shifts and masks are the words'; samples are reals, the
  IEEE 754 reading of 32 bits (\<open>f32\<close>) is a parameter, and so is the ffmpeg process.
\<close>

type_synonym byte = "8 word"

definition bytes_of :: "string \<Rightarrow> byte list" where
  "bytes_of = map (\<lambda>c. word_of_nat (of_char c))"

text \<open>encoding/binary, little endian.\<close>

fun le_nat :: "byte list \<Rightarrow> nat" where
  "le_nat [] = 0"
| "le_nat (b # bs) = unat b + 256 * le_nat bs"

fun le_bytes :: "nat \<Rightarrow> nat \<Rightarrow> byte list" where
  "le_bytes 0 n = []"
| "le_bytes (Suc k) n = word_of_nat (n mod 256) # le_bytes k (n div 256)"

definition slice_at :: "byte list \<Rightarrow> nat \<Rightarrow> nat \<Rightarrow> byte list" where
  "slice_at bs i n = take n (drop i bs)"

definition bad_wav :: gerr where "bad_wav = Domain CodeInvalidRequest []"

subsection \<open>Formats and options (audio.go)\<close>

datatype audio_format =
  FormatUnknown | FormatWAV | FormatMP3 | FormatOgg | FormatFLAC | FormatMP4 | FormatAMR
  | FormatMatroska | FormatCAF | FormatAU

definition Native :: "audio_format \<Rightarrow> bool" where "Native f \<longleftrightarrow> f = FormatWAV"

definition Sniff :: "byte list \<Rightarrow> audio_format" where
  "Sniff head =
     (if length head \<ge> 12 \<and> slice_at head 0 4 = bytes_of ''RIFF'' \<and> slice_at head 8 4 = bytes_of ''WAVE'' then FormatWAV
      else if length head \<ge> 4 \<and> slice_at head 0 4 = bytes_of ''fLaC'' then FormatFLAC
      else if length head \<ge> 4 \<and> slice_at head 0 4 = bytes_of ''OggS'' then FormatOgg
      else if length head \<ge> 3 \<and> slice_at head 0 3 = bytes_of ''ID3'' then FormatMP3
      else if length head \<ge> 2 \<and> head ! 0 = 0xFF \<and> head ! 1 AND 0xE0 = 0xE0 then FormatMP3
      else if length head \<ge> 12 \<and> slice_at head 4 4 = bytes_of ''ftyp'' then FormatMP4
      else if length head \<ge> 6 \<and> slice_at head 0 6 = bytes_of ''#!AMR'' @ [0x0A] then FormatAMR
      else if length head \<ge> 4 \<and> slice_at head 0 4 = [0x1A, 0x45, 0xDF, 0xA3] then FormatMatroska
      else if length head \<ge> 4 \<and> slice_at head 0 4 = bytes_of ''caff'' then FormatCAF
      else if length head \<ge> 4 \<and> slice_at head 0 4 = bytes_of ''.snd'' then FormatAU
      else FormatUnknown)"

definition SniffSize :: nat where "SniffSize = 16"

record audio_options =
  ao_rate :: int
  ao_mode :: string
  ao_max_dur :: real
  ao_max_split :: int
  ao_max_bytes :: int

record pcm =
  pcm_samples :: "real list"
  pcm_rate :: nat
  pcm_source_channels :: nat
  pcm_channel :: nat

definition pcm_Duration :: "pcm \<Rightarrow> real" where
  "pcm_Duration p = (if pcm_rate p = 0 then 0 else real (length (pcm_samples p)) / real (pcm_rate p))"

definition splitChannels :: "audio_options \<Rightarrow> nat \<Rightarrow> gerr + nat" where
  "splitChannels o' n =
     (if ao_mode o' \<noteq> ''split'' \<or> n \<le> 1 then Inr 1
      else if ao_max_split o' > 0 \<and> int n > ao_max_split o' then Inl (Domain CodeInvalidRequest ''channel_mode'')
      else Inr n)"

definition too_many_bytes :: "audio_options \<Rightarrow> nat \<Rightarrow> nat \<Rightarrow> bool" where
  "too_many_bytes o' frames channels \<longleftrightarrow> ao_max_bytes o' > 0 \<and> int (frames * channels * 4) > ao_max_bytes o'"

definition target_rate :: "audio_options \<Rightarrow> nat" where
  "target_rate o' = (if ao_rate o' \<le> 0 then 16000 else nat (ao_rate o'))"

text \<open>A decoder: what it can take, and what it makes of a stream.\<close>

type_synonym decoder = "(audio_format \<Rightarrow> bool) \<times> (byte list \<Rightarrow> audio_options \<Rightarrow> gerr + pcm list)"

text \<open>The router. An empty stream cannot be read; a head shorter than \<open>SniffSize\<close> is sniffed as it is.\<close>

definition router_Decode :: "decoder list \<Rightarrow> byte list \<Rightarrow> audio_options \<Rightarrow> (gerr + pcm list) \<times> audio_format" where
  "router_Decode decoders bs o' =
     (if bs = [] then (Inl (Domain CodeInvalidRequest []), FormatUnknown)
      else let f = Sniff (take SniffSize bs) in
        case find (\<lambda>d. fst d f) decoders of
          Some d \<Rightarrow> (snd d bs o', f)
        | None \<Rightarrow> (Inl (Domain CodeUnsupportedMediaType []), f))"

definition handlesCompressed :: "decoder list \<Rightarrow> bool" where
  "handlesCompressed decoders = list_ex (\<lambda>d. fst d FormatMP3) decoders"

subsection \<open>G.711 (g711.go)\<close>

definition alawToLinear :: "byte \<Rightarrow> int" where
  "alawToLinear a0 =
     (let a = a0 XOR 0x55;
          m0 = push_bit 4 (uint (a AND 0x0F));
          e = drop_bit 4 (uint a AND 0x70);
          m = (if e = 0 then m0 + 8 else if e = 1 then m0 + 0x108 else push_bit (nat (e - 1)) (m0 + 0x108))
      in if a AND 0x80 \<noteq> 0 then m else - m)"

definition ulawToLinear :: "byte \<Rightarrow> int" where
  "ulawToLinear u0 =
     (let u = NOT u0;
          m = push_bit (nat (drop_bit 4 (uint u AND 0x70))) (push_bit 3 (uint (u AND 0x0F)) + 0x84) - 0x84
      in if u AND 0x80 \<noteq> 0 then - m else m)"

subsection \<open>The WAV header (wav.go)\<close>

record wav_format =
  wf_tag :: nat
  wf_channels :: nat
  wf_rate :: nat
  wf_bits :: nat
  wf_align :: nat

definition wavPCM :: nat where "wavPCM = 1"
definition wavIEEEFloat :: nat where "wavIEEEFloat = 3"
definition wavALaw :: nat where "wavALaw = 6"
definition wavMuLaw :: nat where "wavMuLaw = 7"
definition wavExtensible :: nat where "wavExtensible = 0xFFFE"
definition maxFmtChunk :: nat where "maxFmtChunk = 4096"

lemmas wav_tags = wavPCM_def wavIEEEFloat_def wavALaw_def wavMuLaw_def wavExtensible_def maxFmtChunk_def

definition sampleWidth :: "wav_format \<Rightarrow> gerr + nat" where
  "sampleWidth f =
     (if wf_tag f = wavALaw \<or> wf_tag f = wavMuLaw then (if wf_bits f \<noteq> 8 then Inl bad_wav else Inr 1)
      else if wf_tag f = wavIEEEFloat then (if wf_bits f \<noteq> 32 then Inl bad_wav else Inr 4)
      else if wf_bits f \<in> {8, 16, 24, 32} then Inr (wf_bits f div 8) else Inl bad_wav)"

definition parseFmt :: "byte list \<Rightarrow> gerr + wav_format" where
  "parseFmt b =
     (let f0 = \<lparr>wf_tag = le_nat (slice_at b 0 2), wf_channels = le_nat (slice_at b 2 2), wf_rate = le_nat (slice_at b 4 4),
                wf_bits = le_nat (slice_at b 14 2), wf_align = le_nat (slice_at b 12 2)\<rparr> in
      if wf_tag f0 = wavExtensible \<and> length b < 40 then Inl bad_wav
      else
        let f = (if wf_tag f0 = wavExtensible then f0\<lparr>wf_tag := le_nat (slice_at b 24 2)\<rparr> else f0) in
        if wf_tag f \<notin> {wavPCM, wavIEEEFloat, wavALaw, wavMuLaw} then Inl (Domain CodeUnsupportedMediaType [])
        else if wf_channels f < 1 \<or> wf_channels f > 64 then Inl bad_wav
        else if wf_rate f < 1000 \<or> wf_rate f > 384000 then Inl bad_wav
        else case sampleWidth f of
          Inl e \<Rightarrow> Inl e
        | Inr width \<Rightarrow>
            let f1 = (if wf_align f \<le> 0 then f\<lparr>wf_align := width * wf_channels f\<rparr> else f) in
            if wf_align f1 \<noteq> width * wf_channels f1 then Inl bad_wav else Inr f1)"

text \<open>The chunk list up to the data chunk: the format, the stated size (0 if none) and the rest.\<close>

function read_chunks :: "wav_format option \<Rightarrow> byte list \<Rightarrow> gerr + (wav_format \<times> nat \<times> byte list)" where
  "read_chunks f bs =
     (if length bs < 8 then Inl bad_wav
      else
        let ident = slice_at bs 0 4; size = le_nat (slice_at bs 4 4); rest = drop 8 bs;
            pad = (\<lambda>xs. if size mod 2 = 1 then drop 1 xs else xs) in
        if ident = bytes_of ''fmt '' then
          (if size < 16 \<or> size > maxFmtChunk then Inl bad_wav
           else if length rest < size then Inl bad_wav
           else case parseFmt (take size rest) of
             Inl e \<Rightarrow> Inl e
           | Inr g \<Rightarrow> read_chunks (Some g) (pad (drop size rest)))
        else if ident = bytes_of ''data'' then
          (case f of None \<Rightarrow> Inl bad_wav
           | Some g \<Rightarrow> Inr (g, (if size = 0 \<or> size = 0xFFFFFFFF then 0 else size), rest))
        else if length rest < size then Inl bad_wav
        else read_chunks f (pad (drop size rest)))"
  by auto
termination
  by (relation "measure (\<lambda>(f, bs). length bs)") auto

declare read_chunks.simps [simp del]

definition readWAVHeader :: "byte list \<Rightarrow> gerr + (wav_format \<times> nat \<times> byte list)" where
  "readWAVHeader bs =
     (if length bs < 12 then Inl bad_wav
      else if slice_at bs 0 4 \<noteq> bytes_of ''RIFF'' \<or> slice_at bs 8 4 \<noteq> bytes_of ''WAVE'' then Inl bad_wav
      else read_chunks None (drop 12 bs))"

subsection \<open>The samples (wav.go)\<close>

definition sampleToFloat :: "(nat \<Rightarrow> real) \<Rightarrow> byte list \<Rightarrow> wav_format \<Rightarrow> real" where
  "sampleToFloat f32 b f =
     (if wf_tag f = wavALaw then real_of_int (alawToLinear (b ! 0)) / 32768
      else if wf_tag f = wavMuLaw then real_of_int (ulawToLinear (b ! 0)) / 32768
      else if wf_tag f = wavIEEEFloat then f32 (le_nat b)
      else if wf_bits f = 8 then (real (unat (b ! 0)) - 128) / 128
      else if wf_bits f = 16 then real_of_int (sint (word_of_nat (le_nat b) :: 16 word)) / 32768
      else if wf_bits f = 24 then
        (let v = word_of_nat (le_nat b) :: 32 word
         in real_of_int (sint (if v AND 0x800000 \<noteq> 0 then v OR NOT 0xFFFFFF else v)) / 8388608)
      else real_of_int (sint (word_of_nat (le_nat b) :: 32 word)) / 2147483648)"

text \<open>What one frame contributes to each output track.\<close>

definition mix_frame :: "(nat \<Rightarrow> real) \<Rightarrow> nat \<Rightarrow> bool \<Rightarrow> wav_format \<Rightarrow> nat \<Rightarrow> byte list \<Rightarrow> real list" where
  "mix_frame f32 outputs first f width frame =
     (if outputs > 1 then map (\<lambda>c. sampleToFloat f32 (slice_at frame (c * width) width) f) [0..<outputs]
      else if first \<or> wf_channels f = 1 then [sampleToFloat f32 (slice_at frame 0 width) f]
      else [(\<Sum>c\<leftarrow>[0..<wf_channels f]. sampleToFloat f32 (slice_at frame (c * width) width) f) / real (wf_channels f)])"

fun frames_of :: "nat \<Rightarrow> nat \<Rightarrow> byte list \<Rightarrow> byte list list" where
  "frames_of align 0 bs = []"
| "frames_of align (Suc k) bs = take align bs # frames_of align k (drop align bs)"

definition blockFrames :: nat where "blockFrames = 8192"

definition max_frames :: "audio_options \<Rightarrow> wav_format \<Rightarrow> nat option" where
  "max_frames o' f = (if ao_max_dur o' > 0 then Some (nat \<lfloor>ao_max_dur o' * real (wf_rate f)\<rfloor>) else None)"

definition over :: "nat option \<Rightarrow> nat \<Rightarrow> bool" where
  "over m n \<longleftrightarrow> (case m of None \<Rightarrow> False | Some k \<Rightarrow> n > k)"

text \<open>The blocks: \<open>acc\<close> are the frames read so far. A short block is the last one.\<close>

function read_blocks ::
  "audio_options \<Rightarrow> wav_format \<Rightarrow> nat \<Rightarrow> byte list list \<Rightarrow> byte list \<Rightarrow> gerr + byte list list" where
  "read_blocks o' f outputs acc bs =
     (if bs = [] then Inr acc
      else
        let full = blockFrames * wf_align f;
            block = take full bs;
            acc1 = acc @ frames_of (wf_align f) (length block div wf_align f) block in
        if over (max_frames o' f) (length acc1) then Inl (Domain CodeDurationExceeded [])
        else if too_many_bytes o' (length acc1) outputs then Inl (Domain CodeFileTooLarge [])
        else if length block < full \<or> full = 0 then Inr acc1
        else read_blocks o' f outputs acc1 (drop full bs))"
  by auto
termination
  by (relation "measure (\<lambda>(o', f, outputs, acc, bs). length bs)") (auto simp: blockFrames_def)

declare read_blocks.simps [simp del]

definition readSamples ::
  "(nat \<Rightarrow> real) \<Rightarrow> byte list \<Rightarrow> wav_format \<Rightarrow> nat \<Rightarrow> audio_options \<Rightarrow> nat \<Rightarrow> gerr + real list list" where
  "readSamples f32 bs f dataSize o' outputs =
     (case sampleWidth f of Inl e \<Rightarrow> Inl e
      | Inr width \<Rightarrow>
        if dataSize > 0 \<and> over (max_frames o' f) (dataSize div wf_align f) then Inl (Domain CodeDurationExceeded [])
        else if dataSize > 0 \<and> too_many_bytes o' (dataSize div wf_align f) outputs then Inl (Domain CodeFileTooLarge [])
        else case read_blocks o' f outputs [] (if dataSize > 0 then take dataSize bs else bs) of
          Inl e \<Rightarrow> Inl e
        | Inr frames \<Rightarrow>
            if frames = [] then Inl bad_wav
            else let mixed = map (mix_frame f32 outputs (ao_mode o' = ''first'') f width) frames
              in Inr (map (\<lambda>c. map (\<lambda>m. m ! c) mixed) [0..<outputs]))"

definition wav_Decode :: "(nat \<Rightarrow> real) \<Rightarrow> byte list \<Rightarrow> audio_options \<Rightarrow> gerr + pcm list" where
  "wav_Decode f32 bs o' =
     (case readWAVHeader bs of Inl e \<Rightarrow> Inl e
      | Inr (f, dataSize, rest) \<Rightarrow>
        (case splitChannels o' (wf_channels f) of Inl e \<Rightarrow> Inl e
         | Inr outputs \<Rightarrow>
           (case readSamples f32 rest f dataSize o' outputs of Inl e \<Rightarrow> Inl e
            | Inr tracks \<Rightarrow> Inr (map (\<lambda>(i, samples).
                \<lparr>pcm_samples = (if wf_rate f \<noteq> target_rate o' then Resample samples (wf_rate f) (target_rate o') else samples),
                 pcm_rate = target_rate o', pcm_source_channels = wf_channels f, pcm_channel = i\<rparr>)
                (List.enumerate 0 tracks)))))"

subsection \<open>Writing WAV (wavenc.go)\<close>

definition MaxUint32 :: nat where "MaxUint32 = 2 ^ 32 - 1"

definition WAVHeader :: "nat \<Rightarrow> nat \<Rightarrow> byte list" where
  "WAVHeader rate dataBytes =
     bytes_of ''RIFF'' @ le_bytes 4 (min (dataBytes + 44 - 8) MaxUint32) @ bytes_of ''WAVEfmt '' @ le_bytes 4 16
     @ le_bytes 2 1 @ le_bytes 2 1 @ le_bytes 4 (rate mod 2 ^ 32) @ le_bytes 4 (rate * 1 * 16 div 8 mod 2 ^ 32)
     @ le_bytes 2 2 @ le_bytes 2 16 @ bytes_of ''data'' @ le_bytes 4 (min dataBytes MaxUint32)"

text \<open>math.Round: half away from zero.\<close>

definition go_round :: "real \<Rightarrow> int" where
  "go_round x = (if x < 0 then - \<lfloor>1 / 2 - x\<rfloor> else \<lfloor>x + 1 / 2\<rfloor>)"

definition pcm16 :: "real \<Rightarrow> int" where
  "pcm16 s = max (- 32768) (min 32767 (go_round (s * 32767)))"

definition EncodePCM16 :: "real list \<Rightarrow> byte list" where
  "EncodePCM16 samples = concat (map (\<lambda>s. le_bytes 2 (unat (word_of_int (pcm16 s) :: 16 word))) samples)"

definition WriteWAV :: "nat \<Rightarrow> real list \<Rightarrow> byte list" where
  "WriteWAV rate samples = (let d = EncodePCM16 samples in WAVHeader rate (length d) @ d)"

subsection \<open>Raw streams (raw.go)\<close>

fun DecodePCM16LE :: "byte list \<Rightarrow> real list \<times> byte list" where
  "DecodePCM16LE (a # b # bs) =
     (case DecodePCM16LE bs of (xs, rest) \<Rightarrow> (real_of_int (sint (word_of_nat (le_nat [a, b]) :: 16 word)) / 32768 # xs, rest))"
| "DecodePCM16LE bs = ([], bs)"

definition DecodeULaw :: "byte list \<Rightarrow> real list" where
  "DecodeULaw = map (\<lambda>v. real_of_int (ulawToLinear v) / 32768)"

definition DecodeALaw :: "byte list \<Rightarrow> real list" where
  "DecodeALaw = map (\<lambda>v. real_of_int (alawToLinear v) / 32768)"

subsection \<open>The ffmpeg path (ffmpeg.go)\<close>

definition ffmpeg_args :: "bool \<Rightarrow> audio_options \<Rightarrow> string list" where
  "ffmpeg_args soxr o' =
     (let rate = FormatInt (int (target_rate o'));
          resample = (if soxr then ''aresample=resampler=soxr'' else ''aresample'') in
      [''-hide_banner'', ''-nostdin'', ''-loglevel'', ''error'', ''-i'', ''pipe:0'', ''-vn'', ''-sn'', ''-dn'', ''-map'', ''0:a:0'']
      @ (if ao_mode o' = ''split'' then [''-ar'', rate, ''-af'', resample, ''-c:a'', ''pcm_f32le'', ''-f'', ''wav'']
         else if ao_mode o' = ''first'' then [''-ar'', rate, ''-af'', ''pan=mono|c0=c0,'' @ resample, ''-f'', ''f32le'']
         else [''-ac'', ''1'', ''-ar'', rate, ''-af'', resample, ''-f'', ''f32le''])
      @ [''pipe:1''])"

definition ffmpeg_CanDecode :: "bool \<Rightarrow> audio_format \<Rightarrow> bool" where
  "ffmpeg_CanDecode installed f \<longleftrightarrow> installed \<and> f \<noteq> FormatUnknown \<and> \<not> Native f"

definition max_samples :: "nat \<Rightarrow> real \<Rightarrow> int \<Rightarrow> nat option" where
  "max_samples rate maxDur maxBytes =
     (let byDur = (if maxDur > 0 then Some (nat \<lfloor>maxDur * real rate\<rfloor>) else None) in
      if maxBytes > 0 then
        (let byBytes = nat (maxBytes div 4) in
         case byDur of None \<Rightarrow> Some byBytes | Some d \<Rightarrow> Some (if byBytes < d then byBytes else d))
      else byDur)"

text \<open>Whole samples of a buffer, and the bytes left over.\<close>

fun f32_samples :: "(nat \<Rightarrow> real) \<Rightarrow> byte list \<Rightarrow> real list \<times> byte list" where
  "f32_samples f32 (a # b # c # d # bs) = (case f32_samples f32 bs of (xs, rest) \<Rightarrow> (f32 (le_nat [a, b, c, d]) # xs, rest))"
| "f32_samples f32 bs = ([], bs)"

text \<open>One read of ffmpeg's output per element of \<open>reads\<close>; \<open>carry\<close> is the part of a sample kept from
  the read before.\<close>

fun read_f32_loop :: "(nat \<Rightarrow> real) \<Rightarrow> nat option \<Rightarrow> real list \<Rightarrow> byte list \<Rightarrow> byte list list \<Rightarrow> gerr + real list" where
  "read_f32_loop f32 m out carry [] = Inr out"
| "read_f32_loop f32 m out carry (buf # reads) =
     (if buf = [] then read_f32_loop f32 m out carry reads
      else if carry \<noteq> [] \<and> length buf < 4 - length carry then read_f32_loop f32 m out (carry @ buf) reads
      else
        let need = (if carry = [] then 0 else 4 - length carry);
            out1 = (if carry = [] then out else out @ [f32 (le_nat (carry @ take need buf))]) in
        case f32_samples f32 (drop need buf) of
          (xs, rest) \<Rightarrow>
            if over m (length (out1 @ xs)) then Inl (Domain CodeDurationExceeded [])
            else read_f32_loop f32 m (out1 @ xs) rest reads)"

definition readFloat32LE :: "(nat \<Rightarrow> real) \<Rightarrow> nat \<Rightarrow> real \<Rightarrow> int \<Rightarrow> byte list list \<Rightarrow> gerr + real list" where
  "readFloat32LE f32 rate maxDur maxBytes reads = read_f32_loop f32 (max_samples rate maxDur maxBytes) [] [] reads"

text \<open>What \<open>Decode\<close> makes of what it read and of how the process ended.\<close>

datatype wait_result = Exited | TimedOut | CtxDone gerr | ExitFailed

definition ffmpeg_outcome :: "gerr + pcm list \<Rightarrow> wait_result \<Rightarrow> gerr + pcm list" where
  "ffmpeg_outcome read wait =
     (case read of Inl e \<Rightarrow> Inl e
      | Inr out \<Rightarrow>
        (case wait of
           TimedOut \<Rightarrow> Inl (Domain CodeProcessingTimeout [])
         | CtxDone e \<Rightarrow> Inl e
         | ExitFailed \<Rightarrow> Inl (Domain CodeUnsupportedMediaType [])
         | Exited \<Rightarrow> if out = [] \<or> pcm_samples (hd out) = [] then Inl (Domain CodeInvalidRequest []) else Inr out))"

definition tailBuffer_Write :: "byte list \<Rightarrow> byte list \<Rightarrow> byte list" where
  "tailBuffer_Write kept p = (let d = kept @ p in if length d > 8192 then drop (length d - 8192) d else d)"

subsection \<open>Bytes\<close>

lemma le_bytes_length [simp]: "length (le_bytes k n) = k"
  by (induction k arbitrary: n) simp_all

lemma bytes_of_length [simp]: "length (bytes_of s) = length s"
  by (simp add: bytes_of_def)

lemma le_nat_le_bytes: "le_nat (le_bytes k n) = n mod 256 ^ k"
proof (induction k arbitrary: n)
  case (Suc k)
  have "n mod 256 + 256 * (n div 256 mod 256 ^ k) = n mod 256 ^ Suc k"
    by (simp add: mod_mult2_eq mult.commute)
  then show ?case using Suc by (simp add: unat_of_nat)
qed simp

lemma le_nat_bytes: "n < 256 ^ k \<Longrightarrow> le_nat (le_bytes k n) = n"
  by (simp add: le_nat_le_bytes)

lemma slice_at_append1: "length xs = i \<Longrightarrow> slice_at (xs @ ys) i n = slice_at ys 0 n"
  by (simp add: slice_at_def)

lemma slice_at_0: "length xs = n \<Longrightarrow> slice_at (xs @ ys) 0 n = xs"
  by (simp add: slice_at_def)

lemma slice_at_skip: "length xs \<le> i \<Longrightarrow> slice_at (xs @ ys) i n = slice_at ys (i - length xs) n"
  by (simp add: slice_at_def)

lemma read_chunks_chunk:
  assumes "length ident = 4" "n < 2 ^ 32"
  shows "length (ident @ le_bytes 4 n @ rest) \<ge> 8" "slice_at (ident @ le_bytes 4 n @ rest) 0 4 = ident"
    "le_nat (slice_at (ident @ le_bytes 4 n @ rest) 4 4) = n" "drop 8 (ident @ le_bytes 4 n @ rest) = rest"
  using assms by (simp_all add: slice_at_def le_nat_bytes)

subsection \<open>Reading the blocks\<close>

lemma frames_of_length [simp]: "length (frames_of a k bs) = k"
  by (induction a k bs rule: frames_of.induct) simp_all

lemma frames_of_add: "frames_of a (m + n) bs = frames_of a m bs @ frames_of a n (drop (m * a) bs)"
  by (induction m arbitrary: bs) (simp_all add: add.commute)

lemma frames_of_take: "m * a \<le> k \<Longrightarrow> frames_of a m (take k bs) = frames_of a m bs"
proof (induction m arbitrary: bs k)
  case (Suc m)
  then have "m * a \<le> k - a" "a \<le> k" by auto
  then show ?case using Suc.IH [of "k - a" "drop a bs"] by (simp add: drop_take min_absorb1)
qed simp

lemma read_blocks_Inr:
  assumes "0 < wf_align f"
  shows "read_blocks o' f outputs acc bs = Inr frames \<Longrightarrow>
    frames = acc @ frames_of (wf_align f) (length bs div wf_align f) bs
    \<and> (bs \<noteq> [] \<longrightarrow> \<not> over (max_frames o' f) (length frames) \<and> \<not> too_many_bytes o' (length frames) outputs)"
proof (induction "length bs" arbitrary: acc bs rule: less_induct)
  case less
  let ?a = "wf_align f"
  define full where "full = blockFrames * ?a"
  show ?case
  proof (cases "bs = []")
    case True
    then show ?thesis using less.prems by (simp add: read_blocks.simps [of o' f outputs acc "[]"])
  next
    case False
    define acc1 where "acc1 = acc @ frames_of ?a (length (take full bs) div ?a) (take full bs)"
    have full: "0 < full" using assms by (simp add: full_def blockFrames_def)
    have unf: "read_blocks o' f outputs acc bs =
        (if over (max_frames o' f) (length acc1) then Inl (Domain CodeDurationExceeded [])
         else if too_many_bytes o' (length acc1) outputs then Inl (Domain CodeFileTooLarge [])
         else if length (take full bs) < full then Inr acc1 else read_blocks o' f outputs acc1 (drop full bs))"
      using False full by (subst read_blocks.simps) (simp add: Let_def full_def acc1_def)
    have ok: "\<not> over (max_frames o' f) (length acc1)" "\<not> too_many_bytes o' (length acc1) outputs"
      using less.prems unf by (auto split: if_splits)
    have k: "frames_of ?a (length (take full bs) div ?a) (take full bs) = frames_of ?a (length (take full bs) div ?a) bs"
      by (rule frames_of_take) (metis div_times_less_eq_dividend le_trans length_take min.cobounded2)
    show ?thesis
    proof (cases "length bs < full")
      case True
      then have "frames = acc1" using less.prems unf ok by simp
      then show ?thesis using True ok by (simp add: acc1_def)
    next
      case False
      have step: "read_blocks o' f outputs acc1 (drop full bs) = Inr frames" using less.prems unf ok False by simp
      have less': "length (drop full bs) < length bs" using full \<open>bs \<noteq> []\<close> by simp
      note IH = less.hyps [OF less' step]
      have n: "length bs div ?a = blockFrames + length (drop full bs) div ?a"
      proof -
        have "length bs = length (drop full bs) + blockFrames * ?a" using False by (simp add: full_def)
        then show ?thesis using assms by (metis add.commute div_mult_self3 less_numeral_extra(3))
      qed
      have "acc1 = acc @ frames_of ?a blockFrames bs" using False assms k by (simp add: acc1_def full_def)
      then have "frames = acc @ frames_of ?a (length bs div ?a) bs"
        using IH by (simp add: n frames_of_add full_def)
      moreover have "\<not> over (max_frames o' f) (length frames) \<and> \<not> too_many_bytes o' (length frames) outputs"
      proof (cases "drop full bs = []")
        case True
        then have "frames = acc1" using IH by simp
        then show ?thesis using ok by simp
      qed (use IH in blast)
      ultimately show ?thesis by blast
    qed
  qed
qed

lemma length_frames_of [simp]: "length (frames_of a k bs) = k"
  by (induction k arbitrary: bs) simp_all

text \<open>A file whose every frame count is within the limits is read to its end.\<close>

lemma read_blocks_within:
  assumes "0 < wf_align f" "\<forall>n\<le>N. \<not> over (max_frames o' f) n \<and> \<not> too_many_bytes o' n outputs"
  shows "length acc + length bs div wf_align f \<le> N \<Longrightarrow> \<exists>frames. read_blocks o' f outputs acc bs = Inr frames"
proof (induction "length bs" arbitrary: acc bs rule: less_induct)
  case less
  let ?full = "blockFrames * wf_align f"
  let ?acc = "acc @ frames_of (wf_align f) (length (take ?full bs) div wf_align f) (take ?full bs)"
  have full: "0 < ?full" using assms(1) by (simp add: blockFrames_def)
  show ?case
  proof (cases "bs = []")
    case False
    have "length (take ?full bs) div wf_align f \<le> length bs div wf_align f" by (intro div_le_mono) simp
    then have ok: "\<not> over (max_frames o' f) (length ?acc)" "\<not> too_many_bytes o' (length ?acc) outputs"
      using assms(2) less.prems by (auto simp del: length_take)
    show ?thesis
    proof (cases "length bs < ?full")
      case True
      then show ?thesis using ok False by (subst read_blocks.simps) (simp add: Let_def)
    next
      case more: False
      then have l: "length (drop ?full bs) < length bs" using full False by simp
      have "length bs = length (drop ?full bs) + blockFrames * wf_align f" using more by simp
      then have "length bs div wf_align f = blockFrames + length (drop ?full bs) div wf_align f"
        using assms(1) by (metis add.commute div_mult_self3 less_numeral_extra(3))
      then have "length ?acc + length (drop ?full bs) div wf_align f \<le> N"
        using less.prems more assms(1) by simp
      from less.hyps [OF l this] show ?thesis using ok False more full
        by (subst read_blocks.simps) (simp add: Let_def)
    qed
  qed (simp add: read_blocks.simps [of o' f outputs acc "[]"])
qed

subsection \<open>What a format promises\<close>

lemma parseFmt_align:
  assumes "parseFmt b = Inr f"
  shows "\<exists>width. sampleWidth f = Inr width \<and> wf_align f = width * wf_channels f \<and> 0 < width \<and> 1 \<le> wf_channels f
    \<and> 1000 \<le> wf_rate f"
proof -
  obtain g width where g: "sampleWidth g = Inr width"
    "f = (if wf_align g \<le> 0 then g\<lparr>wf_align := width * wf_channels g\<rparr> else g)"
    "wf_align f = width * wf_channels f" "\<not> (wf_channels g < 1)" "\<not> wf_rate g < 1000"
    using assms by (auto simp: parseFmt_def Let_def split: if_splits sum.splits)
  moreover have "sampleWidth f = sampleWidth g" using g(2) by (simp add: sampleWidth_def)
  moreover have "0 < width" using g(1) by (auto simp: sampleWidth_def split: if_splits)
  ultimately show ?thesis by auto
qed

lemma read_chunks_format:
  assumes "read_chunks f0 bs = Inr (f, n, rest)"
  shows "f0 = Some f \<or> (\<exists>b. parseFmt b = Inr f)"
  using assms
proof (induction "length bs" arbitrary: f0 bs rule: less_induct)
  case less
  define size where "size = le_nat (slice_at bs 4 4)"
  define next_bs where "next_bs = (if size mod 2 = 1 then drop 1 (drop size (drop 8 bs)) else drop size (drop 8 bs))"
  have len: "\<not> length bs < 8" using less.prems by (auto simp: read_chunks.simps [of f0 bs])
  then have short: "length next_bs < length bs" by (auto simp: next_bs_def)
  show ?case
  proof (cases "slice_at bs 0 4 = bytes_of ''fmt ''")
    case True
    then obtain g where g: "parseFmt (take size (drop 8 bs)) = Inr g" "read_chunks (Some g) next_bs = Inr (f, n, rest)"
      using less.prems len
      by (subst (asm) read_chunks.simps) (auto simp: Let_def size_def next_bs_def split: if_splits sum.splits)
    from less.hyps [OF short g(2)] g(1) show ?thesis by auto
  next
    case nf: False
    show ?thesis
    proof (cases "slice_at bs 0 4 = bytes_of ''data''")
      case True
      then show ?thesis using less.prems len nf
        by (subst (asm) read_chunks.simps) (auto simp: Let_def split: option.splits)
    next
      case False
      then have "read_chunks f0 next_bs = Inr (f, n, rest)" using less.prems len nf
        by (subst (asm) read_chunks.simps) (auto simp: Let_def size_def next_bs_def split: if_splits)
      from less.hyps [OF short this] show ?thesis .
    qed
  qed
qed

lemma header_format: "readWAVHeader bs = Inr (f, n, rest) \<Longrightarrow> \<exists>b. parseFmt b = Inr f"
  using read_chunks_format by (auto simp: readWAVHeader_def split: if_splits) blast

lemma Resample_length:
  assumes "0 < from" "0 < to"
  shows "length (Resample xs from to) = (if from = to then length xs else nat \<lceil>real (length xs) * real to / real from\<rceil>)"
  using assms by (auto simp: Resample_def rs_Resample_def OutputLen_def NewResampler_def Let_def)

end
