(* ===== verification/AudioSpec.thy ===== *)
theory AudioSpec
  imports Audio
begin

section \<open>What the audio path guarantees\<close>

text \<open>
  The limits of the WAV decoder, the range of its samples, the round trip through the WAV writer,
  and the ffmpeg output reader's independence of how its input is cut into reads.
\<close>

unbundle bit_operations_syntax

subsection \<open>Limits\<close>

lemma resampled_frames:
  assumes "0 < from" "0 < to"
  shows "real (if from = to then n else nat \<lceil>real n * real to / real from\<rceil>) < real n * (real to / real from) + 1
    \<and> (to \<le> from \<longrightarrow> (if from = to then n else nat \<lceil>real n * real to / real from\<rceil>) \<le> n)"
proof -
  have nn: "0 \<le> real n * real to / real from" by simp
  have c: "real_of_int \<lceil>x\<rceil> < x + 1" for x :: real by linarith
  have "real (nat \<lceil>real n * real to / real from\<rceil>) < real n * real to / real from + 1"
    using c [of "real n * real to / real from"] nn by simp
  moreover have "nat \<lceil>real n * real to / real from\<rceil> \<le> n" if "to \<le> from"
  proof -
    have "real n * real to \<le> real n * real from" using that by (intro mult_left_mono) auto
    then have "real n * real to / real from \<le> real n" using assms by (metis of_nat_0_less_iff pos_divide_le_eq)
    then have "\<lceil>real n * real to / real from\<rceil> \<le> int n" by (simp only: ceiling_le_iff of_int_of_nat_eq)
    then show ?thesis by (simp only: nat_le_iff)
  qed
  ultimately show ?thesis using assms by auto
qed

text \<open>C36: what the WAV decoder reads is within its limits, and what it returns is as much as that is at
  the target rate. A result has at least one track, one per channel under split and never more than
  the split limit allows; the tracks are numbered and hold the same number of frames. The frames read
  from the file are at least one, their duration is within the duration limit, and at four bytes a
  sample they are, over all tracks, within the memory limit. Resampled to the target rate, a track
  lasts less than a sample longer than the duration limit; and the bytes returned are within the
  memory limit if the file's rate is not below the target rate, and otherwise within it times the
  ratio of the rates, and a sample per track: the limit is checked before the resampling.\<close>

theorem wav_decode_limits:
  assumes "wav_Decode f32 bs o' = Inr out"
  shows "\<exists>f size rest n. readWAVHeader bs = Inr (f, size, rest) \<and> 0 < n
    \<and> length out = (if ao_mode o' = ''split'' then wf_channels f else 1)
    \<and> (ao_mode o' = ''split'' \<and> 1 < length out \<and> 0 < ao_max_split o' \<longrightarrow> int (length out) \<le> ao_max_split o')
    \<and> map pcm_channel out = [0..<length out]
    \<and> (\<forall>p\<in>set out. pcm_rate p = target_rate o' \<and> length (pcm_samples p) =
         (if wf_rate f = target_rate o' then n else nat \<lceil>real n * real (target_rate o') / real (wf_rate f)\<rceil>))
    \<and> (0 < ao_max_dur o' \<longrightarrow> real n \<le> ao_max_dur o' * real (wf_rate f)
         \<and> (\<forall>p\<in>set out. real (length (pcm_samples p)) < ao_max_dur o' * real (target_rate o') + 1))
    \<and> (0 < ao_max_bytes o' \<longrightarrow> int (n * length out * 4) \<le> ao_max_bytes o'
         \<and> (target_rate o' \<le> wf_rate f \<longrightarrow> int (\<Sum>p\<leftarrow>out. length (pcm_samples p) * 4) \<le> ao_max_bytes o')
         \<and> real (\<Sum>p\<leftarrow>out. length (pcm_samples p) * 4)
             < real_of_int (ao_max_bytes o') * (real (target_rate o') / real (wf_rate f)) + real (4 * length out))"
proof -
  obtain f size rest outputs tracks where
    h: "readWAVHeader bs = Inr (f, size, rest)" and sc: "splitChannels o' (wf_channels f) = Inr outputs"
    and rs: "readSamples f32 rest f size o' outputs = Inr tracks"
    and out: "out = map (\<lambda>(i, samples). \<lparr>pcm_samples =
        (if wf_rate f \<noteq> target_rate o' then Resample samples (wf_rate f) (target_rate o') else samples),
        pcm_rate = target_rate o', pcm_source_channels = wf_channels f, pcm_channel = i\<rparr>) (List.enumerate 0 tracks)"
    using assms by (auto simp: wav_Decode_def split: sum.splits prod.splits)
  obtain b where b: "parseFmt b = Inr f" using header_format [OF h] by blast
  obtain width where w: "sampleWidth f = Inr width" "wf_align f = width * wf_channels f" "0 < width"
    "1 \<le> wf_channels f" "1000 \<le> wf_rate f" using parseFmt_align [OF b] by blast
  then have align: "0 < wf_align f" by simp
  define data where "data = (if size > 0 then take size rest else rest)"
  obtain frames where fr: "read_blocks o' f outputs [] data = Inr frames" "frames \<noteq> []"
    and tr: "tracks = map (\<lambda>c. map (\<lambda>m. m ! c)
        (map (mix_frame f32 outputs (ao_mode o' = ''first'') f width) frames)) [0..<outputs]"
    using rs w(1) by (auto simp: readSamples_def data_def Let_def split: if_splits sum.splits)
  define n where "n = length frames"
  have data: "data \<noteq> []" using fr by (auto simp: read_blocks.simps [of o' f outputs "[]" "[]"])
  have lims: "\<not> over (max_frames o' f) n" "\<not> too_many_bytes o' n outputs"
    using read_blocks_Inr [OF align fr(1)] data unfolding n_def by blast+
  have outputs: "outputs = (if ao_mode o' = ''split'' then wf_channels f else 1)"
    "ao_mode o' = ''split'' \<and> 1 < outputs \<and> 0 < ao_max_split o' \<longrightarrow> int outputs \<le> ao_max_split o'"
    using sc w(4) by (auto simp: splitChannels_def split: if_splits)
  have len: "length out = outputs" by (simp add: out tr)
  have trates: "0 < target_rate o'" by (simp add: target_rate_def)
  have each: "\<forall>p\<in>set out. pcm_rate p = target_rate o' \<and> length (pcm_samples p) =
      (if wf_rate f = target_rate o' then n else nat \<lceil>real n * real (target_rate o') / real (wf_rate f)\<rceil>)"
    using w(5) trates by (auto simp: out tr in_set_enumerate_eq Resample_length n_def)
  have chans: "map pcm_channel out = [0..<length out]"
    by (rule nth_equalityI) (simp_all add: out nth_enumerate_eq)
  have dur: "0 < ao_max_dur o' \<longrightarrow> real n \<le> ao_max_dur o' * real (wf_rate f)"
  proof
    assume d: "0 < ao_max_dur o'"
    then have "n \<le> nat \<lfloor>ao_max_dur o' * real (wf_rate f)\<rfloor>"
      using lims(1) by (simp add: over_def max_frames_def)
    moreover have "0 < n" using fr(2) by (simp add: n_def)
    ultimately have "int n \<le> \<lfloor>ao_max_dur o' * real (wf_rate f)\<rfloor>"
      by (cases "0 \<le> \<lfloor>ao_max_dur o' * real (wf_rate f)\<rfloor>") auto
    then have "real n \<le> real_of_int \<lfloor>ao_max_dur o' * real (wf_rate f)\<rfloor>" by linarith
    also have "\<dots> \<le> ao_max_dur o' * real (wf_rate f)" by (rule of_int_floor_le)
    finally show "real n \<le> ao_max_dur o' * real (wf_rate f)" .
  qed
  have mem: "0 < ao_max_bytes o' \<longrightarrow> int (n * length out * 4) \<le> ao_max_bytes o'"
    using lims(2) by (auto simp: too_many_bytes_def len not_less)
  have n: "0 < n" using fr(2) by (simp add: n_def)
  let ?q = "real (target_rate o') / real (wf_rate f)"
  have q: "0 < ?q" using w(5) trates by simp
  define k where "k = (if wf_rate f = target_rate o' then n else nat \<lceil>real n * real (target_rate o') / real (wf_rate f)\<rceil>)"
  have k: "real k < real n * ?q + 1" "target_rate o' \<le> wf_rate f \<longrightarrow> k \<le> n"
    using resampled_frames [of "wf_rate f" "target_rate o'" n] w(5) trates by (simp_all add: k_def)
  have ks: "\<forall>p\<in>set out. length (pcm_samples p) = k" using each by (simp add: k_def)
  then have total: "(\<Sum>p\<leftarrow>out. length (pcm_samples p) * 4) = k * length out * 4" by (induction out) auto
  have dur': "0 < ao_max_dur o' \<longrightarrow> (\<forall>p\<in>set out. real (length (pcm_samples p)) < ao_max_dur o' * real (target_rate o') + 1)"
  proof (intro impI ballI)
    fix p assume d: "0 < ao_max_dur o'" and p: "p \<in> set out"
    have "real n * ?q \<le> ao_max_dur o' * real (wf_rate f) * ?q" using dur d q by (intro mult_right_mono) auto
    also have "\<dots> = ao_max_dur o' * real (target_rate o')" using w(5) by simp
    finally show "real (length (pcm_samples p)) < ao_max_dur o' * real (target_rate o') + 1" using k(1) ks p by simp
  qed
  have mem': "real (k * length out * 4) < real_of_int (ao_max_bytes o') * ?q + real (4 * length out)" if "0 < ao_max_bytes o'"
  proof -
    have "0 < length out" using len outputs(1) w(4) by (simp split: if_splits)
    then have "real k * real (length out) < (real n * ?q + 1) * real (length out)"
      using k(1) by (intro mult_strict_right_mono) auto
    then have "real (k * length out * 4) < (real n * ?q + 1) * real (length out) * 4" by simp
    also have "\<dots> = real_of_int (int (n * length out * 4)) * ?q + real (4 * length out)" by (simp add: algebra_simps)
    also have "\<dots> \<le> real_of_int (ao_max_bytes o') * ?q + real (4 * length out)"
      using mem that q by (intro add_right_mono mult_right_mono) (auto simp only: of_int_le_iff)
    finally show ?thesis .
  qed
  have less: "int (k * length out * 4) \<le> ao_max_bytes o'" if "0 < ao_max_bytes o'" "target_rate o' \<le> wf_rate f"
  proof -
    have "k * length out * 4 \<le> n * length out * 4" using k(2) that(2) by simp
    then show ?thesis using mem that(1) by (metis of_nat_le_iff order_trans)
  qed
  have full: "readWAVHeader bs = Inr (f, size, rest) \<and> 0 < n
    \<and> length out = (if ao_mode o' = ''split'' then wf_channels f else 1)
    \<and> (ao_mode o' = ''split'' \<and> 1 < length out \<and> 0 < ao_max_split o' \<longrightarrow> int (length out) \<le> ao_max_split o')"
    using h n outputs len by simp
  show ?thesis
    apply (rule exI [of _ f], rule exI [of _ size], rule exI [of _ rest], rule exI [of _ n])
    using full each chans dur dur' mem mem' less unfolding total by blast
qed

subsection \<open>The range of a sample\<close>

lemma and_bound: "0 \<le> x AND y \<and> x AND y \<le> y" if "0 \<le> y" for x y :: int
  using that by simp

lemma companded_mask: "0 \<le> uint (a AND 0x0F) \<and> uint (a AND 0x0F) \<le> 15" "0 \<le> uint a AND 0x70 \<and> uint a AND 0x70 \<le> 0x70"
  for a :: byte
  by (simp_all add: uint_and)

lemma exponent_bound: "0 \<le> drop_bit 4 (uint a AND 0x70) \<and> drop_bit 4 (uint a AND 0x70) \<le> 7" for a :: byte
proof -
  have "0 \<le> uint a AND 0x70" "uint a AND 0x70 \<le> 0x70" using companded_mask(2) by auto
  then have "(uint a AND 0x70) div 16 \<le> 0x70 div 16" "0 \<le> (uint a AND 0x70) div 16"
    by (intro zdiv_mono1, simp_all only: pos_imp_zdiv_nonneg_iff)
  then show ?thesis by (simp add: drop_bit_eq_div del: uint_and)
qed

lemma alaw_bound: "\<bar>alawToLinear a\<bar> \<le> 32256"
proof -
  define b where "b = a XOR 0x55"
  define m0 where "m0 = push_bit 4 (uint (b AND 0x0F))"
  define e where "e = drop_bit 4 (uint b AND 0x70)"
  have m0: "0 \<le> m0" "m0 \<le> 240" using companded_mask(1) [of b] by (simp_all add: m0_def push_bit_eq_mult)
  have e: "0 \<le> e" "e \<le> 7" using exponent_bound by (auto simp: e_def)
  have "(2::int) ^ nat (e - 1) \<le> 2 ^ 6" using e by (intro power_increasing) auto
  then have "(m0 + 0x108) * 2 ^ nat (e - 1) \<le> (240 + 0x108) * 2 ^ 6"
    using m0 by (intro mult_mono) auto
  moreover have "0 \<le> (m0 + 0x108) * 2 ^ nat (e - 1)" using m0 by simp
  moreover define m where "m = (if e = 0 then m0 + 8 else if e = 1 then m0 + 0x108 else push_bit (nat (e - 1)) (m0 + 0x108))"
  ultimately have "0 \<le> m" "m \<le> 32256" using m0 by (auto simp: push_bit_eq_mult)
  moreover have "alawToLinear a = (if b AND 0x80 \<noteq> 0 then m else - m)"
    unfolding alawToLinear_def Let_def b_def m_def m0_def e_def ..
  ultimately show ?thesis by (simp split: if_splits)
qed

lemma ulaw_bound: "\<bar>ulawToLinear a\<bar> \<le> 32124"
proof -
  define b where "b = NOT a"
  define m0 where "m0 = push_bit 3 (uint (b AND 0x0F)) + 0x84"
  define e where "e = drop_bit 4 (uint b AND 0x70)"
  have m0: "0x84 \<le> m0" "m0 \<le> 252" using companded_mask(1) [of b] by (simp_all add: m0_def push_bit_eq_mult)
  have e: "0 \<le> e" "e \<le> 7" using exponent_bound by (auto simp: e_def)
  have "(2::int) ^ nat e \<le> 2 ^ 7" using e by (intro power_increasing) auto
  then have "m0 * 2 ^ nat e \<le> 252 * 2 ^ 7" using m0 by (intro mult_mono) auto
  moreover have "m0 \<le> m0 * 2 ^ nat e" using m0 by simp
  then have "0x84 \<le> m0 * 2 ^ nat e" using m0 by linarith
  moreover define m where "m = push_bit (nat e) m0 - 0x84"
  ultimately have "0 \<le> m" "m \<le> 32124" using m0 by (auto simp: push_bit_eq_mult)
  moreover have "ulawToLinear a = (if b AND 0x80 \<noteq> 0 then - m else m)"
    unfolding ulawToLinear_def Let_def b_def m_def m0_def e_def ..
  ultimately show ?thesis by (simp split: if_splits)
qed

lemma abs_div: "\<bar>x\<bar> \<le> k \<Longrightarrow> \<bar>real_of_int x / real_of_int k\<bar> \<le> 1" for x k :: int
proof -
  assume "\<bar>x\<bar> \<le> k"
  then have "\<bar>real_of_int x\<bar> \<le> real_of_int k" by linarith
  then show ?thesis by (cases "k = 0") (simp_all add: abs_divide)
qed

lemma le_nat_less: "le_nat b < 256 ^ length b"
proof (induction b)
  case (Cons x b)
  have "unat x < 256" using unsigned_less [of x, where ?'a = nat] by simp
  with Cons show ?case by simp
qed simp

lemma sign_extend_24:
  fixes v :: "32 word"
  assumes "uint v < 2 ^ 24"
  shows "sint (if v AND 0x800000 \<noteq> 0 then v OR NOT 0xFFFFFF else v) = (if uint v < 2 ^ 23 then uint v else uint v - 2 ^ 24)"
proof -
  have b: "v AND 0x800000 \<noteq> 0 \<longleftrightarrow> 2 ^ 23 \<le> uint v"
  proof -
    have "v AND 0x800000 \<noteq> 0 \<longleftrightarrow> bit v 23" using and_exp_eq_0_iff_not_bit [of v 23] by simp
    also have "\<dots> \<longleftrightarrow> bit (uint v) 23" by (simp add: bit_uint_iff)
    also have "\<dots> \<longleftrightarrow> odd (uint v div 2 ^ 23)" by (rule bit_iff_odd)
    also have "uint v div 2 ^ 23 = (if 2 ^ 23 \<le> uint v then 1 else 0)"
      using assms int_div_pos_eq [of "uint v" "2 ^ 23" 1 "uint v - 2 ^ 23"] by simp
    also have "odd (if 2 ^ 23 \<le> uint v then 1 else 0 :: int) \<longleftrightarrow> 2 ^ 23 \<le> uint v" by simp
    finally show ?thesis .
  qed
  have sint_small: "sint (word_of_int k :: 32 word) = k" if "- (2 ^ 31) \<le> k" "k < 2 ^ 31" for k
    using that by (simp add: sint_sbintrunc' signed_take_bit_int_eq_self)
  have v: "v = word_of_int (uint v)" by simp
  show ?thesis
  proof (cases "2 ^ 23 \<le> uint v")
    case True
    have "v AND NOT 0xFFFFFF = 0"
    proof -
      have "uint (v AND 0xFFFFFF) = uint v AND mask 24" by (simp add: mask_eq_exp_minus_1 uint_and)
      also have "\<dots> = uint v" using assms by (simp add: take_bit_eq_mask [symmetric] take_bit_int_eq_self)
      finally have "v AND 0xFFFFFF = v" by (simp add: word_uint_eq_iff)
      then have "v AND NOT 0xFFFFFF = (v AND 0xFFFFFF) AND NOT 0xFFFFFF" by (simp only:)
      also have "\<dots> = v AND (0xFFFFFF AND NOT 0xFFFFFF)" by (rule and.assoc)
      also have "\<dots> = 0" by (simp only: bit.conj_cancel_right bit.conj_zero_right)
      finally show ?thesis .
    qed
    then have "v OR NOT 0xFFFFFF = v + NOT 0xFFFFFF"
      using word_plus_and_or [of v "NOT 0xFFFFFF"] by (simp only: add_0_left)
    also have "\<dots> = word_of_int (uint v - 2 ^ 24)" by simp
    finally have e: "v OR NOT 0xFFFFFF = word_of_int (uint v - 2 ^ 24)" .
    have "sint (word_of_int (uint v - 2 ^ 24) :: 32 word) = uint v - 2 ^ 24"
      using True assms by (intro sint_small) auto
    with True b e show ?thesis by simp
  next
    case False
    have "sint (word_of_int (uint v) :: 32 word) = uint v"
      using False by (intro sint_small) (auto intro: order_trans [OF _ uint_ge_0])
    then show ?thesis using False b by simp
  qed
qed

lemma sample_range:
  assumes "sampleWidth f = Inr width" "length b \<le> width" "wf_tag f \<noteq> wavIEEEFloat"
  shows "\<bar>sampleToFloat f32 b f\<bar> \<le> 1"
proof -
  have s16: "\<bar>sint w\<bar> \<le> 32768" for w :: "16 word" using sint_ge [of w] sint_lt [of w] by simp
  have s32: "\<bar>sint w\<bar> \<le> 2147483648" for w :: "32 word" using sint_ge [of w] sint_lt [of w] by simp
  have s8: "\<bar>int (unat w) - 128\<bar> \<le> 128" for w :: byte using unsigned_less [of w, where ?'a = int] by (simp add: abs_le_iff)
  consider "wf_tag f = wavALaw" | "wf_tag f = wavMuLaw" | "wf_tag f \<notin> {wavALaw, wavMuLaw}" "wf_bits f = 8"
    | "wf_tag f \<notin> {wavALaw, wavMuLaw}" "wf_bits f = 16" | "wf_tag f \<notin> {wavALaw, wavMuLaw}" "wf_bits f = 24"
    | "wf_tag f \<notin> {wavALaw, wavMuLaw}" "wf_bits f = 32"
    using assms(1,3) by (auto simp: sampleWidth_def split: if_splits)
  then show ?thesis
  proof cases
    case 1
    then show ?thesis using abs_div [of "alawToLinear (b ! 0)" 32768] alaw_bound [of "b ! 0"] by (simp add: sampleToFloat_def)
  next
    case 2
    then show ?thesis using abs_div [of "ulawToLinear (b ! 0)" 32768] ulaw_bound [of "b ! 0"]
      by (simp add: sampleToFloat_def wav_tags)
  next
    case 3
    then show ?thesis using abs_div [of "int (unat (b ! 0)) - 128" 128] s8 [of "b ! 0"] assms(3)
      by (simp add: sampleToFloat_def)
  next
    case 4
    then show ?thesis using abs_div [of "sint (word_of_nat (le_nat b) :: 16 word)" 32768] s16 assms(3)
      by (simp add: sampleToFloat_def)
  next
    case 5
    let ?v = "word_of_nat (le_nat b) :: 32 word"
    have "width = 3" using assms(1,3) 5 by (auto simp: sampleWidth_def split: if_splits)
    then have "(256 :: nat) ^ length b \<le> 256 ^ 3" using assms(2) by (intro power_increasing) auto
    then have "le_nat b < 2 ^ 24" using le_nat_less [of b] by simp
    then have u: "uint ?v < 2 ^ 24" by (simp add: uint_nat unat_of_nat)
    have "\<bar>sint (if ?v AND 0x800000 \<noteq> 0 then ?v OR NOT 0xFFFFFF else ?v)\<bar> \<le> 8388608"
      unfolding sign_extend_24 [OF u] using u by (auto intro: order_trans [OF _ uint_ge_0])
    from abs_div [OF this] show ?thesis using 5 assms(3) by (simp add: sampleToFloat_def Let_def)
  next
    case 6
    then show ?thesis using abs_div [of "sint (word_of_nat (le_nat b) :: 32 word)" 2147483648] s32 assms(3)
      by (simp add: sampleToFloat_def)
  qed
qed

subsection \<open>The ffmpeg output reader\<close>

lemma f32_samples_append:
  assumes "f32_samples f32 a = (xs, r)"
  shows "f32_samples f32 (a @ b) = (case f32_samples f32 (r @ b) of (ys, r') \<Rightarrow> (xs @ ys, r'))"
  using assms
proof (induction f32 a arbitrary: xs r rule: f32_samples.induct)
  case (1 f32 a b' c d bs)
  then show ?case by (auto split: prod.splits)
qed auto

lemma f32_samples_rest: "length (snd (f32_samples f32 bs)) < 4"
  by (induction f32 bs rule: f32_samples.induct) (auto split: prod.splits)

lemma f32_samples_short: "length bs < 4 \<Longrightarrow> f32_samples f32 bs = ([], bs)"
  by (cases "(f32, bs)" rule: f32_samples.cases) auto

lemma f32_samples_one: "length c = 4 \<Longrightarrow> f32_samples f32 (c @ bs) = (case f32_samples f32 bs of (xs, r) \<Rightarrow> (f32 (le_nat c) # xs, r))"
proof -
  assume "length c = 4"
  then have "\<exists>w x y z. c = [w, x, y, z]" by (simp add: numeral_eq_Suc length_Suc_conv) blast
  then show ?thesis by auto
qed

lemma read_f32_loop_spec:
  assumes "\<not> over m (length out)" "length carry < 4"
  shows "read_f32_loop f32 m out carry reads =
    (let xs = out @ fst (f32_samples f32 (carry @ concat reads)) in
     if over m (length xs) then Inl (Domain CodeDurationExceeded []) else Inr xs)"
  using assms
proof (induction reads arbitrary: out carry)
  case Nil
  then show ?case by (simp add: f32_samples_short Let_def)
next
  case (Cons buf reads)
  show ?case
  proof (cases "buf = [] \<or> (carry \<noteq> [] \<and> length buf < 4 - length carry)")
    case True
    then show ?thesis using Cons by (cases "buf = []") auto
  next
    case False
    define need where "need = (if carry = [] then 0 else 4 - length carry)"
    define out1 where "out1 = (if carry = [] then out else out @ [f32 (le_nat (carry @ take need buf))])"
    obtain xs rest where xr: "f32_samples f32 (drop need buf) = (xs, rest)" by fastforce
    have pre: "f32_samples f32 (carry @ buf) = (drop (length out) out1 @ xs, rest)"
    proof (cases "carry = []")
      case True
      then show ?thesis using xr by (simp add: need_def out1_def)
    next
      case c: False
      have "length (carry @ take need buf) = 4" using False c Cons.prems(2) by (auto simp: need_def)
      from f32_samples_one [OF this, of f32 "drop need buf"] show ?thesis
        using xr c by (simp add: out1_def)
    qed
    have o1: "out @ drop (length out) out1 = out1" by (simp add: out1_def)
    have tot: "fst (f32_samples f32 (carry @ concat (buf # reads))) =
        drop (length out) out1 @ xs @ fst (f32_samples f32 (rest @ concat reads))"
      using f32_samples_append [OF pre, of "concat reads"] by (simp split: prod.split)
    have unf: "read_f32_loop f32 m out carry (buf # reads) =
        (if over m (length (out1 @ xs)) then Inl (Domain CodeDurationExceeded [])
         else read_f32_loop f32 m (out1 @ xs) rest reads)"
      using False xr by (auto simp: need_def [symmetric] out1_def [symmetric] Let_def)
    have whole: "out @ fst (f32_samples f32 (carry @ concat (buf # reads))) =
        (out1 @ xs) @ fst (f32_samples f32 (rest @ concat reads))"
      unfolding tot using o1 by (metis append.assoc)
    show ?thesis
    proof (cases "over m (length (out1 @ xs))")
      case True
      have "over m (length ((out1 @ xs) @ ys))" for ys
        using True by (auto simp: over_def split: option.splits)
      then show ?thesis unfolding unf whole Let_def using True by simp
    next
      case nov: False
      have "length rest < 4" using f32_samples_rest [of f32 "drop need buf"] xr by simp
      from Cons.IH [OF nov this] show ?thesis unfolding unf whole using nov by simp
    qed
  qed
qed

text \<open>C37: what is decoded does not depend on how the stream was cut. However ffmpeg's output arrives -
  empty reads, single bytes, samples split across reads - the reader returns exactly the whole
  samples of the bytes in order, or the limit error if and only if there are more of them than the
  tighter of the duration and the memory limit allows.\<close>

theorem ffmpeg_reads_any_chunking:
  "readFloat32LE f32 rate maxDur maxBytes reads =
    (let xs = fst (f32_samples f32 (concat reads)) in
     if over (max_samples rate maxDur maxBytes) (length xs) then Inl (Domain CodeDurationExceeded []) else Inr xs)"
proof -
  have "\<not> over (max_samples rate maxDur maxBytes) (length [])" by (simp add: over_def split: option.split)
  from read_f32_loop_spec [OF this, of "[]" f32 reads] show ?thesis by (simp add: readFloat32LE_def)
qed

text \<open>Nothing a client sent is an argument: the command line is fixed words and one number.\<close>

lemma ffmpeg_args_fixed:
  "set (ffmpeg_args soxr o') \<subseteq> {FormatInt (int (target_rate o')), ''-hide_banner'', ''-nostdin'', ''-loglevel'', ''error'',
     ''-i'', ''pipe:0'', ''-vn'', ''-sn'', ''-dn'', ''-map'', ''0:a:0'', ''-ar'', ''-af'', ''-c:a'', ''pcm_f32le'', ''-f'',
     ''wav'', ''f32le'', ''-ac'', ''1'', ''pipe:1'', ''aresample'', ''aresample=resampler=soxr'',
     ''pan=mono|c0=c0,aresample'', ''pan=mono|c0=c0,aresample=resampler=soxr''}"
  by (simp add: ffmpeg_args_def Let_def)

subsection \<open>Writing and reading back\<close>

lemma parse_written_fmt:
  assumes "1000 \<le> rate" "rate \<le> 384000"
  shows "parseFmt (le_bytes 2 1 @ le_bytes 2 1 @ le_bytes 4 (rate mod 2 ^ 32)
      @ le_bytes 4 (rate * 1 * 16 div 8 mod 2 ^ 32) @ le_bytes 2 2 @ le_bytes 2 16)
    = Inr \<lparr>wf_tag = 1, wf_channels = 1, wf_rate = rate, wf_bits = 16, wf_align = 2\<rparr>" (is "parseFmt ?b = _")
proof -
  have f: "le_nat (slice_at ?b 0 2) = 1" "le_nat (slice_at ?b 2 2) = 1" "le_nat (slice_at ?b 4 4) = rate"
    "le_nat (slice_at ?b 14 2) = 16" "le_nat (slice_at ?b 12 2) = 2"
    using assms by (simp_all add: slice_at_def le_nat_bytes le_nat_le_bytes)
  show ?thesis unfolding parseFmt_def f using assms by (simp add: sampleWidth_def wav_tags)
qed

lemma bytes_of_eq: "bytes_of s = bytes_of t \<longleftrightarrow> s = t"
proof -
  have "inj (\<lambda>c. word_of_nat (of_char c) :: byte)"
  proof (rule injI)
    fix c d :: char assume "word_of_nat (of_char c) = (word_of_nat (of_char d) :: byte)"
    then have "unat (word_of_nat (of_char c) :: byte) = unat (word_of_nat (of_char d) :: byte)" by simp
    then show "c = d" by (simp add: unat_of_nat)
  qed
  then show ?thesis unfolding bytes_of_def by (rule inj_map_eq_map)
qed

lemma read_written_header:
  assumes "1000 \<le> rate" "rate \<le> 384000" "0 < n" "n < 2 ^ 32 - 1"
  shows "readWAVHeader (WAVHeader rate n @ rest) =
    Inr (\<lparr>wf_tag = 1, wf_channels = 1, wf_rate = rate, wf_bits = 16, wf_align = 2\<rparr>, n, rest)"
proof -
  let ?fmt = "le_bytes 2 1 @ le_bytes 2 1 @ le_bytes 4 (rate mod 2 ^ 32)
      @ le_bytes 4 (rate * 1 * 16 div 8 mod 2 ^ 32) @ le_bytes 2 2 @ le_bytes 2 16"
  let ?f = "\<lparr>wf_tag = 1, wf_channels = 1, wf_rate = rate, wf_bits = 16, wf_align = 2\<rparr>"
  let ?tail = "bytes_of ''data'' @ le_bytes 4 n @ rest"
  have n: "min n MaxUint32 = n" using assms(4) by (simp add: MaxUint32_def)
  have wavefmt: "bytes_of ''WAVEfmt '' = bytes_of ''WAVE'' @ bytes_of ''fmt ''" by (simp add: bytes_of_def)
  have h: "WAVHeader rate n @ rest = bytes_of ''RIFF'' @ le_bytes 4 (min (n + 44 - 8) MaxUint32)
      @ bytes_of ''WAVE'' @ (bytes_of ''fmt '' @ le_bytes 4 16 @ (?fmt @ ?tail))"
    unfolding WAVHeader_def n wavefmt by simp
  have riff: "slice_at (WAVHeader rate n @ rest) 0 4 = bytes_of ''RIFF''"
    "slice_at (WAVHeader rate n @ rest) 8 4 = bytes_of ''WAVE''"
    "drop 12 (WAVHeader rate n @ rest) = bytes_of ''fmt '' @ le_bytes 4 16 @ (?fmt @ ?tail)"
    "\<not> length (WAVHeader rate n @ rest) < 12"
    unfolding h by (simp_all add: slice_at_def)
  have t16: "take 16 (?fmt @ ?tail) = ?fmt" "drop 16 (?fmt @ ?tail) = ?tail" by simp_all
  note A = read_chunks_chunk [of "bytes_of ''fmt ''" 16 "?fmt @ ?tail"]
  note B = read_chunks_chunk [of "bytes_of ''data''" n rest]
  have "read_chunks (Some ?f) ?tail = Inr (?f, n, rest)"
    using B assms(3,4) by (subst read_chunks.simps) (simp add: Let_def bytes_of_eq)
  moreover have "read_chunks None (bytes_of ''fmt '' @ le_bytes 4 16 @ (?fmt @ ?tail)) = read_chunks (Some ?f) ?tail"
    using A parse_written_fmt [OF assms(1,2)] t16
    by (subst read_chunks.simps) (simp add: Let_def maxFmtChunk_def del: append_assoc One_nat_def)
  moreover have "readWAVHeader (WAVHeader rate n @ rest) = read_chunks None (drop 12 (WAVHeader rate n @ rest))"
    using riff by (simp add: readWAVHeader_def del: length_append)
  ultimately show ?thesis unfolding riff(3) by simp
qed

lemma frames_of_concat: "\<forall>x\<in>set xs. length x = a \<Longrightarrow> frames_of a (length xs) (concat xs) = xs"
  by (induction xs) simp_all

lemma pcm16_range: "- 32768 \<le> pcm16 s \<and> pcm16 s \<le> 32767"
  by (simp add: pcm16_def)

lemma pcm16_read:
  "sampleToFloat f32 (le_bytes 2 (unat (word_of_int (pcm16 s) :: 16 word)))
     \<lparr>wf_tag = 1, wf_channels = 1, wf_rate = rate, wf_bits = 16, wf_align = 2\<rparr> = real_of_int (pcm16 s) / 32768"
proof -
  have "unat (word_of_int (pcm16 s) :: 16 word) < 2 ^ 16"
    using unsigned_less [of "word_of_int (pcm16 s) :: 16 word", where ?'a = nat] by simp
  then have e: "le_nat (le_bytes 2 (unat (word_of_int (pcm16 s) :: 16 word))) = unat (word_of_int (pcm16 s) :: 16 word)"
    by (intro le_nat_bytes) simp
  have "sint (word_of_int (pcm16 s) :: 16 word) = pcm16 s"
    using pcm16_range [of s] by (simp add: sint_sbintrunc' signed_take_bit_int_eq_self)
  then show ?thesis by (simp add: sampleToFloat_def wav_tags e)
qed

lemma pcm16_error:
  assumes "- 1 \<le> s" "s \<le> 1"
  shows "\<bar>real_of_int (pcm16 s) / 32768 - s\<bar> \<le> 3 / 65536"
proof -
  have r: "\<bar>real_of_int (go_round x) - x\<bar> \<le> 1 / 2" for x
  proof -
    have f: "real_of_int \<lfloor>y\<rfloor> \<le> y" "y < real_of_int \<lfloor>y\<rfloor> + 1" for y :: real by linarith+
    show ?thesis
    proof (cases "x < 0")
      case True
      then have "real_of_int (go_round x) = - real_of_int \<lfloor>1 / 2 - x\<rfloor>" by (simp add: go_round_def)
      with f [of "1 / 2 - x"] show ?thesis by linarith
    next
      case False
      then have "real_of_int (go_round x) = real_of_int \<lfloor>x + 1 / 2\<rfloor>" by (simp add: go_round_def)
      with f [of "x + 1 / 2"] show ?thesis by linarith
    qed
  qed
  have "- 32767 \<le> s * 32767" "s * 32767 \<le> 32767" using assms by auto
  with r [of "s * 32767"] have "- 32768 \<le> go_round (s * 32767)" "go_round (s * 32767) \<le> 32767" by linarith+
  then have "pcm16 s = go_round (s * 32767)" by (simp add: pcm16_def)
  with r [of "s * 32767"] have "\<bar>real_of_int (pcm16 s) - s * 32767\<bar> \<le> 1 / 2" by simp
  then have "\<bar>real_of_int (pcm16 s) - s * 32768\<bar> \<le> 3 / 2" using assms by linarith
  then show ?thesis by (simp add: abs_le_iff field_simps)
qed

lemma wav_written:
  assumes "1000 \<le> rate" "rate \<le> 384000" "samples \<noteq> []" "2 * length samples < 2 ^ 32 - 1"
    "\<forall>n\<le>length samples. \<not> over (max_frames o' \<lparr>wf_tag = 1, wf_channels = 1, wf_rate = rate, wf_bits = 16, wf_align = 2\<rparr>) n
      \<and> \<not> too_many_bytes o' n 1"
  shows "wav_Decode f32 (WriteWAV rate samples) o' =
      Inr [\<lparr>pcm_samples = (let xs = map (\<lambda>s. real_of_int (pcm16 s) / 32768) samples
                           in if rate \<noteq> target_rate o' then Resample xs rate (target_rate o') else xs),
            pcm_rate = target_rate o', pcm_source_channels = 1, pcm_channel = 0\<rparr>]"
proof -
  let ?f = "\<lparr>wf_tag = 1, wf_channels = 1, wf_rate = rate, wf_bits = 16, wf_align = 2\<rparr>"
  let ?words = "map (\<lambda>s. le_bytes 2 (unat (word_of_int (pcm16 s) :: 16 word))) samples"
  have len: "length (EncodePCM16 samples) = 2 * length samples"
    by (simp add: EncodePCM16_def length_concat comp_def sum_list_triv)
  have h: "readWAVHeader (WriteWAV rate samples) = Inr (?f, 2 * length samples, EncodePCM16 samples)"
    unfolding WriteWAV_def Let_def len
    by (rule read_written_header [OF assms(1,2)]) (use assms(3,4) in auto)
  obtain frames where fr: "read_blocks o' ?f 1 [] (EncodePCM16 samples) = Inr frames"
    using read_blocks_within [OF _ assms(5), of "[]" "EncodePCM16 samples"] by (auto simp: len)
  have "frames = frames_of 2 (length samples) (EncodePCM16 samples)"
    using read_blocks_Inr [OF _ fr] by (simp add: len)
  also have "\<dots> = ?words"
    unfolding EncodePCM16_def using frames_of_concat [of ?words 2] by simp
  finally have frames: "frames = ?words" .
  have mix: "map (mix_frame f32 1 (ao_mode o' = ''first'') ?f 2) frames = map (\<lambda>s. [real_of_int (pcm16 s) / 32768]) samples"
  proof -
    have "slice_at (le_bytes 2 n) 0 2 = le_bytes 2 n" for n by (simp add: slice_at_def)
    then show ?thesis using pcm16_read [of f32 _ rate] unfolding frames by (simp add: mix_frame_def)
  qed
  have "sampleWidth ?f = Inr 2" by (simp add: sampleWidth_def wav_tags)
  then have rs: "readSamples f32 (EncodePCM16 samples) ?f (2 * length samples) o' 1 =
      Inr [map (\<lambda>s. real_of_int (pcm16 s) / 32768) samples]"
    using assms(5) fr frames mix assms(3) len by (simp add: readSamples_def Let_def)
  then show ?thesis by (simp add: wav_Decode_def h splitChannels_def Let_def)
qed

lemma wav_written_same_rate:
  assumes "1000 \<le> rate" "rate \<le> 384000" "samples \<noteq> []" "2 * length samples < 2 ^ 32 - 1"
    "ao_rate o' = int rate" "ao_max_dur o' \<le> 0" "ao_max_bytes o' \<le> 0"
  shows "wav_Decode f32 (WriteWAV rate samples) o' =
      Inr [\<lparr>pcm_samples = map (\<lambda>s. real_of_int (pcm16 s) / 32768) samples, pcm_rate = rate,
            pcm_source_channels = 1, pcm_channel = 0\<rparr>]"
proof -
  have "target_rate o' = rate" using assms(1,5) by (simp add: target_rate_def)
  then show ?thesis
    using wav_written [OF assms(1-4), of o' f32] assms(6,7) by (simp add: over_def max_frames_def too_many_bytes_def)
qed

text \<open>C38: what is written as WAV reads back. A non-empty recording of fewer than two billion samples, at
  a rate the decoder accepts and with no limits set, comes back from the decoder as one mono track
  of the same length and rate, each sample the 16-bit value it was rounded and clipped to; a sample
  between -1 and 1 is off by at most three parts in 65536.\<close>

theorem wav_roundtrip:
  assumes "1000 \<le> rate" "rate \<le> 384000" "samples \<noteq> []" "2 * length samples < 2 ^ 32 - 1"
    "ao_rate o' = int rate" "ao_max_dur o' \<le> 0" "ao_max_bytes o' \<le> 0"
  shows "wav_Decode f32 (WriteWAV rate samples) o' =
      Inr [\<lparr>pcm_samples = map (\<lambda>s. real_of_int (pcm16 s) / 32768) samples, pcm_rate = rate,
            pcm_source_channels = 1, pcm_channel = 0\<rparr>]
    \<and> (\<forall>s\<in>set samples. - 1 \<le> s \<and> s \<le> 1 \<longrightarrow> \<bar>real_of_int (pcm16 s) / 32768 - s\<bar> \<le> 3 / 65536)"
  using wav_written_same_rate [where rate = rate and samples = samples, OF assms] pcm16_error by blast

definition no_limits :: "int \<Rightarrow> audio_options" where
  "no_limits rate = \<lparr>ao_rate = rate, ao_mode = ''downmix'', ao_max_dur = 0, ao_max_split = 0, ao_max_bytes = 0\<rparr>"

theorem wav_roundtrip_witness:
  "wav_Decode (\<lambda>_. 0) (WriteWAV 16000 [1, 0]) (no_limits 16000) =
     Inr [\<lparr>pcm_samples = [32767 / 32768, 0], pcm_rate = 16000, pcm_source_channels = 1, pcm_channel = 0\<rparr>]"
proof -
  have p: "pcm16 1 = 32767" "pcm16 0 = 0" by (simp_all add: pcm16_def go_round_def)
  show ?thesis
    using wav_roundtrip [of 16000 "[1, 0]" "no_limits 16000" "\<lambda>_. 0"] by (simp add: no_limits_def p)
qed

text \<open>Two samples at 8 kHz, decoded to 16 kHz under a duration limit of a millisecond and a memory limit
  of eight bytes: the file is accepted, since its two frames need eight, and four samples, sixteen
  bytes, are returned.\<close>

definition tight_limits :: audio_options where
  "tight_limits = \<lparr>ao_rate = 16000, ao_mode = ''downmix'', ao_max_dur = 1 / 1000, ao_max_split = 0, ao_max_bytes = 8\<rparr>"

definition upsampled :: pcm where
  "upsampled = \<lparr>pcm_samples = Resample (map (\<lambda>s. real_of_int (pcm16 s) / 32768) [1, 0]) 8000 16000, pcm_rate = 16000,
     pcm_source_channels = 1, pcm_channel = 0\<rparr>"

lemma tight_decode: "wav_Decode (\<lambda>_. 0) (WriteWAV 8000 [1, 0]) tight_limits = Inr [upsampled]"
proof -
  have "\<lfloor>8 :: real\<rfloor> = 8" by (rule floor_numeral)
  then show ?thesis
    using wav_written [of 8000 "[1, 0]" tight_limits "\<lambda>_. 0"]
    by (simp add: tight_limits_def upsampled_def over_def max_frames_def too_many_bytes_def target_rate_def)
qed

lemma upsampled_exceeds_the_limit:
  "wav_Decode (\<lambda>_. 0) (WriteWAV 8000 [1, 0]) tight_limits = Inr [upsampled] \<and> ao_max_bytes tight_limits = 8
   \<and> length (pcm_samples upsampled) * 4 = 16"
proof -
  have "\<lceil>4 :: real\<rceil> = 4" by (rule ceiling_numeral)
  then show ?thesis using tight_decode by (simp add: tight_limits_def upsampled_def Resample_length)
qed

theorem wav_decode_limits_witness:
  "\<exists>f size rest n. readWAVHeader (WriteWAV 8000 [1, 0]) = Inr (f, size, rest) \<and> 0 < n \<and> n * 4 \<le> (8 :: nat)
    \<and> real (length (pcm_samples upsampled)) < 1 / 1000 * 16000 + 1"
proof -
  have v: "ao_max_bytes tight_limits = 8" "ao_max_dur tight_limits = 1 / 1000" "target_rate tight_limits = 16000"
    by (simp_all add: tight_limits_def target_rate_def)
  obtain f size rest n where h: "readWAVHeader (WriteWAV 8000 [1, 0]) = Inr (f, size, rest)" "0 < n"
    and d: "(0 :: real) < 1 / 1000 \<longrightarrow> (\<forall>p\<in>set [upsampled]. real (length (pcm_samples p)) < 1 / 1000 * real 16000 + 1)"
    and m: "(0 :: int) < 8 \<longrightarrow> int (n * length [upsampled] * 4) \<le> 8"
    using wav_decode_limits [OF tight_decode, unfolded v] by blast
  have "real (length (pcm_samples upsampled)) < 1 / 1000 * 16000 + 1" using d by simp
  moreover have "n * 4 \<le> 8" using m by simp
  ultimately show ?thesis using h by blast
qed

end
