(* ===== verification/Webhook.thy ===== *)
theory Webhook
  imports Core "HOL-Library.Word"
begin

section \<open>Delivering a finished job (internal/webhook)\<close>

unbundle bit_operations_syntax

text \<open>
  The address check, the retry loop and what is signed. An address is its 4 or 16 bytes. The URL
  parser, the address parser, HMAC and the HTTP client are parameters; the resolver is asked each
  time a name is used, so its answers are a sequence.
\<close>

type_synonym ip = "8 word list"

text \<open>\<open>net.IP.To4\<close>: the four bytes of a v4 or v4-mapped address.\<close>

definition To4 :: "ip \<Rightarrow> ip option" where
  "To4 a =
     (if length a = 4 then Some a
      else if length a = 16 \<and> take 12 a = replicate 10 0 @ [0xFF, 0xFF] then Some (drop 12 a)
      else None)"

definition normal_ip :: "ip \<Rightarrow> ip" where
  "normal_ip a = (case To4 a of Some v \<Rightarrow> v | None \<Rightarrow> a)"

text \<open>A mask of \<open>n\<close> leading one bits over \<open>k\<close> bytes.\<close>

fun cidr_mask :: "nat \<Rightarrow> nat \<Rightarrow> ip" where
  "cidr_mask 0 n = []"
| "cidr_mask (Suc k) n = (if n \<ge> 8 then 0xFF # cidr_mask k (n - 8) else NOT (drop_bit n 0xFF) # cidr_mask k 0)"

text \<open>A network: its address with the host bits cleared, and its mask.\<close>

type_synonym ip_net = "ip \<times> ip"

definition mustCIDR :: "ip \<Rightarrow> nat \<Rightarrow> ip_net" where
  "mustCIDR a n = (let m = cidr_mask (length a) n in (map2 (AND) a m, m))"

definition net_contains :: "ip_net \<Rightarrow> ip \<Rightarrow> bool" where
  "net_contains n a =
     (let x = normal_ip a in length x = length (fst n) \<and> map2 (AND) x (snd n) = map2 (AND) (fst n) (snd n))"

definition blocked :: "ip_net list" where
  "blocked =
     [mustCIDR [0, 0, 0, 0] 8, mustCIDR [10, 0, 0, 0] 8, mustCIDR [100, 64, 0, 0] 10, mustCIDR [127, 0, 0, 0] 8,
      mustCIDR [169, 254, 0, 0] 16, mustCIDR [172, 16, 0, 0] 12, mustCIDR [192, 0, 0, 0] 24, mustCIDR [192, 168, 0, 0] 16,
      mustCIDR [198, 18, 0, 0] 15, mustCIDR [224, 0, 0, 0] 4, mustCIDR [240, 0, 0, 0] 4,
      mustCIDR (replicate 15 0 @ [1]) 128, mustCIDR (0xFC # replicate 15 0) 7, mustCIDR ([0xFE, 0x80] @ replicate 14 0) 10,
      mustCIDR (0xFF # replicate 15 0) 8,
      mustCIDR ([0x00, 0x64, 0xFF, 0x9B, 0x00, 0x01] @ replicate 10 0) 48]"

definition checkIP :: "ip \<Rightarrow> bool" where
  "checkIP a = (\<not> list_ex (\<lambda>n. net_contains n (normal_ip a)) blocked)"

text \<open>A parsed URL is its scheme, in lower case, and its host name.\<close>

record url = u_scheme :: string u_host :: string

datatype url_error = NotURL | NotHTTPS | NoHost | CannotResolve gerr | ResolvesToNothing | NotPublic

definition checkURL ::
  "(string \<Rightarrow> url option) \<Rightarrow> (string \<Rightarrow> ip option) \<Rightarrow> (string \<Rightarrow> gerr + ip list) \<Rightarrow> bool \<Rightarrow> string \<Rightarrow> url_error option" where
  "checkURL parse_url parse_ip resolve allowPrivate raw =
     (case parse_url raw of None \<Rightarrow> Some NotURL
      | Some u \<Rightarrow>
        if u_scheme u \<noteq> ''https'' then Some NotHTTPS
        else if u_host u = [] then Some NoHost
        else if allowPrivate then None
        else case parse_ip (u_host u) of
          Some a \<Rightarrow> if checkIP a then None else Some NotPublic
        | None \<Rightarrow>
            (case resolve (u_host u) of
               Inl e \<Rightarrow> Some (CannotResolve e)
             | Inr ips \<Rightarrow>
                 if ips = [] then Some ResolvesToNothing
                 else if list_all checkIP ips then None else Some NotPublic))"

subsection \<open>Delivery (webhook.go)\<close>

definition maxAttempts :: nat where "maxAttempts = 3"

text \<open>The answer to one POST: no answer at all, or a status.\<close>

datatype post_result = NoAnswer | Status nat

definition post_ok :: "post_result \<Rightarrow> bool" where
  "post_ok r = (case r of NoAnswer \<Rightarrow> False | Status s \<Rightarrow> 200 \<le> s \<and> s \<le> 299)"

definition permanent :: "post_result \<Rightarrow> bool" where
  "permanent r = (case r of NoAnswer \<Rightarrow> False | Status s \<Rightarrow> 400 \<le> s \<and> s < 500 \<and> s \<noteq> 429)"

datatype wait_event = Elapsed | Stopped | Expired

datatype delivery = Delivered | Refused post_result | ShutDown nat | GaveUp nat | Exhausted post_result

text \<open>From one attempt on: \<open>posts\<close> are the answers the receiver would give, \<open>waits\<close> how the pause
  before each later attempt ends. The result and how many posts were made.\<close>

function deliver_loop :: "nat \<Rightarrow> (nat \<Rightarrow> post_result) \<Rightarrow> (nat \<Rightarrow> wait_event) \<Rightarrow> post_result \<Rightarrow> delivery \<times> nat" where
  "deliver_loop attempt posts waits prev =
     (if attempt \<ge> maxAttempts then (Exhausted prev, 0)
      else if attempt > 0 \<and> waits attempt = Stopped then (ShutDown attempt, 0)
      else if attempt > 0 \<and> waits attempt = Expired then (GaveUp attempt, 0)
      else
        let r = posts attempt in
        if post_ok r then (Delivered, 1)
        else if permanent r then (Refused r, 1)
        else case deliver_loop (Suc attempt) posts waits r of (d, n) \<Rightarrow> (d, Suc n))"
  by auto
termination
  by (relation "measure (\<lambda>(attempt, posts, waits, prev). maxAttempts - attempt)") (auto simp: maxAttempts_def)

declare deliver_loop.simps [simp del]

definition deliver ::
  "url_error option \<Rightarrow> (nat \<Rightarrow> post_result) \<Rightarrow> (nat \<Rightarrow> wait_event) \<Rightarrow> url_error + (delivery \<times> nat)" where
  "deliver checked posts waits =
     (case checked of Some e \<Rightarrow> Inl e | None \<Rightarrow> Inr (deliver_loop 0 posts waits NoAnswer))"

text \<open>What is signed, and the signature header; no secret, no header.\<close>

definition signed_material :: "string \<Rightarrow> string \<Rightarrow> string" where
  "signed_material timestamp body = timestamp @ ''.'' @ body"

definition webhook_Sign :: "(string \<Rightarrow> string \<Rightarrow> string) \<Rightarrow> (string \<Rightarrow> string) \<Rightarrow> string \<Rightarrow> string \<Rightarrow> string \<Rightarrow> string" where
  "webhook_Sign hmac hex secret timestamp body = hex (hmac secret (signed_material timestamp body))"

definition signature_header ::
  "(string \<Rightarrow> string \<Rightarrow> string) \<Rightarrow> (string \<Rightarrow> string) \<Rightarrow> string \<Rightarrow> int \<Rightarrow> string \<Rightarrow> string option" where
  "signature_header hmac hex secret now body =
     (if secret = [] then None
      else Some (''sha256='' @ webhook_Sign hmac hex secret (FormatInt (now div 1000000000)) body))"

subsection \<open>Which addresses are refused\<close>

lemma byte_cases: "list_all P [0..255] \<Longrightarrow> P (uint b)" for b :: "8 word"
proof -
  have "uint b \<in> set [0..255]" using unsigned_less [of b, where ?'a = int] by simp
  then show "list_all P [0..255] \<Longrightarrow> ?thesis" unfolding list_all_iff by blast
qed

lemma mask_table:
  "b AND 0xC0 = 0x40 \<longleftrightarrow> 64 \<le> b \<and> b \<le> 127"
  "b AND 0xF0 = 0x10 \<longleftrightarrow> 16 \<le> b \<and> b \<le> 31"
  "b AND 0xFE = 0x12 \<longleftrightarrow> b = 18 \<or> b = 19"
  "b AND 0xF0 = 0xE0 \<longleftrightarrow> 224 \<le> b \<and> b \<le> 239"
  "b AND 0xF0 = 0xF0 \<longleftrightarrow> 240 \<le> b"
  "b AND 0xFE = 0xFC \<longleftrightarrow> b = 0xFC \<or> b = 0xFD"
  "b AND 0xC0 = 0x80 \<longleftrightarrow> 0x80 \<le> b \<and> b \<le> 0xBF"
  for b :: "8 word"
proof -
  have "uint b AND 0xC0 = 0x40 \<longleftrightarrow> 64 \<le> uint b \<and> uint b \<le> 127"
    by (rule byte_cases [of "\<lambda>b. b AND 0xC0 = 0x40 \<longleftrightarrow> 64 \<le> b \<and> b \<le> 127"]) code_simp
  then show "b AND 0xC0 = 0x40 \<longleftrightarrow> 64 \<le> b \<and> b \<le> 127"
    by (simp add: word_uint_eq_iff word_le_def uint_and)
  have "uint b AND 0xF0 = 0x10 \<longleftrightarrow> 16 \<le> uint b \<and> uint b \<le> 31"
    by (rule byte_cases [of "\<lambda>b. b AND 0xF0 = 0x10 \<longleftrightarrow> 16 \<le> b \<and> b \<le> 31"]) code_simp
  then show "b AND 0xF0 = 0x10 \<longleftrightarrow> 16 \<le> b \<and> b \<le> 31"
    by (simp add: word_uint_eq_iff word_le_def uint_and)
  have "uint b AND 0xFE = 0x12 \<longleftrightarrow> uint b = 18 \<or> uint b = 19"
    by (rule byte_cases [of "\<lambda>b. b AND 0xFE = 0x12 \<longleftrightarrow> b = 18 \<or> b = 19"]) code_simp
  then show "b AND 0xFE = 0x12 \<longleftrightarrow> b = 18 \<or> b = 19"
    by (simp add: word_uint_eq_iff word_le_def uint_and)
  have "uint b AND 0xF0 = 0xE0 \<longleftrightarrow> 224 \<le> uint b \<and> uint b \<le> 239"
    by (rule byte_cases [of "\<lambda>b. b AND 0xF0 = 0xE0 \<longleftrightarrow> 224 \<le> b \<and> b \<le> 239"]) code_simp
  then show "b AND 0xF0 = 0xE0 \<longleftrightarrow> 224 \<le> b \<and> b \<le> 239"
    by (simp add: word_uint_eq_iff word_le_def uint_and)
  have "uint b AND 0xF0 = 0xF0 \<longleftrightarrow> 240 \<le> uint b"
    by (rule byte_cases [of "\<lambda>b. b AND 0xF0 = 0xF0 \<longleftrightarrow> 240 \<le> b"]) code_simp
  then show "b AND 0xF0 = 0xF0 \<longleftrightarrow> 240 \<le> b"
    by (simp add: word_uint_eq_iff word_le_def uint_and)
  have "uint b AND 0xFE = 0xFC \<longleftrightarrow> uint b = 0xFC \<or> uint b = 0xFD"
    by (rule byte_cases [of "\<lambda>b. b AND 0xFE = 0xFC \<longleftrightarrow> b = 0xFC \<or> b = 0xFD"]) code_simp
  then show "b AND 0xFE = 0xFC \<longleftrightarrow> b = 0xFC \<or> b = 0xFD"
    by (simp add: word_uint_eq_iff word_le_def uint_and)
  have "uint b AND 0xC0 = 0x80 \<longleftrightarrow> 0x80 \<le> uint b \<and> uint b \<le> 0xBF"
    by (rule byte_cases [of "\<lambda>b. b AND 0xC0 = 0x80 \<longleftrightarrow> 0x80 \<le> b \<and> b \<le> 0xBF"]) code_simp
  then show "b AND 0xC0 = 0x80 \<longleftrightarrow> 0x80 \<le> b \<and> b \<le> 0xBF"
    by (simp add: word_uint_eq_iff word_le_def uint_and)
qed

text \<open>What the masks leave over, byte by byte.\<close>

definition public4 :: "ip \<Rightarrow> bool" where
  "public4 x \<longleftrightarrow> (let a = x ! 0; b = x ! 1; c = x ! 2 in
     a \<noteq> 0 \<and> a \<noteq> 10 \<and> \<not> (a = 100 \<and> 64 \<le> b \<and> b \<le> 127) \<and> a \<noteq> 127 \<and> \<not> (a = 169 \<and> b = 254)
     \<and> \<not> (a = 172 \<and> 16 \<le> b \<and> b \<le> 31) \<and> \<not> (a = 192 \<and> b = 0 \<and> c = 0) \<and> \<not> (a = 192 \<and> b = 168)
     \<and> \<not> (a = 198 \<and> (b = 18 \<or> b = 19)) \<and> a < 224)"

definition public6 :: "ip \<Rightarrow> bool" where
  "public6 x \<longleftrightarrow> x \<noteq> replicate 15 0 @ [1] \<and> x ! 0 \<noteq> 0xFC \<and> x ! 0 \<noteq> 0xFD
     \<and> \<not> (x ! 0 = 0xFE \<and> 0x80 \<le> x ! 1 \<and> x ! 1 \<le> 0xBF) \<and> x ! 0 \<noteq> 0xFF
     \<and> take 6 x \<noteq> [0x00, 0x64, 0xFF, 0x9B, 0x00, 0x01]"

lemma normal_ip_idem [simp]: "normal_ip (normal_ip a) = normal_ip a"
  by (auto simp: normal_ip_def To4_def split: option.splits)

lemma normal_ip_length: "length a \<in> {4, 16} \<Longrightarrow> length (normal_ip a) = 4 \<or> (length (normal_ip a) = 16 \<and> To4 (normal_ip a) = None)"
  by (auto simp: normal_ip_def To4_def split: option.splits)

lemma blocked_explicit:
  "blocked =
     [([0, 0, 0, 0], [0xFF, 0, 0, 0]), ([10, 0, 0, 0], [0xFF, 0, 0, 0]), ([100, 64, 0, 0], [0xFF, 0xC0, 0, 0]),
      ([127, 0, 0, 0], [0xFF, 0, 0, 0]), ([169, 254, 0, 0], [0xFF, 0xFF, 0, 0]), ([172, 16, 0, 0], [0xFF, 0xF0, 0, 0]),
      ([192, 0, 0, 0], [0xFF, 0xFF, 0xFF, 0]), ([192, 168, 0, 0], [0xFF, 0xFF, 0, 0]),
      ([198, 18, 0, 0], [0xFF, 0xFE, 0, 0]), ([224, 0, 0, 0], [0xF0, 0, 0, 0]), ([240, 0, 0, 0], [0xF0, 0, 0, 0]),
      (replicate 15 0 @ [1], replicate 16 0xFF), (0xFC # replicate 15 0, 0xFE # replicate 15 0),
      ([0xFE, 0x80] @ replicate 14 0, [0xFF, 0xC0] @ replicate 14 0), (0xFF # replicate 15 0, 0xFF # replicate 15 0),
      ([0x00, 0x64, 0xFF, 0x9B, 0x00, 0x01] @ replicate 10 0, replicate 6 0xFF @ replicate 10 0)]"
  by code_simp

lemma and_FF [simp]: "x AND 0xFF = x" for x :: "8 word"
proof -
  have "(0xFF :: 8 word) = - 1" by simp
  then show ?thesis by (simp only: and.right_neutral)
qed

lemma contains_4:
  "net_contains ([p, q, r, s], [k, l, m, n]) [a, b, c, d] \<longleftrightarrow>
     a AND k = p AND k \<and> b AND l = q AND l \<and> c AND m = r AND m \<and> d AND n = s AND n"
  by (simp add: net_contains_def normal_ip_def To4_def)

lemma contains_16: "To4 x = None \<Longrightarrow> net_contains (n, m) x \<longleftrightarrow> length x = length n \<and> map2 (AND) x m = map2 (AND) n m"
  by (simp add: net_contains_def normal_ip_def)

lemma contains_length: "length (normal_ip x) \<noteq> length (fst n) \<Longrightarrow> \<not> net_contains n x"
  by (simp add: net_contains_def)

lemma checkIP_4:
  assumes "length x = 4"
  shows "checkIP x \<longleftrightarrow> public4 x"
proof -
  obtain a b c d where x: "x = [a, b, c, d]" using assms by (auto simp: eval_nat_numeral length_Suc_conv)
  have n: "normal_ip [a, b, c, d] = [a, b, c, d]" by (simp add: normal_ip_def To4_def)
  have big: "a < 224 \<longleftrightarrow> \<not> (224 \<le> a \<and> a \<le> 239) \<and> \<not> 240 \<le> a"
  proof -
    have "uint a < 256" using unsigned_less [of a, where ?'a = int] by simp
    then show ?thesis unfolding word_le_def word_less_def by auto
  qed
  have v6: "\<not> net_contains (u, m) [a, b, c, d]" if "length u = 16" for u m
    using that by (simp add: net_contains_def n)
  have no6: "\<not> net_contains (replicate 15 0 @ [1], replicate 16 0xFF) [a, b, c, d]"
    "\<not> net_contains (0xFC # replicate 15 0, 0xFE # replicate 15 0) [a, b, c, d]"
    "\<not> net_contains ([0xFE, 0x80] @ replicate 14 0, [0xFF, 0xC0] @ replicate 14 0) [a, b, c, d]"
    "\<not> net_contains (0xFF # replicate 15 0, 0xFF # replicate 15 0) [a, b, c, d]"
    "\<not> net_contains ([0x00, 0x64, 0xFF, 0x9B, 0x00, 0x01] @ replicate 10 0, replicate 6 0xFF @ replicate 10 0) [a, b, c, d]"
    by (rule v6, simp)+
  have each: "net_contains ([0, 0, 0, 0], [0xFF, 0, 0, 0]) [a, b, c, d] \<longleftrightarrow> a = 0"
    "net_contains ([10, 0, 0, 0], [0xFF, 0, 0, 0]) [a, b, c, d] \<longleftrightarrow> a = 10"
    "net_contains ([100, 64, 0, 0], [0xFF, 0xC0, 0, 0]) [a, b, c, d] \<longleftrightarrow> a = 100 \<and> (64 \<le> b \<and> b \<le> 127)"
    "net_contains ([127, 0, 0, 0], [0xFF, 0, 0, 0]) [a, b, c, d] \<longleftrightarrow> a = 127"
    "net_contains ([169, 254, 0, 0], [0xFF, 0xFF, 0, 0]) [a, b, c, d] \<longleftrightarrow> a = 169 \<and> b = 254"
    "net_contains ([172, 16, 0, 0], [0xFF, 0xF0, 0, 0]) [a, b, c, d] \<longleftrightarrow> a = 172 \<and> (16 \<le> b \<and> b \<le> 31)"
    "net_contains ([192, 0, 0, 0], [0xFF, 0xFF, 0xFF, 0]) [a, b, c, d] \<longleftrightarrow> a = 192 \<and> b = 0 \<and> c = 0"
    "net_contains ([192, 168, 0, 0], [0xFF, 0xFF, 0, 0]) [a, b, c, d] \<longleftrightarrow> a = 192 \<and> b = 168"
    "net_contains ([198, 18, 0, 0], [0xFF, 0xFE, 0, 0]) [a, b, c, d] \<longleftrightarrow> a = 198 \<and> (b = 18 \<or> b = 19)"
    "net_contains ([224, 0, 0, 0], [0xF0, 0, 0, 0]) [a, b, c, d] \<longleftrightarrow> (224 \<le> a \<and> a \<le> 239)"
    "net_contains ([240, 0, 0, 0], [0xF0, 0, 0, 0]) [a, b, c, d] \<longleftrightarrow> 240 \<le> a"
    unfolding contains_4 by (simp_all add: mask_table)
  have "list_ex (\<lambda>n. net_contains n [a, b, c, d]) blocked \<longleftrightarrow>
      a = 0 \<or> a = 10 \<or> (a = 100 \<and> (64 \<le> b \<and> b \<le> 127)) \<or> a = 127 \<or> (a = 169 \<and> b = 254) \<or> (a = 172 \<and> (16 \<le> b \<and> b \<le> 31))
      \<or> (a = 192 \<and> b = 0 \<and> c = 0) \<or> (a = 192 \<and> b = 168) \<or> (a = 198 \<and> (b = 18 \<or> b = 19))
      \<or> (224 \<le> a \<and> a \<le> 239) \<or> 240 \<le> a"
    unfolding blocked_explicit list_ex_Cons_iff list_ex_Nil_iff each
    by (simp only: no6 simp_thms disj_assoc)
  moreover have "[a, b, c, d] ! 0 = a" "[a, b, c, d] ! 1 = b" "[a, b, c, d] ! 2 = c" by simp_all
  ultimately show ?thesis unfolding x checkIP_def n public4_def Let_def
    by (simp only: de_Morgan_disj big conj_assoc)
qed

lemma checkIP_16:
  assumes "length x = 16" "To4 x = None"
  shows "checkIP x \<longleftrightarrow> public6 x"
proof -
  have n: "normal_ip x = x" using assms(2) by (simp add: normal_ip_def)
  have v4: "\<not> net_contains ([p, q, r, s], m) x" for p q r s m
    using assms(1) by (simp add: net_contains_def n)
  obtain x0 x1 x2 x3 x4 x5 xs where x: "x = x0 # x1 # x2 # x3 # x4 # x5 # xs" "length xs = 10"
    using assms(1) by (auto simp: eval_nat_numeral length_Suc_conv)
  have z: "map2 (AND) ys (replicate k 0) = replicate k (0 :: 8 word)" if "length ys = k" for ys k
    using that by (induction k arbitrary: ys) (auto simp: length_Suc_conv)
  have f: "map2 (AND) ys (replicate k 0xFF) = ys" if "length ys = k" for ys :: ip and k
    using that by (induction k arbitrary: ys) (auto simp: length_Suc_conv)
  have loop: "net_contains (replicate 15 0 @ [1], replicate 16 0xFF) x \<longleftrightarrow> x = replicate 15 0 @ [1]"
    by (simp only: contains_16 [OF assms(2)] f [OF assms(1)]) (use assms(1) in \<open>simp add: f\<close>)
  have r15: "replicate 15 (0 :: 8 word) = 0 # 0 # 0 # 0 # 0 # replicate 10 0"
    "replicate 14 (0 :: 8 word) = 0 # 0 # 0 # 0 # replicate 10 0"
    by (simp_all add: eval_nat_numeral)
  have rest: "net_contains (0xFC # replicate 15 0, 0xFE # replicate 15 0) x \<longleftrightarrow> x0 = 0xFC \<or> x0 = 0xFD"
    "net_contains ([0xFE, 0x80] @ replicate 14 0, [0xFF, 0xC0] @ replicate 14 0) x \<longleftrightarrow> x0 = 0xFE \<and> 0x80 \<le> x1 \<and> x1 \<le> 0xBF"
    "net_contains (0xFF # replicate 15 0, 0xFF # replicate 15 0) x \<longleftrightarrow> x0 = 0xFF"
    unfolding contains_16 [OF assms(2)] by (simp_all add: x r15 z mask_table)
  have six: "replicate 6 (0xFF :: 8 word) = [0xFF, 0xFF, 0xFF, 0xFF, 0xFF, 0xFF]" by (simp add: eval_nat_numeral)
  have nat64: "net_contains ([0x00, 0x64, 0xFF, 0x9B, 0x00, 0x01] @ replicate 10 0, replicate 6 0xFF @ replicate 10 0) x
      \<longleftrightarrow> [x0, x1, x2, x3, x4, x5] = [0x00, 0x64, 0xFF, 0x9B, 0x00, 0x01]"
    unfolding six contains_16 [OF assms(2)] by (simp add: x z)
  have t6: "take 6 x = [x0, x1, x2, x3, x4, x5]" by (simp add: x)
  have "list_ex (\<lambda>n. net_contains n x) blocked \<longleftrightarrow>
      x = replicate 15 0 @ [1] \<or> (x0 = 0xFC \<or> x0 = 0xFD) \<or> (x0 = 0xFE \<and> 0x80 \<le> x1 \<and> x1 \<le> 0xBF) \<or> x0 = 0xFF
      \<or> [x0, x1, x2, x3, x4, x5] = [0x00, 0x64, 0xFF, 0x9B, 0x00, 0x01]"
    unfolding blocked_explicit list_ex_Cons_iff list_ex_Nil_iff loop rest nat64 by (simp only: v4 simp_thms disj_assoc)
  moreover have "x ! 0 = x0" "x ! 1 = x1" by (simp_all add: x)
  ultimately show ?thesis unfolding checkIP_def n public6_def t6 by blast
qed

subsection \<open>The same ranges by their numbers\<close>

text \<open>An address as the number its bytes write, most significant first: 32 or 128 bits.\<close>

definition ip_number :: "ip \<Rightarrow> nat" where
  "ip_number a = foldl (\<lambda>n b. 256 * n + unat b) 0 a"

text \<open>The internal addresses of the two protocols, from the first to the last of each registry entry: what
  means this host, is for use inside a network, is shared with a carrier, names no single host, or is
  reserved. \<open>dotted\<close> is an IPv4 address.\<close>

definition dotted :: "nat \<Rightarrow> nat \<Rightarrow> nat \<Rightarrow> nat \<Rightarrow> nat" where
  "dotted a b c d = ((a * 256 + b) * 256 + c) * 256 + d"

definition internal_v4 :: "nat \<Rightarrow> bool" where
  "internal_v4 n \<longleftrightarrow>
     n \<le> dotted 0 255 255 255
     \<or> (dotted 10 0 0 0 \<le> n \<and> n \<le> dotted 10 255 255 255)
     \<or> (dotted 100 64 0 0 \<le> n \<and> n \<le> dotted 100 127 255 255)
     \<or> (dotted 127 0 0 0 \<le> n \<and> n \<le> dotted 127 255 255 255)
     \<or> (dotted 169 254 0 0 \<le> n \<and> n \<le> dotted 169 254 255 255)
     \<or> (dotted 172 16 0 0 \<le> n \<and> n \<le> dotted 172 31 255 255)
     \<or> (dotted 192 0 0 0 \<le> n \<and> n \<le> dotted 192 0 0 255)
     \<or> (dotted 192 168 0 0 \<le> n \<and> n \<le> dotted 192 168 255 255)
     \<or> (dotted 198 18 0 0 \<le> n \<and> n \<le> dotted 198 19 255 255)
     \<or> dotted 224 0 0 0 \<le> n"

text \<open>In IPv6 the first two bytes tell unique local, link-local and multicast addresses; the loopback is
  1; \<open>64:ff9b:1::/48\<close> is the local translation prefix.\<close>

definition internal_v6 :: "nat \<Rightarrow> bool" where
  "internal_v6 n \<longleftrightarrow>
     n = 1
     \<or> (0xFC00 * 2 ^ 112 \<le> n \<and> n < 0xFE00 * 2 ^ 112)
     \<or> (0xFE80 * 2 ^ 112 \<le> n \<and> n < 0xFEC0 * 2 ^ 112)
     \<or> 0xFF00 * 2 ^ 112 \<le> n
     \<or> (0x64FF9B0001 * 2 ^ 80 \<le> n \<and> n < 0x64FF9B0002 * 2 ^ 80)"

text \<open>An IPv4 address may also be written inside an IPv6 one, after the 96 bits \<open>::ffff\<close>.\<close>

definition internal_ip :: "ip \<Rightarrow> bool" where
  "internal_ip a \<longleftrightarrow>
     (if length a = 4 then internal_v4 (ip_number a)
      else internal_v6 (ip_number a)
        \<or> (0xFFFF * 2 ^ 32 \<le> ip_number a \<and> ip_number a < 0x10000 * 2 ^ 32 \<and> internal_v4 (ip_number a - 0xFFFF * 2 ^ 32)))"

lemma unat_byte: "unat b < 256" for b :: "8 word"
  using unsigned_less [of b, where ?'a = nat] by simp

lemma ip_number_snoc: "ip_number (a @ [b]) = 256 * ip_number a + unat b"
  by (simp add: ip_number_def)

lemma ip_number_less: "ip_number a < 256 ^ length a"
proof (induction a rule: rev_induct)
  case (snoc b a)
  then show ?case using unat_byte [of b] by (simp add: ip_number_snoc)
qed (simp add: ip_number_def)

lemma ip_number_append: "ip_number (a @ b) = ip_number a * 256 ^ length b + ip_number b"
proof (induction b rule: rev_induct)
  case (snoc x b)
  then show ?case
    using ip_number_snoc [of "a @ b" x] ip_number_snoc [of b x] by (simp add: algebra_simps)
qed (simp add: ip_number_def)

text \<open>Numbers in base \<open>K\<close> compare digit by digit.\<close>

lemma lex_le: "b < K \<Longrightarrow> q < K \<Longrightarrow> a * K + b \<le> p * K + q \<longleftrightarrow> a < p \<or> (a = p \<and> b \<le> q)" for K :: nat
proof -
  assume lt: "b < K" "q < K"
  have up: "x * K + u < y * K + v" if "x < y" "u < K" for x y u v
  proof -
    have "Suc x * K \<le> y * K" using that(1) by (intro mult_le_mono1) simp
    then show ?thesis using that(2) by simp
  qed
  show ?thesis using up [of a p b q] up [of p a q b] lt by (cases a p rule: linorder_cases) auto
qed

lemma lex_less: "b < K \<Longrightarrow> q < K \<Longrightarrow> a * K + b < p * K + q \<longleftrightarrow> a < p \<or> (a = p \<and> b < q)" for K :: nat
  using lex_le [of q K b p a] by (auto simp: not_le [symmetric])

lemma lex_eq: "b < K \<Longrightarrow> q < K \<Longrightarrow> a * K + b = p * K + q \<longleftrightarrow> a = p \<and> b = q" for K :: nat
  unfolding order.eq_iff [of "a * K + b"] by (simp only: lex_le) auto

lemma ip_number_zeros: "ip_number (replicate k 0 @ a) = ip_number a"
  by (induction k) (simp_all add: ip_number_def)

lemma ip_number_inj: "length a = length b \<Longrightarrow> ip_number a = ip_number b \<longleftrightarrow> a = b"
proof (induction a arbitrary: b rule: rev_induct)
  case (snoc x a)
  then obtain c y where b: "b = c @ [y]" "length a = length c" by (cases b rule: rev_cases) auto
  have "256 * p + u = 256 * q + v \<longleftrightarrow> p = q \<and> u = v" if "u < 256" "v < 256" for p q u v :: nat
    using lex_eq [OF that, of p q] by (simp add: mult.commute)
  then show ?case using snoc.IH [OF b(2)] unat_byte [of x] unat_byte [of y]
    by (simp add: b(1) ip_number_snoc word_unat_eq_iff)
qed simp

text \<open>The leading part of an address against a bound with nothing but zeros after it.\<close>

lemma leading_le: "r < (K :: nat) \<Longrightarrow> l * K \<le> p * K + r \<longleftrightarrow> l \<le> p"
proof
  assume r: "r < K" and "l * K \<le> p * K + r"
  then have "l * K < Suc p * K" by simp
  then show "l \<le> p" by (metis less_Suc_eq_le mult_less_cancel2)
next
  assume "l \<le> p"
  then have "l * K \<le> p * K" by (rule mult_le_mono1)
  then show "l * K \<le> p * K + r" by (rule trans_le_add1)
qed

lemma leading_less: "r < (K :: nat) \<Longrightarrow> p * K + r < l * K \<longleftrightarrow> p < l"
  using leading_le [of r K l p] by linarith

lemma dotted_le:
  assumes "b < 256" "c < 256" "d < 256" "q < 256" "r < 256" "s < 256"
  shows "dotted a b c d \<le> dotted p q r s \<longleftrightarrow>
    a < p \<or> (a = p \<and> (b < q \<or> (b = q \<and> (c < r \<or> (c = r \<and> d \<le> s)))))"
  unfolding dotted_def lex_le [OF assms(3,6)] lex_less [OF assms(2,5)] lex_eq [OF assms(2,5)]
    lex_less [OF assms(1,4)] lex_eq [OF assms(1,4)] by blast

lemma internal_v4_public:
  assumes "length x = 4"
  shows "internal_v4 (ip_number x) \<longleftrightarrow> \<not> public4 x"
proof -
  obtain a b c d where x: "x = [a, b, c, d]" using assms by (auto simp: eval_nat_numeral length_Suc_conv)
  define p q r s where "p = unat a" and "q = unat b" and "r = unat c" and "s = unat d"
  have lt: "p < 256" "q < 256" "r < 256" "s < 256" by (simp_all add: p_def q_def r_def s_def unat_byte)
  have n: "ip_number x = dotted p q r s" by (simp add: ip_number_def dotted_def x p_def q_def r_def s_def algebra_simps)
  have pub: "public4 x \<longleftrightarrow> p \<noteq> 0 \<and> p \<noteq> 10 \<and> \<not> (p = 100 \<and> 64 \<le> q \<and> q \<le> 127) \<and> p \<noteq> 127 \<and> \<not> (p = 169 \<and> q = 254)
     \<and> \<not> (p = 172 \<and> 16 \<le> q \<and> q \<le> 31) \<and> \<not> (p = 192 \<and> q = 0 \<and> r = 0) \<and> \<not> (p = 192 \<and> q = 168)
     \<and> \<not> (p = 198 \<and> (q = 18 \<or> q = 19)) \<and> p < 224"
    by (simp add: public4_def x p_def q_def r_def s_def word_unat_eq_iff word_le_nat_alt word_less_nat_alt)
  have each: "n \<le> dotted 0 255 255 255 \<longleftrightarrow> p = 0"
    "dotted 10 0 0 0 \<le> n \<and> n \<le> dotted 10 255 255 255 \<longleftrightarrow> p = 10"
    "dotted 100 64 0 0 \<le> n \<and> n \<le> dotted 100 127 255 255 \<longleftrightarrow> p = 100 \<and> 64 \<le> q \<and> q \<le> 127"
    "dotted 127 0 0 0 \<le> n \<and> n \<le> dotted 127 255 255 255 \<longleftrightarrow> p = 127"
    "dotted 169 254 0 0 \<le> n \<and> n \<le> dotted 169 254 255 255 \<longleftrightarrow> p = 169 \<and> q = 254"
    "dotted 172 16 0 0 \<le> n \<and> n \<le> dotted 172 31 255 255 \<longleftrightarrow> p = 172 \<and> 16 \<le> q \<and> q \<le> 31"
    "dotted 192 0 0 0 \<le> n \<and> n \<le> dotted 192 0 0 255 \<longleftrightarrow> p = 192 \<and> q = 0 \<and> r = 0"
    "dotted 192 168 0 0 \<le> n \<and> n \<le> dotted 192 168 255 255 \<longleftrightarrow> p = 192 \<and> q = 168"
    "dotted 198 18 0 0 \<le> n \<and> n \<le> dotted 198 19 255 255 \<longleftrightarrow> p = 198 \<and> (q = 18 \<or> q = 19)"
    "dotted 224 0 0 0 \<le> n \<longleftrightarrow> \<not> p < 224"
    if "n = dotted p q r s" for n
    using lt unfolding that by (auto simp: dotted_le)
  show ?thesis unfolding internal_v4_def each [OF n] pub by blast
qed

lemma internal_v6_public:
  assumes "length x = 16"
  shows "internal_v6 (ip_number x) \<longleftrightarrow> \<not> public6 x"
proof -
  obtain x0 x1 xs where x: "x = [x0, x1] @ xs" "length xs = 14"
    using assms by (auto simp: eval_nat_numeral length_Suc_conv)
  define h where "h = unat x0 * 256 + unat x1"
  have p2: "(256 :: nat) ^ 14 = 2 ^ 112" "(256 :: nat) ^ 10 = 2 ^ 80" by simp_all
  have n2: "ip_number x = h * 2 ^ 112 + ip_number xs" "ip_number xs < 2 ^ 112"
    using ip_number_append [of "[x0, x1]" xs] ip_number_less [of xs] x p2
    by (simp_all add: h_def ip_number_def mult.commute)
  have n6: "ip_number x = ip_number (take 6 x) * 2 ^ 80 + ip_number (drop 6 x)" "ip_number (drop 6 x) < 2 ^ 80"
    using ip_number_append [of "take 6 x" "drop 6 x"] ip_number_less [of "drop 6 x"] assms p2 by simp_all
  have one: "ip_number x = 1 \<longleftrightarrow> x = replicate 15 0 @ [1]"
    using ip_number_inj [of x "replicate 15 0 @ [1]"] assms ip_number_zeros [of 15 "[1]"] by (simp add: ip_number_def)
  have nat64: "ip_number (take 6 x) = 0x64FF9B0001 \<longleftrightarrow> take 6 x = [0x00, 0x64, 0xFF, 0x9B, 0x00, 0x01]"
    using ip_number_inj [of "take 6 x" "[0x00, 0x64, 0xFF, 0x9B, 0x00, 0x01]"] assms by (simp add: ip_number_def)
  have lt: "unat x0 < 256" "unat x1 < 256" by (rule unat_byte)+
  have hs: "0xFC00 \<le> h \<and> h < 0xFE00 \<longleftrightarrow> unat x0 = 0xFC \<or> unat x0 = 0xFD"
    "0xFE80 \<le> h \<and> h < 0xFEC0 \<longleftrightarrow> unat x0 = 0xFE \<and> 0x80 \<le> unat x1 \<and> unat x1 \<le> 0xBF"
    "0xFF00 \<le> h \<longleftrightarrow> unat x0 = 0xFF"
    unfolding h_def using lt lex_le [of "0" 256 "unat x1" "0xFC" "unat x0"] lex_le [of "0" 256 "unat x1" "0xFE" "unat x0"]
      lex_le [of "0x80" 256 "unat x1" "0xFE" "unat x0"] lex_le [of "0xC0" 256 "unat x1" "0xFE" "unat x0"]
      lex_le [of "0" 256 "unat x1" "0xFF" "unat x0"] by auto
  have bytes: "public6 x \<longleftrightarrow> x \<noteq> replicate 15 0 @ [1] \<and> \<not> (unat x0 = 0xFC \<or> unat x0 = 0xFD)
      \<and> \<not> (unat x0 = 0xFE \<and> 0x80 \<le> unat x1 \<and> unat x1 \<le> 0xBF) \<and> unat x0 \<noteq> 0xFF
      \<and> take 6 x \<noteq> [0x00, 0x64, 0xFF, 0x9B, 0x00, 0x01]"
    unfolding public6_def by (simp add: x(1) word_unat_eq_iff word_le_nat_alt del: replicate.simps)
  have six: "0x64FF9B0001 * 2 ^ 80 \<le> ip_number x \<and> ip_number x < 0x64FF9B0002 * 2 ^ 80
      \<longleftrightarrow> ip_number (take 6 x) = 0x64FF9B0001"
    unfolding n6(1) leading_le [OF n6(2)] leading_less [OF n6(2)] by linarith
  have two: "l * 2 ^ 112 \<le> ip_number x \<longleftrightarrow> l \<le> h" "ip_number x < l * 2 ^ 112 \<longleftrightarrow> h < l" for l
    unfolding n2(1) leading_le [OF n2(2)] leading_less [OF n2(2)] by (rule refl)+
  show ?thesis unfolding internal_v6_def one six two hs nat64 bytes by blast
qed

text \<open>The check by masks is the check by numbers: it refuses the internal addresses, and no other.\<close>

lemma checkIP_internal:
  assumes "length a \<in> {4, 16}"
  shows "checkIP a \<longleftrightarrow> \<not> internal_ip a"
proof (cases "length a = 4")
  case True
  then show ?thesis by (simp add: checkIP_4 internal_ip_def internal_v4_public)
next
  case False
  then have l: "length a = 16" using assms by simp
  have n: "ip_number a = ip_number (take 12 a) * 2 ^ 32 + ip_number (drop 12 a)" "ip_number (drop 12 a) < 2 ^ 32"
    using ip_number_append [of "take 12 a" "drop 12 a"] ip_number_less [of "drop 12 a"] l by simp_all
  have mapped: "0xFFFF * 2 ^ 32 \<le> ip_number a \<and> ip_number a < 0x10000 * 2 ^ 32 \<longleftrightarrow> ip_number (take 12 a) = 0xFFFF"
    unfolding n(1) leading_le [OF n(2)] leading_less [OF n(2)] by linarith
  also have "\<dots> \<longleftrightarrow> take 12 a = replicate 10 0 @ [0xFF, 0xFF]"
    using ip_number_inj [of "take 12 a" "replicate 10 0 @ [0xFF, 0xFF]"] l ip_number_zeros [of 10 "[0xFF, 0xFF]"] by (simp add: ip_number_def)
  finally have m: "0xFFFF * 2 ^ 32 \<le> ip_number a \<and> ip_number a < 0x10000 * 2 ^ 32 \<longleftrightarrow> To4 a \<noteq> None"
    using l by (simp add: To4_def)
  show ?thesis
  proof (cases "To4 a")
    case None
    then show ?thesis using m l checkIP_16 [OF l None] internal_v6_public [OF l] by (auto simp: internal_ip_def)
  next
    case (Some v)
    then have t: "take 12 a = replicate 10 0 @ [0xFF, 0xFF]" "v = drop 12 a" using l by (auto simp: To4_def split: if_splits)
    have "ip_number (take 12 a) = 0xFFFF" using mapped m Some by simp
    then have d: "ip_number a = 0xFFFF * 2 ^ 32 + ip_number v" using n(1) t(2) by simp
    have "\<not> internal_v6 (ip_number a)" using n(2) unfolding internal_v6_def d t(2) by simp
    moreover have "ip_number a - 0xFFFF * 2 ^ 32 = ip_number v" using d by simp
    moreover have "length v = 4" using l t(2) by simp
    moreover have "checkIP a = checkIP v"
    proof -
      have "normal_ip a = v" using Some by (simp add: normal_ip_def)
      then have "normal_ip v = v" using normal_ip_idem [of a] by simp
      with \<open>normal_ip a = v\<close> show ?thesis by (simp add: checkIP_def)
    qed
    ultimately show ?thesis using m Some l by (simp add: internal_ip_def checkIP_4 internal_v4_public)
  qed
qed

text \<open>C39: a webhook is posted only after its address was checked, and the check refuses the internal
  addresses. On a server that does not allow private receivers a delivery makes its posts exactly when the URL
  parses, its scheme is https, it names a host, and that host is a literal address that is not internal,
  or a name that resolved to at least one address and to no internal one. Internal are, written in IPv4, in IPv6
  or IPv4 in IPv6: this host, private, shared, loopback, link-local and metadata, protocol,
  benchmarking, multicast and reserved addresses in IPv4; loopback, unique local, link-local,
  multicast and local translation addresses in IPv6. The unspecified address \<open>::\<close> is not on that list and
  passes (see below); nor is it said what the name resolves to when the post is made.\<close>

theorem webhook_refuses_internal:
  assumes "\<And>h a. parse_ip h = Some a \<Longrightarrow> length a \<in> {4, 16}"
    "\<And>h ips a. resolve h = Inr ips \<Longrightarrow> a \<in> set ips \<Longrightarrow> length a \<in> {4, 16}"
  shows "(\<exists>d n. deliver (checkURL parse_url parse_ip resolve False raw) posts waits = Inr (d, n))
    \<longleftrightarrow> (\<exists>u. parse_url raw = Some u \<and> u_scheme u = ''https'' \<and> u_host u \<noteq> []
      \<and> (case parse_ip (u_host u) of
           Some a \<Rightarrow> \<not> internal_ip a
         | None \<Rightarrow> \<exists>ips. resolve (u_host u) = Inr ips \<and> ips \<noteq> [] \<and> (\<forall>a\<in>set ips. \<not> internal_ip a)))"
proof -
  have d: "(\<exists>d n. deliver c posts waits = Inr (d, n)) \<longleftrightarrow> c = None" for c
    by (cases c; cases "deliver_loop 0 posts waits NoAnswer") (simp_all add: deliver_def)
  show ?thesis
  proof (cases "parse_url raw")
    case (Some u)
    have lit: "checkIP a \<longleftrightarrow> \<not> internal_ip a" if "parse_ip (u_host u) = Some a" for a
      using checkIP_internal assms(1) [OF that] by blast
    have res: "list_all checkIP ips \<longleftrightarrow> (\<forall>a\<in>set ips. \<not> internal_ip a)" if "resolve (u_host u) = Inr ips" for ips
      using checkIP_internal assms(2) [OF that] by (auto simp: list_all_iff)
    show ?thesis unfolding d using Some lit res
      by (auto simp: checkURL_def split: option.splits sum.splits)
  qed (simp add: d checkURL_def)
qed

definition demo_resolve :: "string \<Rightarrow> gerr + ip list" where
  "demo_resolve h = Inr (if h = ''example.org'' then [[93, 184, 216, 34]] else [[93, 184, 216, 34], [169, 254, 169, 254]])"

definition demo_url :: "string \<Rightarrow> url option" where
  "demo_url h = Some \<lparr>u_scheme = ''https'', u_host = h\<rparr>"

text \<open>A name with one public address is posted to; a name that also resolves to the metadata service is not.\<close>

theorem webhook_refuses_internal_witness:
  "(\<exists>d n. deliver (checkURL demo_url (\<lambda>_. None) demo_resolve False ''example.org'') (\<lambda>_. NoAnswer) (\<lambda>_. Elapsed) = Inr (d, n))
   \<and> \<not> (\<exists>d n. deliver (checkURL demo_url (\<lambda>_. None) demo_resolve False ''evil.test'') (\<lambda>_. NoAnswer) (\<lambda>_. Elapsed) = Inr (d, n))"
proof -
  have i: "\<not> internal_ip [93, 184, 216, 34]" "internal_ip [169, 254, 169, 254]"
    by (simp_all add: internal_ip_def internal_v4_def ip_number_def dotted_def)
  have W: "(\<exists>d n. deliver (checkURL demo_url (\<lambda>_. None) demo_resolve False raw) (\<lambda>_. NoAnswer) (\<lambda>_. Elapsed) = Inr (d, n))
    \<longleftrightarrow> (\<exists>u. demo_url raw = Some u \<and> u_scheme u = ''https'' \<and> u_host u \<noteq> []
      \<and> (\<exists>ips. demo_resolve (u_host u) = Inr ips \<and> ips \<noteq> [] \<and> (\<forall>a\<in>set ips. \<not> internal_ip a)))" for raw
    by (rule webhook_refuses_internal [of "\<lambda>_. None", unfolded option.case]) (auto simp: demo_resolve_def split: if_splits)
  show ?thesis unfolding W using i by (simp add: demo_url_def demo_resolve_def)
qed

text \<open>The unspecified address \<open>::\<close> is in no blocked range, though a connection to it reaches the local host.\<close>

lemma unspecified_v6_admitted: "checkIP (replicate 16 0)"
  by code_simp

subsection \<open>Retries\<close>

lemma deliver_loop_spec:
  "deliver_loop attempt posts waits prev = (d, n) \<Longrightarrow> attempt \<le> maxAttempts \<Longrightarrow>
    attempt + n \<le> maxAttempts
    \<and> (\<forall>j. attempt \<le> j \<and> Suc j < attempt + n \<longrightarrow> \<not> post_ok (posts j) \<and> \<not> permanent (posts j) \<and> waits (Suc j) = Elapsed)
    \<and> (d = Delivered \<longleftrightarrow> 0 < n \<and> post_ok (posts (attempt + n - 1)))"
proof (induction attempt posts waits prev arbitrary: d n rule: deliver_loop.induct)
  case (1 attempt posts waits prev)
  show ?case
  proof (cases "attempt \<ge> maxAttempts \<or> (attempt > 0 \<and> waits attempt \<noteq> Elapsed) \<or> post_ok (posts attempt) \<or> permanent (posts attempt)")
    case True
    then show ?thesis using "1.prems"
      by (subst (asm) deliver_loop.simps) (cases "waits attempt", auto simp: Let_def post_ok_def permanent_def split: if_splits post_result.splits)
  next
    case False
    obtain d' n' where r: "deliver_loop (Suc attempt) posts waits (posts attempt) = (d', n')" by fastforce
    have dn: "d = d'" "n = Suc n'" using "1.prems"(1) False r
      by (subst (asm) deliver_loop.simps, auto simp: Let_def split: if_splits)+
    have "Suc attempt \<le> maxAttempts" using False by simp
    moreover have "deliver_loop (Suc attempt) posts waits (posts attempt) = (d', n') \<Longrightarrow> Suc attempt \<le> maxAttempts \<Longrightarrow>
       Suc attempt + n' \<le> maxAttempts
      \<and> (\<forall>j. Suc attempt \<le> j \<and> Suc j < Suc attempt + n' \<longrightarrow> \<not> post_ok (posts j) \<and> \<not> permanent (posts j) \<and> waits (Suc j) = Elapsed)
      \<and> (d' = Delivered \<longleftrightarrow> 0 < n' \<and> post_ok (posts (Suc attempt + n' - 1)))"
      using False by (intro "1.IH") auto
    ultimately have IH: "Suc attempt + n' \<le> maxAttempts"
      "\<forall>j. Suc attempt \<le> j \<and> Suc j < Suc attempt + n' \<longrightarrow> \<not> post_ok (posts j) \<and> \<not> permanent (posts j) \<and> waits (Suc j) = Elapsed"
      "d' = Delivered \<longleftrightarrow> 0 < n' \<and> post_ok (posts (Suc attempt + n' - 1))"
      using r by blast+
    have w: "waits (Suc attempt) = Elapsed" if "0 < n'"
      using r that by (subst (asm) deliver_loop.simps) (cases "waits (Suc attempt)", auto split: if_splits)
    have "\<not> post_ok (posts j) \<and> \<not> permanent (posts j) \<and> waits (Suc j) = Elapsed" if "attempt \<le> j" "Suc j < attempt + n" for j
      using that IH(2) False w dn by (cases "j = attempt") auto
    then show ?thesis using IH(1,3) dn False by auto
  qed
qed

text \<open>At most three posts, one after the other, and none after a success, a permanent refusal, a shutdown
  or the deadline.\<close>

lemma webhook_attempts:
  assumes "deliver None posts waits = Inr (d, n)"
  shows "n \<le> 3 \<and> (\<forall>j. Suc j < n \<longrightarrow> \<not> post_ok (posts j) \<and> \<not> permanent (posts j) \<and> waits (Suc j) = Elapsed)
    \<and> (d = Delivered \<longleftrightarrow> 0 < n \<and> post_ok (posts (n - 1)))"
  using deliver_loop_spec [of 0 posts waits NoAnswer d n] assms by (simp add: deliver_def maxAttempts_def)

text \<open>The signature covers the timestamp: two deliveries sign the same bytes only if both their times and
  their bodies are the same.\<close>

lemma signed_material_inj:
  assumes "signed_material (FormatInt s) b = signed_material (FormatInt t) c"
  shows "s = t \<and> b = c"
proof -
  have "CHR ''.'' \<notin> set (FormatInt i)" for i by (rule FormatInt_notin) (simp_all add: is_digit_def)
  then have "takeWhile (\<lambda>x. x \<noteq> CHR ''.'') (FormatInt i @ CHR ''.'' # xs) = FormatInt i" for i xs
    by (subst takeWhile_append2) auto
  then have "FormatInt s = FormatInt t" using assms by (metis signed_material_def append_Cons append_Nil)
  then show ?thesis using assms FormatInt_inj by (simp add: signed_material_def)
qed

end
