(* ===== verification/Spec2Isabelle.thy ===== *)
theory Spec2Isabelle
  imports Governor QueueLife PoolSafe Words VadSpans ITN RateLimit HttpAuth AudioSpec Webhook
begin

text \<open>
  A verification development for the NanoASR server (Go, under \<open>src/\<close>; file names below are relative to
  \<open>src/internal/\<close>). The server transcribes recordings and live audio, tells speakers apart, and isolates
  single voices. Definitions keep the names of the functions they translate; where a name is taken in HOL
  or by another component it carries a prefix (\<open>gov_Acquire\<close>, \<open>q_Submit\<close>, \<open>hub_Publish\<close>).

  \<^bold>\<open>The parts and how they work together.\<close> A dialect of the HTTP API passes the access control, reads a
  request and gives it to the pipeline: a synchronous request is transcribed on the spot, an asynchronous
  one becomes a job. The job queue keeps the job's row in the store, its audio in the spool and its
  progress in the hub, and its workers run the pipeline. The pipeline leases a recogniser from the model
  pool and threads from the governor, decodes the audio, finds the speech, recognises it in batches,
  assembles words, attributes speakers, and rewrites the text. A finished job may be announced to a
  webhook. The pipeline itself, live sessions, voice isolation and the model registry are not in this
  development; the components they are put together from are.

  \<^bold>\<open>The theories.\<close>
    \<^item> Shared: \<open>Prelude\<close> (texts as lists of runes, functions of Go's package strings, lists),
      \<open>Core\<close> (core/types.go, errors.go, language.go), \<open>Base64\<close> (base64.RawURLEncoding).
    \<^item> Jobs: \<open>Governor\<close> (pool/governor.go), \<open>Spool\<close> (spool/spool.go), \<open>Hub\<close> (job/hub.go), \<open>JobRecord\<close>
      (job/record.go), \<open>JobStore\<close> (store/sqlite/store.go, with the locale of what a job store promises,
      interpreted by the table model), \<open>Queue\<close>, \<open>QueueInv\<close> and \<open>QueueLife\<close> (job/queue.go).
    \<^item> Models: \<open>Variant\<close> (asr/variant.go, asr/hotwords.go), \<open>Pool\<close> and \<open>PoolSafe\<close> (pool/pool.go).
    \<^item> Audio and speech: \<open>Resample\<close>, \<open>Audio\<close> and \<open>AudioSpec\<close> (audio/), \<open>VadSpans\<close> (vad/), \<open>Words\<close>
      (words/words.go), \<open>Diarize\<close> (diarize/diarize.go, split.go), \<open>Postproc\<close> and \<open>ITN\<close> (postproc/).
    \<^item> The edge: \<open>RateLimit\<close> and \<open>HttpAuth\<close> (httpx/), \<open>Webhook\<close> (webhook/).

  \<^bold>\<open>State and operations.\<close> A struct of the code is a record, a tagged value a datatype, an error a value of
  \<open>gerr\<close> on the left of a sum (its code and parameter; the message text is left out). What the code shares
  by pointer and changes (pool entries, channels) lives in an explicit store under an
  address. An operation that holds its mutex from beginning to end is one function of the state; one that
  lets go of it in between is one function for every critical section, and the interleavings are the
  sequences of a step relation (of the theories \<open>Hub\<close>, \<open>QueueInv\<close> and \<open>PoolSafe\<close>). Seconds and samples
  are reals: the rounding of binary floating point is not modelled. Durations and instants are integers of
  nanoseconds. Integers keep their width where the code depends on it (G.711, WAV headers, addresses, the
  bits of a float32); elsewhere they are unbounded, and the header of the theory says why that is enough.
  Maps that the code ranges over have an order given from outside, so a statement holds for every order.

  \<^bold>\<open>Parameters.\<close> Code that is not in the repository is an argument: SHA-256, HMAC, the Unicode tables,
  the URL parser, the resolver, the HTTP client, ffmpeg, and the inference libraries behind the
  recogniser, the segmenter, the diarizer and the punctuation model.
  Their laws, where a statement needs any, are named hypotheses (a lower-casing function that keeps length,
  a MAC under which one message has no second); each such statement has a witness at a concrete
  instance.

  \<^bold>\<open>Loops.\<close> A loop that the code runs until a state is reached is a total function where something shrinks
  with every round, and its termination proof names it: the bytes left in \<open>read_chunks\<close> and \<open>read_blocks\<close>, the
  words left in \<open>rewrite_loop\<close>, the attempts left in \<open>deliver_loop\<close>, the entries left in the eviction loop. The
  client that pages through the job list (\<open>list_pages\<close>) is not in the code; its bound, one page more than
  there are jobs, is enough by \<open>pagination_complete\<close>.

  \<^bold>\<open>What is shown.\<close> Of the admission: slots, budgets and places in line are exact and never exceed their
  limits; a sweep at startup deletes the orphans and reserves the space of the live jobs again. Of the hub: no
  interleaving of its critical sections sends on a closed channel, and a reader sees transitions in
  order. Of the store: what is created and updated is given back column by column, a restart loses no part
  of a request, paging visits everything once. Of the queue: a submission happens whole or not at all, a
  cancellation has the effect it reports, the next job is the best in line. Of the pool: a leased recogniser
  is not closed, none leaks, and eviction takes what it may in its order and no more than the limits ask.
  Of the transcript: words spell the recognised tokens and lie inside their segments, a word gets the
  speaker who talks most during it, merging and splitting lose nothing; a rewriting accounts for every word
  it replaces, and Russian numerals read back as the numbers they say. Of the audio: resampling is the
  convolution it stands for, the decoder keeps its limits, a written file reads back. Of the edge: only
  known keys pass, a ticket opens its path only, the rate of a key is bounded in every window and a refused
  caller is served later, and a webhook whose address is internal is refused.
  Where the code departs from this, or a comment from the code, a lemma of the component shows the case
  (\<open>finish_overwrites_cancel\<close>, \<open>special_inside_word_is_spelled\<close>, \<open>two_numbers_added_up\<close>,
  \<open>upsampled_exceeds_the_limit\<close>, \<open>unspecified_v6_admitted\<close>).

  \<^bold>\<open>Not modelled.\<close> The pipeline and its sessions (pipeline/, realtime/), voice isolation (isolation/, tse/), the
  model registry (registry/), the vocabulary (hotwords/) and the subtitles. The recogniser, diarizer, embedding and
  punctuation backends (asr/sherpa, asr/coremlasr, diarize/sherpa, diarize/sortformer): signal processing
  around native inference libraries, whose answers are inputs of the models. The API dialects (api/)
  translate messages to and from the services modelled here. The configuration (config/) and the managed
  instance (managed/) read options; the command line program (cmd/) wires the components. Message texts,
  logging, metrics and clock resolution are left out everywhere.
\<close>

end
